(* ===== verification/Nexo_Prelude.thy ===== *)
theory Nexo_Prelude
  imports
    Main
    "HOL-Library.Multiset"
    "HOL-Library.Product_Lexorder"
    "HOL-Library.Monad_Syntax"
    "HOL-Library.Word"
begin

text \<open>
  The vocabulary shared by the component theories.

  A Rust function that may panic is a HOL function into \<open>'a option\<close>: \<open>None\<close> is the
  panic (a failed \<open>assert!\<close>, an \<open>unwrap\<close> on the wrong variant, an index out of range),
  and the \<open>do\<close> notation of the option monad composes such functions the way the source
  composes calls. A Rust \<open>Option\<close> returned by such a function is an option inside.
  \<open>vec_get\<close> and \<open>vec_set\<close> are \<open>v[i]\<close> and \<open>v[i] = x\<close> on a \<open>Vec\<close>, which panic out of
  range. Indices and epochs are natural numbers where the source checks them against
  their maximum; bit fields are 64-bit words.
\<close>

section \<open>Types and constants\<close>

type_synonym u64 = "64 word"
type_synonym usize = "64 word"

text \<open>\<open>std::time::Duration\<close>, counted in nanoseconds.\<close>

type_synonym duration = nat

definition u64_max :: nat where
  "u64_max = 2 ^ 64 - 1"

definition usize_max :: nat where
  "usize_max = 2 ^ 64 - 1"

datatype ordering = Less | Equal | Greater

definition cmp :: "'a::linorder \<Rightarrow> 'a \<Rightarrow> ordering" where
  "cmp a b = (if a < b then Less else if a = b then Equal else Greater)"

fun then_with :: "ordering \<Rightarrow> ordering \<Rightarrow> ordering" where
  "then_with Equal o2 = o2"
| "then_with o1 _ = o1"

fun reverse :: "ordering \<Rightarrow> ordering" where
  "reverse Less = Greater"
| "reverse Equal = Equal"
| "reverse Greater = Less"

section \<open>Vectors\<close>

definition vec_get :: "'a list \<Rightarrow> nat \<Rightarrow> 'a option" where
  "vec_get xs i = (if i < length xs then Some (xs ! i) else None)"

definition vec_set :: "'a list \<Rightarrow> nat \<Rightarrow> 'a \<Rightarrow> 'a list option" where
  "vec_set xs i x = (if i < length xs then Some (xs[i := x]) else None)"

text \<open>Insertion into a list ordered by key, behind every entry with the same key.\<close>

definition fifo_insert :: "'k::linorder \<Rightarrow> 'v \<Rightarrow> ('k \<times> 'v) list \<Rightarrow> ('k \<times> 'v) list" where
  "fifo_insert k v xs =
     takeWhile (\<lambda>e. fst e \<le> k) xs @ (k, v) # dropWhile (\<lambda>e. fst e \<le> k) xs"

section \<open>Lemma collections\<close>

named_theorems vec_simps \<open>unfolding of panicking vector accesses\<close>

lemma vec_get_Some_iff [simp]: "vec_get xs i = Some x \<longleftrightarrow> i < length xs \<and> x = xs ! i"
  by (auto simp: vec_get_def)

lemma vec_get_None_iff [simp]: "vec_get xs i = None \<longleftrightarrow> length xs \<le> i"
  by (auto simp: vec_get_def)

lemma vec_set_Some_iff [simp]: "vec_set xs i x = Some ys \<longleftrightarrow> i < length xs \<and> ys = xs[i := x]"
  by (auto simp: vec_set_def)

lemma vec_set_None_iff [simp]: "vec_set xs i x = None \<longleftrightarrow> length xs \<le> i"
  by (auto simp: vec_set_def)

lemma vec_get_in [vec_simps]: "i < length xs \<Longrightarrow> vec_get xs i = Some (xs ! i)"
  by simp

lemma vec_get_out [vec_simps]: "length xs \<le> i \<Longrightarrow> vec_get xs i = None"
  by simp

lemma vec_set_in [vec_simps]: "i < length xs \<Longrightarrow> vec_set xs i x = Some (xs[i := x])"
  by simp

lemma cmp_simps [simp]:
  "cmp a b = Less \<longleftrightarrow> a < b" "cmp a b = Equal \<longleftrightarrow> a = b" "cmp a b = Greater \<longleftrightarrow> b < a"
  by (auto simp: cmp_def)

lemma reverse_simps [simp]:
  "reverse x = Less \<longleftrightarrow> x = Greater" "reverse x = Greater \<longleftrightarrow> x = Less" "reverse x = Equal \<longleftrightarrow> x = Equal"
  by (cases x; simp)+

lemma then_with_Less [simp]: "then_with a b = Less \<longleftrightarrow> a = Less \<or> a = Equal \<and> b = Less"
  by (cases a) auto

section \<open>Lists with two positions exchanged\<close>

lemma mset_swap_hole:
  assumes "i < length xs" "j < length xs"
  shows "mset (xs[i := xs ! j, j := x]) = mset (xs[i := x])"
proof (cases "i = j")
  case False
  have "xs[i := xs ! j, j := x] = (xs[i := x])[i := (xs[i := x]) ! j, j := (xs[i := x]) ! i]"
    using False assms by (simp add: list_update_swap)
  moreover have "mset ((xs[i := x])[i := (xs[i := x]) ! j, j := (xs[i := x]) ! i]) = mset (xs[i := x])"
    using assms by (intro mset_swap) auto
  ultimately show ?thesis by (simp only:)
qed simp

section \<open>Sorting by a key that grows with insertion\<close>

lemma sort_key_unique:
  assumes "mset ys = mset xs" "inj_on f (set xs)" "sorted (map f ys)"
  shows "sort_key f xs = ys"
  using assms by (metis sort_key_inj_key_eq)

lemma takeWhile_dropWhile_sorted:
  assumes "sorted (map f ys)" "\<forall>y \<in> set ys. f y \<noteq> f x"
  shows "sorted (map f (takeWhile (\<lambda>y. f y \<le> f x) ys @ x # dropWhile (\<lambda>y. f y \<le> f x) ys))"
  using assms
proof (induction ys)
  case (Cons y ys)
  show ?case
  proof (cases "f y \<le> f x")
    case True
    then show ?thesis using Cons by (auto dest!: set_takeWhileD set_dropWhileD)
  next
    case False
    then show ?thesis using Cons by auto
  qed
qed simp

lemma sort_key_snoc:
  assumes inj: "inj_on f (set (xs @ [x]))" and new: "x \<notin> set xs"
  shows "sort_key f (xs @ [x]) =
    takeWhile (\<lambda>y. f y \<le> f x) (sort_key f xs) @ x # dropWhile (\<lambda>y. f y \<le> f x) (sort_key f xs)"
    (is "_ = ?r")
proof (rule sort_key_unique)
  have "mset (takeWhile (\<lambda>y. f y \<le> f x) (sort_key f xs))
      + mset (dropWhile (\<lambda>y. f y \<le> f x) (sort_key f xs)) = mset xs"
    by (simp flip: mset_append)
  then show "mset ?r = mset (xs @ [x])" by simp
  show "inj_on f (set (xs @ [x]))" by (rule inj)
  have "\<forall>y \<in> set (sort_key f xs). f y \<noteq> f x"
    using inj new by (auto simp: inj_on_def)
  then show "sorted (map f ?r)" by (rule takeWhile_dropWhile_sorted [OF sorted_sort_key])
qed

text \<open>
  The order in which a queue of keyed, epoch-stamped items is emptied: an item with a
  fresh epoch goes behind every item whose key is not larger.
\<close>

lemma sort_key_fifo_insert:
  fixes f :: "'i \<Rightarrow> 'k::linorder \<times> nat"
  assumes "inj_on f (set (xs @ [x]))" "x \<notin> set xs"
    and "\<forall>y \<in> set xs. snd (f y) < snd (f x)"
    and "\<forall>y. fst (g y) = fst (f y)"
  shows "map g (sort_key f (xs @ [x])) = fifo_insert (fst (g x)) (snd (g x)) (map g (sort_key f xs))"
proof -
  let ?s = "sort_key f xs"
  have "\<forall>y \<in> set ?s. (f y \<le> f x) = (fst (g y) \<le> fst (g x))"
    using assms(3,4) by (auto simp: less_eq_prod_def)
  then have "takeWhile (\<lambda>y. f y \<le> f x) ?s = takeWhile (\<lambda>y. fst (g y) \<le> fst (g x)) ?s"
    and "dropWhile (\<lambda>y. f y \<le> f x) ?s = dropWhile (\<lambda>y. fst (g y) \<le> fst (g x)) ?s"
    by (auto intro: takeWhile_cong dropWhile_cong)
  then show ?thesis
    using sort_key_snoc [OF assms(1,2)]
    by (simp add: fifo_insert_def takeWhile_map dropWhile_map o_def)
qed

lemma sort_key_remove_min:
  assumes "inj_on f (set xs)" "m \<in> set xs" "\<forall>y \<in> set xs. f m \<le> f y"
  shows "sort_key f xs = m # sort_key f (remove1 m xs)"
proof (rule sort_key_unique)
  show "mset (m # sort_key f (remove1 m xs)) = mset xs" using assms(2) by simp
  show "sorted (map f (m # sort_key f (remove1 m xs)))"
    using assms(3) by (auto dest: notin_set_remove1 in_set_remove1 [THEN iffD1] set_remove1_subset [THEN subsetD])
qed (rule assms(1))

section \<open>Insertion behind equals is stable sorting\<close>

lemma fifo_insert_Nil [simp]: "fifo_insert k v [] = [(k, v)]"
  by (simp add: fifo_insert_def)

lemma fifo_insert_Cons:
  "fifo_insert k v (e # es) = (if fst e \<le> k then e # fifo_insert k v es else (k, v) # e # es)"
  by (simp add: fifo_insert_def)

lemma mset_fifo_insert [simp]: "mset (fifo_insert k v es) = add_mset (k, v) (mset es)"
  by (induction es) (auto simp: fifo_insert_Cons)

lemma set_fifo_insert [simp]: "set (fifo_insert k v es) = insert (k, v) (set es)"
  by (induction es) (auto simp: fifo_insert_Cons)

lemma length_fifo_insert [simp]: "length (fifo_insert k v es) = Suc (length es)"
  by (induction es) (auto simp: fifo_insert_Cons)

lemma sorted_fifo_insert:
  "sorted (map fst es) \<Longrightarrow> sorted (map fst (fifo_insert k v es))"
  by (induction es) (auto simp: fifo_insert_Cons)

lemma fifo_insert_insort:
  "fifo_insert k v (insort_key fst e es) = insort_key fst e (fifo_insert k v es)"
  by (induction es) (auto simp: fifo_insert_Cons)

lemma sort_key_fst_snoc: "sort_key fst (es @ [(k, v)]) = fifo_insert k v (sort_key fst es)"
  by (induction es) (auto simp: fifo_insert_insort)

section \<open>Words\<close>

lemma unat_word_of_nat: "n < 2 ^ 64 \<Longrightarrow> unat (of_nat n :: u64) = n"
  by (simp add: unat_of_nat)

lemma word_of_nat_eq:
  "a < 2 ^ 64 \<Longrightarrow> b < 2 ^ 64 \<Longrightarrow> (of_nat a :: u64) = of_nat b \<longleftrightarrow> a = b"
  by (metis unat_word_of_nat)

lemma sint_diff:
  assumes "a < 2 ^ 63" "b < 2 ^ 63"
  shows "sint (of_nat a - of_nat b :: u64) = int a - int b"
proof -
  have "(of_nat a - of_nat b :: u64) = word_of_int (int a - int b)"
    by simp
  also have "sint \<dots> = signed_take_bit 63 (int a - int b)"
    by (simp only: sint_sbintrunc') simp
  also have "\<dots> = int a - int b"
    using assms by (intro signed_take_bit_int_eq_self) auto
  finally show ?thesis .
qed

section \<open>Sums over indices\<close>

text \<open>The effect of an update at one index on a sum, and on a balance kept by a shared and by local counts.\<close>

lemma sum_fun_upd:
  fixes f :: "'a \<Rightarrow> 'b::comm_monoid_add" and i n :: nat
  assumes "i < n"
  shows "(\<Sum>u < n. f ((W(i := w)) u)) + f (W i) = (\<Sum>u < n. f (W u)) + f w"
proof -
  have "(\<Sum>u \<in> {..<n} - {i}. f ((W(i := w)) u)) = (\<Sum>u \<in> {..<n} - {i}. f (W u))"
    by (rule sum.cong) auto
  moreover have "(\<Sum>u < n. g u) = g i + (\<Sum>u \<in> {..<n} - {i}. g u)" for g :: "nat \<Rightarrow> 'b"
    using assms by (intro sum.remove) auto
  ultimately show ?thesis by (simp only: fun_upd_same ac_simps)
qed

lemma balance:
  fixes a' m' :: "'a::ab_group_add"
  assumes "a' + t = a + t'" "m + a = b" "m' + t' - b' = m + t - b"
  shows "m' + a' = b'"
proof -
  have "m' + a' + t = m' + (a + t')" by (simp add: add.assoc assms(1))
  also have "\<dots> = (m' + t' - b') + b' + a" by (simp add: algebra_simps)
  also have "\<dots> = (m + a) + t - b + b'" unfolding assms(3) by (simp add: algebra_simps)
  also have "\<dots> = b' + t" unfolding assms(2) by simp
  finally show ?thesis by simp
qed

end
