(* ===== verification/Pq_Spec.thy ===== *)
theory Pq_Spec
  imports Nexo_Prelude
begin

text \<open>
  The contract shared by the two priority queues of the program: a queue is a list of
  key-value pairs in the order in which they will be pulled. Insertion puts an entry
  behind every entry with the same key (FIFO order of equal keys), pulling takes the
  first entry, peeking looks at it. \<open>room\<close> is the number of insertions left before the
  64-bit epoch counter of the queue is used up, when \<open>insert\<close> panics.

  \<open>run_ops\<close> runs a sequence of operations on an implementation and \<open>spec_ops\<close> runs it
  on the list; the locale shows once that both give the same answers.
\<close>

section \<open>Sequences of operations\<close>

datatype ('k, 'v) pq_op = OpInsert 'k 'v | OpPull | OpPeek

fun spec_ops ::
  "('k::linorder, 'v) pq_op list \<Rightarrow> ('k \<times> 'v) list \<Rightarrow> ('k \<times> 'v) list \<times> ('k \<times> 'v) option list"
where
  "spec_ops [] es = (es, [])"
| "spec_ops (OpInsert k v # ops) es = spec_ops ops (fifo_insert k v es)"
| "spec_ops (OpPull # ops) es =
     (case es of
        [] \<Rightarrow> (let (r, os) = spec_ops ops [] in (r, None # os))
      | e # es' \<Rightarrow> (let (r, os) = spec_ops ops es' in (r, Some e # os)))"
| "spec_ops (OpPeek # ops) es =
     (let (r, os) = spec_ops ops es in (r, (case es of [] \<Rightarrow> None | e # _ \<Rightarrow> Some e) # os))"

fun run_ops ::
  "('k \<Rightarrow> 'v \<Rightarrow> 'q \<Rightarrow> 'q option) \<Rightarrow> ('q \<Rightarrow> ('q \<times> ('k \<times> 'v) option) option) \<Rightarrow>
   ('q \<Rightarrow> ('k \<times> 'v) option option) \<Rightarrow> ('k, 'v) pq_op list \<Rightarrow> 'q \<Rightarrow>
   ('q \<times> ('k \<times> 'v) option list) option"
where
  "run_ops ins pul pek [] q = Some (q, [])"
| "run_ops ins pul pek (OpInsert k v # ops) q =
     do { q' \<leftarrow> ins k v q; run_ops ins pul pek ops q' }"
| "run_ops ins pul pek (OpPull # ops) q =
     do { (q', r) \<leftarrow> pul q; (q'', os) \<leftarrow> run_ops ins pul pek ops q'; Some (q'', r # os) }"
| "run_ops ins pul pek (OpPeek # ops) q =
     do { r \<leftarrow> pek q; (q'', os) \<leftarrow> run_ops ins pul pek ops q; Some (q'', r # os) }"

fun inserts :: "('k, 'v) pq_op list \<Rightarrow> nat" where
  "inserts [] = 0"
| "inserts (OpInsert k v # ops) = Suc (inserts ops)"
| "inserts (OpPull # ops) = inserts ops"
| "inserts (OpPeek # ops) = inserts ops"

lemma spec_ops_insert_all:
  "spec_ops (map (\<lambda>(k, v). OpInsert k v) es @ ops) acc
     = spec_ops ops (fold (\<lambda>(k, v). fifo_insert k v) es acc)"
  by (induction es arbitrary: acc) auto

lemma fold_fifo_insert_sort: "fold (\<lambda>(k, v). fifo_insert k v) es [] = sort_key fst es"
proof (induction es rule: rev_induct)
  case (snoc e es)
  then show ?case by (cases e) (simp add: sort_key_fst_snoc)
qed simp

lemma spec_ops_pull_all:
  "spec_ops (replicate (length es) OpPull) es = ([], map Some es)"
  by (induction es) auto

lemma inserts_append [simp]: "inserts (xs @ ys) = inserts xs + inserts ys"
  by (induction xs rule: inserts.induct) auto

lemma inserts_insert_all [simp]: "inserts (map (\<lambda>(k, v). OpInsert k v) es) = length es"
  by (induction es) auto

lemma inserts_replicate_pull [simp]: "inserts (replicate n OpPull) = 0"
  by (induction n) auto

section \<open>The contract\<close>

locale fifo_pq =
  fixes inv :: "'q \<Rightarrow> bool"
    and entries :: "'q \<Rightarrow> ('k::linorder \<times> 'v) list"
    and room :: "'q \<Rightarrow> nat"
    and empty :: 'q
    and insert :: "'k \<Rightarrow> 'v \<Rightarrow> 'q \<Rightarrow> 'q option"
    and pull :: "'q \<Rightarrow> ('q \<times> ('k \<times> 'v) option) option"
    and peek :: "'q \<Rightarrow> ('k \<times> 'v) option option"
  assumes inv_empty: "inv empty"
    and entries_empty: "entries empty = []"
    and room_empty: "room empty = u64_max"
    and insert_law: "inv q \<Longrightarrow> 0 < room q \<Longrightarrow>
      \<exists>q'. insert k v q = Some q' \<and> inv q' \<and> entries q' = fifo_insert k v (entries q)
           \<and> Suc (room q') = room q"
    and insert_exhausted: "inv q \<Longrightarrow> room q = 0 \<Longrightarrow> insert k v q = None"
    and pull_law: "inv q \<Longrightarrow>
      \<exists>q'. inv q' \<and> room q' = room q \<and>
        (case entries q of
           [] \<Rightarrow> pull q = Some (q', None) \<and> entries q' = []
         | e # es \<Rightarrow> pull q = Some (q', Some e) \<and> entries q' = es)"
    and peek_law: "inv q \<Longrightarrow>
      peek q = Some (case entries q of [] \<Rightarrow> None | e # _ \<Rightarrow> Some e)"
begin

lemma run_refines:
  assumes "inv q" "inserts ops \<le> room q"
  shows "\<exists>q'. run_ops insert pull peek ops q = Some (q', snd (spec_ops ops (entries q)))
    \<and> inv q' \<and> entries q' = fst (spec_ops ops (entries q)) \<and> room q' + inserts ops = room q"
  using assms
proof (induction ops arbitrary: q rule: inserts.induct)
  case (2 k v ops)
  then obtain q1 where q1: "insert k v q = Some q1" "inv q1"
      "entries q1 = fifo_insert k v (entries q)" "Suc (room q1) = room q"
    using insert_law [of q k v] by auto
  then show ?case using "2.IH" [of q1] "2.prems"(2) by auto
next
  case (3 ops)
  obtain q1 where q1: "inv q1" "room q1 = room q"
      "case entries q of [] \<Rightarrow> pull q = Some (q1, None) \<and> entries q1 = []
       | e # es \<Rightarrow> pull q = Some (q1, Some e) \<and> entries q1 = es"
    using pull_law [of q] "3.prems" by auto
  then show ?case using "3.IH" [of q1] "3.prems"(2)
    by (cases "entries q") (auto split: prod.splits)
next
  case (4 ops)
  obtain q' where "run_ops insert pull peek ops q = Some (q', snd (spec_ops ops (entries q)))"
      "inv q'" "entries q' = fst (spec_ops ops (entries q))" "room q' + inserts ops = room q"
    using "4.IH" [of q] "4.prems" by auto
  then show ?case using "4.prems" by (simp add: peek_law case_prod_beta Let_def)
qed auto

text \<open>Inserting a list of pairs and pulling them all sorts the list stably by key.\<close>

lemma drain_sorts:
  assumes "length es \<le> u64_max"
  shows "\<exists>q'. run_ops insert pull peek
      (map (\<lambda>(k, v). OpInsert k v) es @ replicate (length es) OpPull) empty
      = Some (q', map Some (sort_key fst es)) \<and> entries q' = []"
proof -
  let ?ops = "map (\<lambda>(k, v). OpInsert k v) es @ replicate (length es) OpPull"
  have "spec_ops ?ops (entries empty) = ([], map Some (sort_key fst es))"
    using spec_ops_pull_all [of "sort_key fst es"]
    by (simp add: entries_empty spec_ops_insert_all fold_fifo_insert_sort)
  then show ?thesis
    using run_refines [OF inv_empty, of ?ops] assms room_empty by auto
qed

end

end
