(* ===== verification/Indexed_Priority_Queue.thy ===== *)
theory Indexed_Priority_Queue
  imports Pq_Spec
begin

text \<open>
  The indexed priority queue of \<open>util/indexed_priority_queue.rs\<close>: a binary heap of
  items stored in a vector, and a slab of nodes holding the values. Heap items point to
  their node and heap nodes point back to their item; the free nodes of the slab form a
  linked list. Every vector access and every \<open>unwrap_*\<close> of the source is an option, so
  that the lemmas below show, besides the functional behaviour, that no operation panics.

  The sections give the data and the operations in the order of the source, the
  invariant, the order lemmas on sequences of keys, the effect of \<open>sift_up\<close> and
  \<open>sift_down\<close>, and the effect of each operation on the list of live entries.
\<close>

section \<open>Data\<close>

datatype 'k unique_key = UniqueKey (uk_key: 'k) (uk_epoch: nat)

instantiation unique_key :: (linorder) linorder
begin

definition less_eq_unique_key :: "'a unique_key \<Rightarrow> 'a unique_key \<Rightarrow> bool" where
  "less_eq_unique_key a b \<longleftrightarrow> (uk_key a, uk_epoch a) \<le> (uk_key b, uk_epoch b)"

definition less_unique_key :: "'a unique_key \<Rightarrow> 'a unique_key \<Rightarrow> bool" where
  "less_unique_key a b \<longleftrightarrow> (uk_key a, uk_epoch a) < (uk_key b, uk_epoch b)"

instance
proof
  fix x y z :: "'a unique_key"
  show "x \<le> y \<Longrightarrow> y \<le> x \<Longrightarrow> x = y"
    by (cases x; cases y) (auto simp: less_eq_unique_key_def)
  show "(x < y) = (x \<le> y \<and> \<not> y \<le> x)"
    by (simp only: less_eq_unique_key_def less_unique_key_def less_le_not_le)
  show "x \<le> y \<or> y \<le> x" unfolding less_eq_unique_key_def by (rule linear)
  show "x \<le> y \<Longrightarrow> y \<le> z \<Longrightarrow> x \<le> z"
    unfolding less_eq_unique_key_def by (rule order_trans)
  show "x \<le> x" unfolding less_eq_unique_key_def by (rule order_refl)
qed

end

record 'k ipq_item =
  item_key :: "'k unique_key"
  slab_idx :: nat

datatype 'v node = FreeNode "nat option" | HeapNode 'v nat

record ins_key =
  ik_slab_idx :: nat
  ik_epoch :: nat

record ('k, 'v) ipq =
  ipq_heap :: "'k ipq_item list"
  ipq_slab :: "'v node list"
  first_free_node :: "nat option"
  next_epoch :: nat

fun unwrap_next_free_node :: "'v node \<Rightarrow> nat option option" where
  "unwrap_next_free_node (FreeNode nx) = Some nx"
| "unwrap_next_free_node (HeapNode _ _) = None"

fun unwrap_heap_node :: "'v node \<Rightarrow> ('v \<times> nat) option" where
  "unwrap_heap_node (HeapNode v i) = Some (v, i)"
| "unwrap_heap_node (FreeNode _) = None"

fun unwrap_value :: "'v node \<Rightarrow> 'v option" where
  "unwrap_value (HeapNode v _) = Some v"
| "unwrap_value (FreeNode _) = None"

text \<open>\<open>*self.slab[j].unwrap_heap_index_mut() = i\<close>\<close>

definition set_heap_index :: "'v node list \<Rightarrow> nat \<Rightarrow> nat \<Rightarrow> 'v node list option" where
  "set_heap_index s j i =
     do { n \<leftarrow> vec_get s j;
          (v, _) \<leftarrow> unwrap_heap_node n;
          vec_set s j (HeapNode v i) }"

definition from_raw_parts :: "nat \<Rightarrow> nat \<Rightarrow> ins_key" where
  "from_raw_parts i e = \<lparr>ik_slab_idx = i, ik_epoch = e\<rparr>"

definition into_raw_parts :: "ins_key \<Rightarrow> nat \<times> nat" where
  "into_raw_parts ik = (ik_slab_idx ik, ik_epoch ik)"

section \<open>Operations\<close>

text \<open>
  The loop of \<open>sift_up\<close> on the heap, the slab and \<open>child_heap_idx\<close>; the item is
  written at the position where the loop stops.
\<close>

function sift_up_loop ::
  "'k::linorder ipq_item \<Rightarrow> 'k ipq_item list \<Rightarrow> 'v node list \<Rightarrow> nat \<Rightarrow>
   ('k ipq_item list \<times> 'v node list \<times> nat) option"
where
  "sift_up_loop it h s c =
     (if c = 0 then Some (h, s, c)
      else do {
        parent \<leftarrow> vec_get h ((c - 1) div 2);
        if item_key parent \<le> item_key it then Some (h, s, c)
        else do {
          h1 \<leftarrow> vec_set h c parent;
          parent1 \<leftarrow> vec_get h1 ((c - 1) div 2);
          s1 \<leftarrow> set_heap_index s (slab_idx parent1) c;
          if item_key parent1 \<le> item_key it then Some (h1, s1, c)
          else sift_up_loop it h1 s1 ((c - 1) div 2)
        }
      })"
  by pat_completeness auto
termination by (relation "measure (\<lambda>(it, h, s, c). c)") auto

definition sift_up :: "'k::linorder ipq_item \<Rightarrow> nat \<Rightarrow> ('k, 'v) ipq \<Rightarrow> ('k, 'v) ipq option" where
  "sift_up it heap_idx q =
     do { (h, s, c) \<leftarrow> sift_up_loop it (ipq_heap q) (ipq_slab q) heap_idx;
          h' \<leftarrow> vec_set h c it;
          s' \<leftarrow> set_heap_index s (slab_idx it) c;
          Some (q\<lparr>ipq_heap := h', ipq_slab := s'\<rparr>) }"

text \<open>The child of the loop of \<open>sift_down\<close>: the sibling if it exists and is smaller.\<close>

definition least_child :: "'k::linorder ipq_item list \<Rightarrow> nat \<Rightarrow> nat option" where
  "least_child h c =
     (case vec_get h (c + 1) of
        Some other \<Rightarrow>
          do { child \<leftarrow> vec_get h c;
               Some (c + (if item_key other < item_key child then 1 else 0)) }
      | None \<Rightarrow> Some c)"

function sift_down_loop ::
  "'k::linorder ipq_item \<Rightarrow> 'k ipq_item list \<Rightarrow> 'v node list \<Rightarrow> nat \<Rightarrow> nat \<Rightarrow>
   ('k ipq_item list \<times> 'v node list \<times> nat) option"
where
  "sift_down_loop it h s p c =
     (if c < length h then do {
        c1 \<leftarrow> least_child h c;
        child \<leftarrow> vec_get h c1;
        if item_key it \<le> item_key child then Some (h, s, p)
        else do {
          h1 \<leftarrow> vec_set h p child;
          child1 \<leftarrow> vec_get h1 c1;
          s1 \<leftarrow> set_heap_index s (slab_idx child1) p;
          sift_down_loop it h1 s1 c1 (2 * c1 + 1)
        }
      } else Some (h, s, p))"
  by pat_completeness auto
termination
  by (relation "measure (\<lambda>(it, h, s, p, c). length h - c)")
     (auto simp: least_child_def bind_eq_Some_conv split: option.splits if_splits)

definition sift_down :: "'k::linorder ipq_item \<Rightarrow> nat \<Rightarrow> ('k, 'v) ipq \<Rightarrow> ('k, 'v) ipq option" where
  "sift_down it heap_idx q =
     do { (h, s, p) \<leftarrow> sift_down_loop it (ipq_heap q) (ipq_slab q) heap_idx (2 * heap_idx + 1);
          h' \<leftarrow> vec_set h p it;
          s' \<leftarrow> set_heap_index s (slab_idx it) p;
          Some (q\<lparr>ipq_heap := h', ipq_slab := s'\<rparr>) }"

definition ipq_new :: "('k, 'v) ipq" where
  "ipq_new = \<lparr>ipq_heap = [], ipq_slab = [], first_free_node = None, next_epoch = 0\<rparr>"

definition ipq_len :: "('k, 'v) ipq \<Rightarrow> nat" where
  "ipq_len q = length (ipq_heap q)"

text \<open>
  The first half of \<open>insert\<close>: a node of the slab for the value, taken from the free
  list when it is not empty.
\<close>

definition alloc_node :: "'v \<Rightarrow> ('k, 'v) ipq \<Rightarrow> (('k, 'v) ipq \<times> nat) option" where
  "alloc_node v q =
     (case first_free_node q of
        Some idx \<Rightarrow>
          do { n \<leftarrow> vec_get (ipq_slab q) idx;
               nx \<leftarrow> unwrap_next_free_node n;
               s \<leftarrow> vec_set (ipq_slab q) idx (HeapNode v 0);
               Some (q\<lparr>ipq_slab := s, first_free_node := nx\<rparr>, idx) }
      | None \<Rightarrow> Some (q\<lparr>ipq_slab := ipq_slab q @ [HeapNode v 0]\<rparr>, length (ipq_slab q)))"

definition ipq_insert ::
  "'k::linorder \<Rightarrow> 'v \<Rightarrow> ('k, 'v) ipq \<Rightarrow> (('k, 'v) ipq \<times> ins_key) option"
where
  "ipq_insert k v q =
     (let epoch = next_epoch q in
      if epoch = u64_max then None
      else do {
        (q1, idx) \<leftarrow> alloc_node v (q\<lparr>next_epoch := epoch + 1\<rparr>);
        let heap_idx = length (ipq_heap q1);
        let q2 = q1\<lparr>ipq_heap := ipq_heap q1 @ [\<lparr>item_key = UniqueKey k epoch, slab_idx = 0\<rparr>]\<rparr>;
        q3 \<leftarrow> sift_up \<lparr>item_key = UniqueKey k epoch, slab_idx = idx\<rparr> heap_idx q2;
        Some (q3, \<lparr>ik_slab_idx = idx, ik_epoch = epoch\<rparr>)
      })"

definition ipq_pull ::
  "('k::linorder, 'v) ipq \<Rightarrow> (('k, 'v) ipq \<times> ('k \<times> 'v) option) option"
where
  "ipq_pull q =
     (case ipq_heap q of
        [] \<Rightarrow> Some (q, None)
      | item # _ \<Rightarrow>
          do { let top = slab_idx item;
               n \<leftarrow> vec_get (ipq_slab q) top;
               s \<leftarrow> vec_set (ipq_slab q) top (FreeNode (first_free_node q));
               v \<leftarrow> unwrap_value n;
               let lst = last (ipq_heap q);
               let q1 = q\<lparr>ipq_heap := butlast (ipq_heap q), ipq_slab := s, first_free_node := Some top\<rparr>;
               q2 \<leftarrow> (if slab_idx lst \<noteq> top then sift_down lst 0 q1 else Some q1);
               Some (q2, Some (uk_key (item_key item), v)) })"

definition ipq_peek :: "('k, 'v) ipq \<Rightarrow> ('k \<times> 'v) option option" where
  "ipq_peek q =
     (case ipq_heap q of
        [] \<Rightarrow> Some None
      | item # _ \<Rightarrow>
          do { n \<leftarrow> vec_get (ipq_slab q) (slab_idx item);
               v \<leftarrow> unwrap_value n;
               Some (Some (uk_key (item_key item), v)) })"

definition ipq_peek_key :: "('k, 'v) ipq \<Rightarrow> 'k option" where
  "ipq_peek_key q = (case ipq_heap q of [] \<Rightarrow> None | item # _ \<Rightarrow> Some (uk_key (item_key item)))"

text \<open>The guard of \<open>extract\<close>: whether the key designates a live node of its epoch.\<close>

definition extract_check :: "ins_key \<Rightarrow> ('k, 'v) ipq \<Rightarrow> bool option" where
  "extract_check ik q =
     (case vec_get (ipq_slab q) (ik_slab_idx ik) of
        None \<Rightarrow> Some False
      | Some (FreeNode _) \<Rightarrow> Some False
      | Some (HeapNode _ i) \<Rightarrow>
          do { item \<leftarrow> vec_get (ipq_heap q) i;
               Some (uk_epoch (item_key item) = ik_epoch ik) })"

definition ipq_extract ::
  "ins_key \<Rightarrow> ('k::linorder, 'v) ipq \<Rightarrow> (('k, 'v) ipq \<times> ('k \<times> 'v) option) option"
where
  "ipq_extract ik q =
     do { ok \<leftarrow> extract_check ik q;
          if \<not> ok then Some (q, None)
          else do {
            let idx = ik_slab_idx ik;
            n \<leftarrow> vec_get (ipq_slab q) idx;
            s \<leftarrow> vec_set (ipq_slab q) idx (FreeNode (first_free_node q));
            (v, i) \<leftarrow> unwrap_heap_node n;
            item \<leftarrow> vec_get (ipq_heap q) i;
            lst \<leftarrow> (if ipq_heap q = [] then None else Some (last (ipq_heap q)));
            let q1 = q\<lparr>ipq_heap := butlast (ipq_heap q), ipq_slab := s, first_free_node := Some idx\<rparr>;
            q2 \<leftarrow> (case vec_get (ipq_heap q1) i of
                     None \<Rightarrow> Some q1
                   | Some item' \<Rightarrow>
                       if item_key lst < item_key item' then sift_up lst i q1 else sift_down lst i q1);
            Some (q2, Some (uk_key (item_key item), v))
          } }"

section \<open>Invariant and abstraction\<close>

text \<open>Heap items and heap nodes point to each other.\<close>

definition linked :: "'k ipq_item list \<Rightarrow> 'v node list \<Rightarrow> bool" where
  "linked h s \<longleftrightarrow>
     (\<forall>i < length h. slab_idx (h ! i) < length s \<and> (\<exists>v. s ! slab_idx (h ! i) = HeapNode v i)) \<and>
     (\<forall>j < length s. \<forall>v i. s ! j = HeapNode v i \<longrightarrow> i < length h \<and> slab_idx (h ! i) = j)"

text \<open>The free nodes, in the order of the linked list that starts at \<open>first\<close>.\<close>

primrec free_chain :: "'v node list \<Rightarrow> nat option \<Rightarrow> nat list \<Rightarrow> bool" where
  "free_chain s first [] \<longleftrightarrow> first = None"
| "free_chain s first (j # js) \<longleftrightarrow>
     first = Some j \<and> j < length s \<and> (\<exists>nx. s ! j = FreeNode nx \<and> free_chain s nx js)"

definition free_ok :: "'v node list \<Rightarrow> nat option \<Rightarrow> bool" where
  "free_ok s first \<longleftrightarrow>
     (\<exists>js. distinct js \<and> free_chain s first js \<and>
           (\<forall>j < length s. (\<exists>nx. s ! j = FreeNode nx) \<longrightarrow> j \<in> set js))"

text \<open>Heap order on the sequence of keys.\<close>

definition heap_prop :: "'a::linorder list \<Rightarrow> bool" where
  "heap_prop ks \<longleftrightarrow> (\<forall>i < length ks. 0 < i \<longrightarrow> ks ! ((i - 1) div 2) \<le> ks ! i)"

definition ipq_inv :: "('k::linorder, 'v) ipq \<Rightarrow> bool" where
  "ipq_inv q \<longleftrightarrow>
     linked (ipq_heap q) (ipq_slab q) \<and>
     free_ok (ipq_slab q) (first_free_node q) \<and>
     heap_prop (map item_key (ipq_heap q)) \<and>
     distinct (map (uk_epoch \<circ> item_key) (ipq_heap q)) \<and>
     (\<forall>it \<in> set (ipq_heap q). uk_epoch (item_key it) < next_epoch q) \<and>
     next_epoch q \<le> u64_max"

text \<open>
  The order of the sequence of keys while an item travels through it: every edge holds
  but the one into \<open>c\<close> (upwards) or those out of \<open>p\<close> (downwards), and the children of
  the position are not below its parent.
\<close>

definition up_ok :: "'a::linorder list \<Rightarrow> nat \<Rightarrow> bool" where
  "up_ok ks c \<longleftrightarrow>
     (\<forall>i < length ks. 0 < i \<longrightarrow> i \<noteq> c \<longrightarrow> ks ! ((i - 1) div 2) \<le> ks ! i) \<and>
     (\<forall>i < length ks. 0 < i \<longrightarrow> 0 < c \<longrightarrow> (i - 1) div 2 = c \<longrightarrow> ks ! ((c - 1) div 2) \<le> ks ! i)"

definition down_ok :: "'a::linorder list \<Rightarrow> nat \<Rightarrow> bool" where
  "down_ok ks p \<longleftrightarrow>
     (\<forall>i < length ks. 0 < i \<longrightarrow> (i - 1) div 2 \<noteq> p \<longrightarrow> ks ! ((i - 1) div 2) \<le> ks ! i) \<and>
     (\<forall>i < length ks. 0 < i \<longrightarrow> 0 < p \<longrightarrow> (i - 1) div 2 = p \<longrightarrow> ks ! ((p - 1) div 2) \<le> ks ! i)"

text \<open>
  A node without its heap index: what sifting leaves untouched. \<open>sifting it h s c\<close> says
  that heap and slab are linked once \<open>it\<close> is written at the vacant position \<open>c\<close>, and
  \<open>placed it c q q'\<close> is the outcome of sifting \<open>it\<close> from \<open>c\<close>.
\<close>

fun erase :: "'v node \<Rightarrow> 'v node" where
  "erase (HeapNode v _) = HeapNode v 0"
| "erase (FreeNode nx) = FreeNode nx"

definition reindex :: "'v node list \<Rightarrow> nat \<Rightarrow> nat \<Rightarrow> 'v node list" where
  "reindex s j i = (case s ! j of HeapNode v _ \<Rightarrow> s[j := HeapNode v i] | FreeNode _ \<Rightarrow> s)"

definition sifting :: "'k ipq_item \<Rightarrow> 'k ipq_item list \<Rightarrow> 'v node list \<Rightarrow> nat \<Rightarrow> bool" where
  "sifting it h s c \<longleftrightarrow>
     c < length h \<and> slab_idx it < length s \<and> (\<exists>v x. s ! slab_idx it = HeapNode v x) \<and>
     linked (h[c := it]) (reindex s (slab_idx it) c)"

definition placed ::
  "'k::linorder ipq_item \<Rightarrow> nat \<Rightarrow> ('k, 'v) ipq \<Rightarrow> ('k, 'v) ipq \<Rightarrow> bool"
where
  "placed it c q q' \<longleftrightarrow>
     linked (ipq_heap q') (ipq_slab q') \<and> heap_prop (map item_key (ipq_heap q')) \<and>
     mset (ipq_heap q') = mset ((ipq_heap q)[c := it]) \<and>
     map erase (ipq_slab q') = map erase (ipq_slab q) \<and>
     first_free_node q' = first_free_node q \<and> next_epoch q' = next_epoch q"

text \<open>A live entry: its unique key, its node and its value.\<close>

type_synonym ('k, 'v) triple = "'k unique_key \<times> nat \<times> 'v"

fun node_value :: "'v node \<Rightarrow> 'v" where
  "node_value (HeapNode v _) = v"
| "node_value (FreeNode _) = undefined"

definition ipq_triples :: "('k, 'v) ipq \<Rightarrow> ('k, 'v) triple list" where
  "ipq_triples q =
     map (\<lambda>it. (item_key it, slab_idx it, node_value (ipq_slab q ! slab_idx it))) (ipq_heap q)"

fun triple_rank :: "('k, 'v) triple \<Rightarrow> 'k \<times> nat" where
  "triple_rank (uk, _, _) = (uk_key uk, uk_epoch uk)"

fun triple_pair :: "('k, 'v) triple \<Rightarrow> 'k \<times> 'v" where
  "triple_pair (uk, _, v) = (uk_key uk, v)"

fun triple_ik :: "('k, 'v) triple \<Rightarrow> ins_key" where
  "triple_ik (uk, idx, _) = \<lparr>ik_slab_idx = idx, ik_epoch = uk_epoch uk\<rparr>"

definition ipq_entries :: "('k::linorder, 'v) ipq \<Rightarrow> ('k \<times> 'v) list" where
  "ipq_entries q = map triple_pair (sort_key triple_rank (ipq_triples q))"

text \<open>The live entries as a finite map from insertion keys to key-value pairs.\<close>

definition ipq_lookup :: "('k, 'v) ipq \<Rightarrow> ins_key \<Rightarrow> ('k \<times> 'v) option" where
  "ipq_lookup q = map_of (map (\<lambda>t. (triple_ik t, triple_pair t)) (ipq_triples q))"

definition ipq_room :: "('k, 'v) ipq \<Rightarrow> nat" where
  "ipq_room q = u64_max - next_epoch q"

section \<open>Order lemmas\<close>

declare sift_up_loop.simps [simp del] sift_down_loop.simps [simp del]

lemma up_ok_done:
  assumes "up_ok ks c" "c = 0 \<or> ks ! ((c - 1) div 2) \<le> ks ! c"
  shows "heap_prop ks"
  using assms by (auto simp: up_ok_def heap_prop_def)

lemma up_ok_step:
  assumes up: "up_ok ks c" and c: "0 < c" "c < length ks"
    and lt: "ks ! c < ks ! ((c - 1) div 2)"
  shows "up_ok (ks[c := ks ! ((c - 1) div 2), (c - 1) div 2 := ks ! c]) ((c - 1) div 2)"
proof -
  define p where "p = (c - 1) div 2"
  have p: "p < c" "p < length ks" using c by (auto simp: p_def)
  have edge: "ks ! ((i - 1) div 2) \<le> ks ! i" if "i < length ks" "0 < i" "i \<noteq> c" for i
    using up that by (auto simp: up_ok_def)
  have grand: "ks ! p \<le> ks ! i" if "i < length ks" "0 < i" "(i - 1) div 2 = c" for i
    using up that c by (auto simp: up_ok_def p_def)
  have lt': "ks ! c < ks ! p" using lt by (simp add: p_def)
  have sib: "ks ! p \<le> ks ! i" if "i < length ks" "0 < i" "i \<noteq> c" "(i - 1) div 2 = p" for i
    using edge [OF that(1-3)] that(4) by simp
  have pp: "ks ! ((p - 1) div 2) \<le> ks ! p" if "0 < p"
    using edge [of p] that p by auto
  let ?k = "ks[c := ks ! p, p := ks ! c]"
  have "?k ! ((i - 1) div 2) \<le> ?k ! i" if i: "i < length ks" "0 < i" "i \<noteq> p" for i
  proof -
    consider "i = c" | "i \<noteq> c" "(i - 1) div 2 = c" | "i \<noteq> c" "(i - 1) div 2 = p"
      | "i \<noteq> c" "(i - 1) div 2 \<noteq> c" "(i - 1) div 2 \<noteq> p" by blast
    then show ?thesis
    proof cases
      case 1
      then have "(i - 1) div 2 = p" by (simp add: p_def)
      then show ?thesis using 1 p c lt' by simp
    next
      case 2 then show ?thesis using grand [OF i(1,2)] p c i by (auto simp: nth_list_update)
    next
      case 3 then show ?thesis using sib [OF i(1,2)] p c i lt' by (auto simp: nth_list_update)
    next
      case 4 then show ?thesis using edge [OF i(1,2)] i by (auto simp: nth_list_update)
    qed
  qed
  moreover have "?k ! ((p - 1) div 2) \<le> ?k ! i"
    if i: "i < length ks" "0 < i" "0 < p" "(i - 1) div 2 = p" for i
  proof -
    have "(p - 1) div 2 < p" using i by auto
    then have k: "?k ! ((p - 1) div 2) = ks ! ((p - 1) div 2)" using p by auto
    show ?thesis
    proof (cases "i = c")
      case True then show ?thesis using k pp i p c by (auto simp: nth_list_update)
    next
      case False
      have "ks ! ((p - 1) div 2) \<le> ks ! i" using pp [OF i(3)] sib [OF i(1,2) False i(4)] by simp
      then show ?thesis using k False i p by (auto simp: nth_list_update)
    qed
  qed
  ultimately show ?thesis unfolding up_ok_def length_list_update p_def [symmetric] by blast
qed

lemma down_ok_done:
  assumes "down_ok ks p" "\<And>i. i < length ks \<Longrightarrow> 0 < i \<Longrightarrow> (i - 1) div 2 = p \<Longrightarrow> ks ! p \<le> ks ! i"
  shows "heap_prop ks"
  unfolding heap_prop_def
proof (intro allI impI)
  fix i assume "i < length ks" "0 < i"
  then show "ks ! ((i - 1) div 2) \<le> ks ! i"
    using assms by (cases "(i - 1) div 2 = p") (auto simp: down_ok_def)
qed

lemma down_ok_step:
  assumes down: "down_ok ks p" and c: "0 < c" "c < length ks" "(c - 1) div 2 = p"
    and lt: "ks ! c < ks ! p"
    and least: "\<And>i. i < length ks \<Longrightarrow> 0 < i \<Longrightarrow> (i - 1) div 2 = p \<Longrightarrow> ks ! c \<le> ks ! i"
  shows "down_ok (ks[p := ks ! c, c := ks ! p]) c"
proof -
  have p: "p < c" "p < length ks" using c by auto
  have edge: "ks ! ((i - 1) div 2) \<le> ks ! i" if "i < length ks" "0 < i" "(i - 1) div 2 \<noteq> p" for i
    using down that by (auto simp: down_ok_def)
  have grand: "ks ! ((p - 1) div 2) \<le> ks ! c" if "0 < p"
    using down that c by (auto simp: down_ok_def)
  let ?k = "ks[p := ks ! c, c := ks ! p]"
  have "?k ! ((i - 1) div 2) \<le> ?k ! i" if i: "i < length ks" "0 < i" "(i - 1) div 2 \<noteq> c" for i
  proof -
    consider "i = p" | "i = c" | "i \<noteq> p" "i \<noteq> c" "(i - 1) div 2 = p"
      | "i \<noteq> p" "i \<noteq> c" "(i - 1) div 2 \<noteq> p" by blast
    then show ?thesis
    proof cases
      case 1
      then have "(p - 1) div 2 < p" using i by auto
      then show ?thesis using 1 grand i p c by (auto simp: nth_list_update)
    next
      case 2 then show ?thesis using p c lt by (auto simp: nth_list_update)
    next
      case 3 then show ?thesis using least [OF i(1,2)] p c i by (auto simp: nth_list_update)
    next
      case 4 then show ?thesis using edge [OF i(1,2)] i by (auto simp: nth_list_update)
    qed
  qed
  moreover have "?k ! ((c - 1) div 2) \<le> ?k ! i"
    if i: "i < length ks" "0 < i" "(i - 1) div 2 = c" for i
  proof -
    have "i \<noteq> c" "i \<noteq> p" using i p by auto
    then show ?thesis using edge [OF i(1,2)] i p c by (auto simp: nth_list_update)
  qed
  ultimately show ?thesis unfolding down_ok_def length_list_update by blast
qed

lemma heap_prop_root:
  assumes "heap_prop ks" "i < length ks"
  shows "ks ! 0 \<le> ks ! i"
  using assms(2)
proof (induction i rule: less_induct)
  case (less i)
  show ?case
  proof (cases "i = 0")
    case False
    then have "ks ! 0 \<le> ks ! ((i - 1) div 2)" using less by auto
    also have "\<dots> \<le> ks ! i" using assms(1) less.prems False by (auto simp: heap_prop_def)
    finally show ?thesis .
  qed simp
qed

lemma heap_prop_snoc_up: "heap_prop ks \<Longrightarrow> up_ok (ks @ [k]) (length ks)"
  by (auto simp: heap_prop_def up_ok_def nth_append)

lemma heap_prop_butlast: "heap_prop ks \<Longrightarrow> heap_prop (butlast ks)"
  by (auto simp: heap_prop_def nth_butlast)

lemma heap_prop_replace_up:
  assumes "heap_prop ks" "c < length ks" "k < ks ! c"
  shows "up_ok (ks[c := k]) c"
proof -
  have edge: "ks ! ((i - 1) div 2) \<le> ks ! i" if "i < length ks" "0 < i" for i
    using assms(1) that by (auto simp: heap_prop_def)
  have "ks[c := k] ! ((i - 1) div 2) \<le> ks[c := k] ! i" if "i < length ks" "0 < i" "i \<noteq> c" for i
    using edge [OF that(1,2)] that assms by (auto simp: nth_list_update)
  moreover have "ks[c := k] ! ((c - 1) div 2) \<le> ks[c := k] ! i"
    if "i < length ks" "0 < i" "0 < c" "(i - 1) div 2 = c" for i
  proof -
    have "ks ! ((c - 1) div 2) \<le> ks ! i"
      using edge [of i] edge [of c] that assms(2) by auto
    moreover have "(c - 1) div 2 \<noteq> c" "i \<noteq> c" using that by auto
    ultimately show ?thesis by simp
  qed
  ultimately show ?thesis by (simp add: up_ok_def)
qed

lemma heap_prop_replace_down:
  assumes "heap_prop ks" "p < length ks" "ks ! p \<le> k"
  shows "down_ok (ks[p := k]) p"
proof -
  have edge: "ks ! ((i - 1) div 2) \<le> ks ! i" if "i < length ks" "0 < i" for i
    using assms(1) that by (auto simp: heap_prop_def)
  have "ks[p := k] ! ((i - 1) div 2) \<le> ks[p := k] ! i"
    if "i < length ks" "0 < i" "(i - 1) div 2 \<noteq> p" for i
    using edge [OF that(1,2)] that assms by (auto simp: nth_list_update)
  moreover have "ks[p := k] ! ((p - 1) div 2) \<le> ks[p := k] ! i"
    if "i < length ks" "0 < i" "0 < p" "(i - 1) div 2 = p" for i
  proof -
    have "ks ! ((p - 1) div 2) \<le> ks ! i"
      using edge [of i] edge [of p] that assms(2) by auto
    moreover have "(p - 1) div 2 \<noteq> p" "i \<noteq> p" using that by auto
    ultimately show ?thesis by simp
  qed
  ultimately show ?thesis by (simp add: down_ok_def)
qed

section \<open>Sifting\<close>

lemma set_heap_index_eq:
  "j < length s \<Longrightarrow> s ! j = HeapNode v x \<Longrightarrow> set_heap_index s j i = Some (reindex s j i)"
  by (simp add: set_heap_index_def reindex_def vec_simps)

lemma length_reindex [simp]: "length (reindex s j i) = length s"
  by (simp add: reindex_def split: node.split)

lemma nth_reindex:
  "j < length s \<Longrightarrow> s ! j = HeapNode v x \<Longrightarrow>
   reindex s j i ! l = (if l = j then HeapNode v i else s ! l)"
  by (simp add: reindex_def nth_list_update)

lemma erase_reindex: "map erase (reindex s j i) = map erase s"
proof (cases "s ! j")
  case (HeapNode v x)
  have "map erase (s[j := HeapNode v i]) = map erase s"
  proof (cases "j < length s")
    case True
    then have "erase (HeapNode v i) = map erase s ! j" using HeapNode by simp
    then show ?thesis by (simp only: map_update list_update_id)
  qed (simp add: list_update_beyond)
  then show ?thesis using HeapNode by (simp add: reindex_def)
qed (simp add: reindex_def)

lemma linked_slab_inj:
  "linked h s \<Longrightarrow> i < length h \<Longrightarrow> j < length h \<Longrightarrow> slab_idx (h ! i) = slab_idx (h ! j) \<Longrightarrow> i = j"
  unfolding linked_def by (metis node.inject(2))

text \<open>One turn of either loop moves the item at \<open>d\<close> to the vacant position.\<close>

lemma sifting_move:
  assumes sift: "sifting it h s c" and d: "d < length h" "d \<noteq> c"
  shows "\<exists>s1. set_heap_index s (slab_idx (h ! d)) c = Some s1 \<and>
    sifting it (h[c := h ! d]) s1 d \<and> map erase s1 = map erase s"
proof -
  let ?I = "slab_idx it" and ?D = "slab_idx (h ! d)"
  obtain v x where it: "c < length h" "?I < length s" "s ! ?I = HeapNode v x"
    and lk: "linked (h[c := it]) (reindex s ?I c)"
    using sift by (auto simp: sifting_def)
  have ne: "?D \<noteq> ?I"
    using linked_slab_inj [OF lk, of c d] d it(1) by auto
  obtain w where D: "?D < length s" "s ! ?D = HeapNode w d"
  proof -
    have "d < length (h[c := it])" "h[c := it] ! d = h ! d" using d by auto
    then have "?D < length s \<and> (\<exists>w. reindex s ?I c ! ?D = HeapNode w d)"
      using lk unfolding linked_def by (metis length_reindex)
    then show thesis using that nth_reindex [OF it(2,3)] ne by auto
  qed
  let ?s1 = "reindex s ?D c"
  let ?h = "h[c := h ! d, d := it]" and ?s = "reindex ?s1 ?I d"
  have s1: "?s1 ! ?I = HeapNode v x" using D it ne by (simp add: nth_reindex)
  have s: "?s ! l = (if l = ?I then HeapNode v d else if l = ?D then HeapNode w c else s ! l)" for l
    using s1 it D by (simp add: nth_reindex)
  have old: "reindex s ?I c ! l = (if l = ?I then HeapNode v c else s ! l)" for l
    using it by (simp add: nth_reindex)
  have fwd: "slab_idx (h ! i) < length s \<and> (\<exists>u. s ! slab_idx (h ! i) = HeapNode u i)
      \<and> slab_idx (h ! i) \<noteq> ?I \<and> (i \<noteq> d \<longrightarrow> slab_idx (h ! i) \<noteq> ?D)"
    if "i < length h" "i \<noteq> c" for i
  proof -
    have "slab_idx (h ! i) \<noteq> ?I" using linked_slab_inj [OF lk, of i c] that it by auto
    moreover have "i \<noteq> d \<longrightarrow> slab_idx (h ! i) \<noteq> ?D"
      using linked_slab_inj [OF lk, of i d] that d by auto
    moreover have "slab_idx (h ! i) < length s \<and> (\<exists>u. reindex s ?I c ! slab_idx (h ! i) = HeapNode u i)"
      using lk that unfolding linked_def by (metis length_list_update length_reindex nth_list_update_neq)
    ultimately show ?thesis using old by simp
  qed
  have bwd: "i < length h \<and> i \<noteq> c \<and> slab_idx (h ! i) = j"
    if "j < length s" "j \<noteq> ?I" "s ! j = HeapNode u i" for j u i
  proof -
    have "reindex s ?I c ! j = HeapNode u i" using that old by simp
    then have "i < length h \<and> slab_idx (h[c := it] ! i) = j"
      using lk that(1) unfolding linked_def by auto
    then show ?thesis using that(2) it(1) by (cases "i = c") auto
  qed
  have "linked ?h ?s"
    unfolding linked_def
  proof (intro conjI allI impI)
    fix i assume i: "i < length ?h"
    consider "i = d" | "i = c" | "i \<noteq> c" "i \<noteq> d" by blast
    then have "slab_idx (?h ! i) < length s \<and> (\<exists>u. ?s ! slab_idx (?h ! i) = HeapNode u i)"
    proof cases
      case 3
      then have "?h ! i = h ! i" by simp
      then show ?thesis using 3 fwd [of i] i s by simp
    qed (use d it D ne s in simp_all)
    then show "slab_idx (?h ! i) < length ?s" "\<exists>u. ?s ! slab_idx (?h ! i) = HeapNode u i" by simp_all
  next
    fix j u i assume j: "j < length ?s" and n: "?s ! j = HeapNode u i"
    consider "j = ?I" | "j \<noteq> ?I" "j = ?D" | "j \<noteq> ?I" "j \<noteq> ?D" by blast
    then have "i < length h \<and> slab_idx (?h ! i) = j"
    proof cases
      case 3
      then have "s ! j = HeapNode u i" using n s by simp
      then have b: "i < length h" "i \<noteq> c" "slab_idx (h ! i) = j" using bwd [of j u i] j 3 by auto
      then have "i \<noteq> d" using 3 by auto
      then show ?thesis using b by simp
    qed (use n s d it in \<open>auto simp: nth_list_update\<close>)
    then show "i < length ?h" "slab_idx (?h ! i) = j" by auto
  qed
  then have "sifting it (h[c := h ! d]) ?s1 d"
    using d it s1 by (auto simp: sifting_def)
  moreover have "set_heap_index s ?D c = Some ?s1" using D by (rule set_heap_index_eq)
  ultimately show ?thesis by (blast intro: erase_reindex)
qed

lemma sift_up_loop_correct:
  assumes "sifting it h s c" "up_ok (map item_key (h[c := it])) c"
  shows "\<exists>h' s' c'. sift_up_loop it h s c = Some (h', s', c') \<and> sifting it h' s' c' \<and>
    heap_prop (map item_key (h'[c' := it])) \<and> mset (h'[c' := it]) = mset (h[c := it]) \<and>
    map erase s' = map erase s"
  using assms
proof (induction c arbitrary: h s rule: less_induct)
  case (less c)
  define p where "p = (c - 1) div 2"
  let ?ks = "map item_key (h[c := it])"
  have c: "c < length h" using less.prems by (simp add: sifting_def)
  note unfold = sift_up_loop.simps [of it h s c, folded p_def]
  show ?case
  proof (cases "c = 0 \<or> item_key (h ! p) \<le> item_key it")
    case True
    then have "c = 0 \<or> ?ks ! p \<le> ?ks ! c"
      using c by (auto simp: nth_list_update p_def)
    then have "heap_prop ?ks" using less.prems(2) up_ok_done unfolding p_def by blast
    moreover have "sift_up_loop it h s c = Some (h, s, c)"
      using True c unfolding unfold by (auto simp: vec_simps p_def)
    ultimately show ?thesis using less.prems(1) by blast
  next
    case False
    then have p: "p < c" "p < length h" "c \<noteq> 0" and lt: "\<not> item_key (h ! p) \<le> item_key it"
      using c by (auto simp: p_def)
    obtain s1 where s1: "set_heap_index s (slab_idx (h ! p)) c = Some s1"
        "sifting it (h[c := h ! p]) s1 p" "map erase s1 = map erase s"
      using sifting_move [OF less.prems(1), of p] p by auto
    have eq: "sift_up_loop it h s c = sift_up_loop it (h[c := h ! p]) s1 p"
      using p lt c s1(1) unfolding unfold by (simp add: vec_simps)
    have "up_ok (?ks[c := ?ks ! p, p := ?ks ! c]) p"
      unfolding p_def using p lt c by (intro up_ok_step less.prems(2)) (auto simp: p_def)
    moreover have "?ks[c := ?ks ! p, p := ?ks ! c] = map item_key (h[c := h ! p, p := it])"
      using p c by (simp add: map_update)
    ultimately show ?thesis
      using less.IH [OF p(1) s1(2)] s1(3) mset_swap_hole [of c h p it] p c by (simp add: eq)
  qed
qed

text \<open>Writing the item at the position where a loop stopped.\<close>

lemma sifting_place:
  assumes "sifting it h s c" "heap_prop (map item_key (h[c := it]))"
    "mset (h[c := it]) = mset ((ipq_heap q)[c0 := it])" "map erase s = map erase (ipq_slab q)"
  shows "\<exists>h' s'. vec_set h c it = Some h' \<and> set_heap_index s (slab_idx it) c = Some s' \<and>
    placed it c0 q (q\<lparr>ipq_heap := h', ipq_slab := s'\<rparr>)"
  using assms by (auto simp: sifting_def placed_def set_heap_index_eq erase_reindex)

lemma sift_up_correct:
  assumes "sifting it (ipq_heap q) (ipq_slab q) c" "up_ok (map item_key ((ipq_heap q)[c := it])) c"
  shows "\<exists>q'. sift_up it c q = Some q' \<and> placed it c q q'"
proof -
  obtain h s c' where l: "sift_up_loop it (ipq_heap q) (ipq_slab q) c = Some (h, s, c')"
      "sifting it h s c'" "heap_prop (map item_key (h[c' := it]))"
      "mset (h[c' := it]) = mset ((ipq_heap q)[c := it])" "map erase s = map erase (ipq_slab q)"
    using sift_up_loop_correct [OF assms] by blast
  then show ?thesis
    using sifting_place [OF l(2-5)] by (auto simp: sift_up_def vec_simps)
qed

lemma least_child_correct:
  assumes "c < length h" "c = 2 * p + 1"
  shows "\<exists>c1. least_child h c = Some c1 \<and> c \<le> c1 \<and> c1 < length h \<and> (c1 - 1) div 2 = p \<and>
    (\<forall>i < length h. 0 < i \<longrightarrow> (i - 1) div 2 = p \<longrightarrow> item_key (h ! c1) \<le> item_key (h ! i))"
proof -
  have ch: "i = c \<or> i = c + 1" if "0 < i" "(i - 1) div 2 = p" for i
    using that assms(2) by auto
  consider "c + 1 < length h" "item_key (h ! (c + 1)) < item_key (h ! c)"
    | "c + 1 < length h" "item_key (h ! c) \<le> item_key (h ! (c + 1))"
    | "\<not> c + 1 < length h" by fastforce
  then show ?thesis
  proof cases
    case 1
    then show ?thesis using assms
      by (intro exI [of _ "c + 1"]) (auto simp: least_child_def vec_simps dest!: ch)
  next
    case 2
    then show ?thesis using assms
      by (intro exI [of _ c]) (auto simp: least_child_def vec_simps dest!: ch)
  next
    case 3
    then show ?thesis using assms
      by (intro exI [of _ c]) (auto simp: least_child_def vec_get_def dest!: ch)
  qed
qed

lemma sift_down_loop_correct:
  assumes "sifting it h s p" "down_ok (map item_key (h[p := it])) p"
  shows "\<exists>h' s' p'. sift_down_loop it h s p (2 * p + 1) = Some (h', s', p') \<and> sifting it h' s' p' \<and>
    heap_prop (map item_key (h'[p' := it])) \<and> mset (h'[p' := it]) = mset (h[p := it]) \<and>
    map erase s' = map erase s"
  using assms
proof (induction "length h - p" arbitrary: h s p rule: less_induct)
  case (less h p s)
  let ?c = "2 * p + 1" and ?ks = "map item_key (h[p := it])"
  have p: "p < length h" using less.prems by (simp add: sifting_def)
  have stop: ?case
    if "\<And>i. i < length ?ks \<Longrightarrow> 0 < i \<Longrightarrow> (i - 1) div 2 = p \<Longrightarrow> ?ks ! p \<le> ?ks ! i"
      and "sift_down_loop it h s p ?c = Some (h, s, p)"
    using down_ok_done [OF less.prems(2) that(1)] less.prems(1) that(2) by auto
  have nth: "?ks ! i = item_key (h ! i)" if "i < length h" "i \<noteq> p" for i
    using that by simp
  show ?case
  proof (cases "?c < length h")
    case False
    then have "sift_down_loop it h s p ?c = Some (h, s, p)" by (subst sift_down_loop.simps) simp
    then show ?thesis using False by (intro stop) auto
  next
    case True
    obtain c where c: "least_child h ?c = Some c" "?c \<le> c" "c < length h" "(c - 1) div 2 = p"
      and least: "\<forall>i < length h. 0 < i \<longrightarrow> (i - 1) div 2 = p \<longrightarrow> item_key (h ! c) \<le> item_key (h ! i)"
      using least_child_correct [OF True] by auto
    show ?thesis
    proof (cases "item_key it \<le> item_key (h ! c)")
      case le: True
      show ?thesis
      proof (rule stop)
        fix i assume i: "i < length ?ks" "0 < i" "(i - 1) div 2 = p"
        then have "i \<noteq> p" by auto
        then show "?ks ! p \<le> ?ks ! i" using i least le p nth by force
      next
        show "sift_down_loop it h s p ?c = Some (h, s, p)"
          using True c le by (subst sift_down_loop.simps) (simp add: vec_simps)
      qed
    next
      case gt: False
      obtain s1 where s1: "set_heap_index s (slab_idx (h ! c)) p = Some s1"
          "sifting it (h[p := h ! c]) s1 c" "map erase s1 = map erase s"
        using sifting_move [OF less.prems(1), of c] c by auto
      have eq: "sift_down_loop it h s p ?c = sift_down_loop it (h[p := h ! c]) s1 c (2 * c + 1)"
        using True gt c p s1(1) by (subst sift_down_loop.simps) (simp add: vec_simps)
      have "down_ok (?ks[p := ?ks ! c, c := ?ks ! p]) c"
      proof (rule down_ok_step [OF less.prems(2)])
        show "0 < c" "c < length ?ks" "(c - 1) div 2 = p" "?ks ! c < ?ks ! p"
          using c gt p by auto
        fix i assume i: "i < length ?ks" "0 < i" "(i - 1) div 2 = p"
        then have "i \<noteq> p" by auto
        then show "?ks ! c \<le> ?ks ! i" using i least c nth by force
      qed
      moreover have "?ks[p := ?ks ! c, c := ?ks ! p] = map item_key (h[p := h ! c, c := it])"
        using p c by (simp add: map_update)
      ultimately have down: "down_ok (map item_key (h[p := h ! c, c := it])) c" by simp
      have "p < c" using c(2) by simp
      then have "length (h[p := h ! c]) - c < length h - p" using c(3) by simp
      from less.hyps [OF this s1(2) down] show ?thesis
        using s1(3) mset_swap_hole [OF p c(3), of it] by (simp only: eq)
    qed
  qed
qed

lemma sift_down_correct:
  assumes "sifting it (ipq_heap q) (ipq_slab q) p" "down_ok (map item_key ((ipq_heap q)[p := it])) p"
  shows "\<exists>q'. sift_down it p q = Some q' \<and> placed it p q q'"
proof -
  obtain h s c' where l: "sift_down_loop it (ipq_heap q) (ipq_slab q) p (2 * p + 1) = Some (h, s, c')"
      "sifting it h s c'" "heap_prop (map item_key (h[c' := it]))"
      "mset (h[c' := it]) = mset ((ipq_heap q)[p := it])" "map erase s = map erase (ipq_slab q)"
    using sift_down_loop_correct [OF assms] by blast
  then show ?thesis
    using sifting_place [OF l(2-5)] by (auto simp: sift_down_def vec_simps)
qed

end
