(* ===== verification/Ipq_Contract.thy ===== *)
theory Ipq_Contract
  imports Indexed_Priority_Queue
begin

text \<open>
  The operations of the indexed priority queue keep its invariant, never panic before the
  epochs are used up, and implement two abstract views of the queue: the list of entries
  in pull order (the contract of \<open>Pq_Spec\<close>) and the finite map from insertion keys to
  entries, which \<open>insert\<close> extends with a fresh key and \<open>extract\<close> looks up and deletes.
\<close>

section \<open>Free nodes\<close>

lemma free_chain_cong:
  assumes "\<And>j. j \<in> set js \<Longrightarrow> j < length s \<Longrightarrow> j < length s' \<and> s' ! j = s ! j"
  shows "free_chain s first js \<Longrightarrow> free_chain s' first js"
  using assms by (induction js arbitrary: first) auto

lemma free_chain_free: "free_chain s first js \<Longrightarrow> j \<in> set js \<Longrightarrow> j < length s \<and> (\<exists>nx. s ! j = FreeNode nx)"
  by (induction js arbitrary: first) auto

lemma erase_FreeNode [simp]: "erase n = FreeNode nx \<longleftrightarrow> n = FreeNode nx"
  by (cases n) auto

lemma node_value_erase: "erase n = erase n' \<Longrightarrow> node_value n = node_value n'"
  by (cases n; cases n') auto

lemma erase_eqD:
  assumes "map erase s' = map erase s"
  shows "length s' = length s" "j < length s \<Longrightarrow> erase (s' ! j) = erase (s ! j)"
proof -
  show len: "length s' = length s" using assms by (rule map_eq_imp_length_eq)
  show "j < length s \<Longrightarrow> erase (s' ! j) = erase (s ! j)"
    using arg_cong [OF assms, of "\<lambda>l. l ! j"] len by simp
qed

lemma free_chain_erase:
  assumes "map erase s' = map erase s"
  shows "free_chain s' first js = free_chain s first js"
proof -
  have "s' ! j = FreeNode nx \<longleftrightarrow> s ! j = FreeNode nx" if "j < length s" for j nx
    using erase_eqD [OF assms] that by (metis erase_FreeNode)
  then show ?thesis using erase_eqD(1) [OF assms] by (induction js arbitrary: first) auto
qed

lemma free_ok_erase:
  assumes "map erase s' = map erase s" "free_ok s first"
  shows "free_ok s' first"
proof -
  have "s' ! j = FreeNode nx \<longleftrightarrow> s ! j = FreeNode nx" if "j < length s" for j nx
    using erase_eqD [OF assms(1)] that by (metis erase_FreeNode)
  then show ?thesis
    using assms(2) free_chain_erase [OF assms(1)] erase_eqD(1) [OF assms(1)]
    unfolding free_ok_def by simp
qed

lemma free_ok_free:
  assumes "free_ok s first" "idx < length s" "s ! idx = HeapNode v i"
  shows "free_ok (s[idx := FreeNode first]) (Some idx)"
proof -
  obtain js where js: "distinct js" "free_chain s first js"
      "\<forall>j < length s. (\<exists>nx. s ! j = FreeNode nx) \<longrightarrow> j \<in> set js"
    using assms(1) by (auto simp: free_ok_def)
  have "idx \<notin> set js" using free_chain_free [OF js(2), of idx] assms(3) by force
  moreover from this have "free_chain (s[idx := FreeNode first]) first js"
    by (intro free_chain_cong [OF _ js(2)]) (metis length_list_update nth_list_update_neq)
  ultimately show ?thesis
    using js assms(2) unfolding free_ok_def
    by (intro exI [of _ "idx # js"]) (auto simp: nth_list_update split: if_splits)
qed

lemma alloc_node_correct:
  assumes "free_ok (ipq_slab q) (first_free_node q)"
  shows "\<exists>s first idx. alloc_node v q = Some (q\<lparr>ipq_slab := s, first_free_node := first\<rparr>, idx) \<and>
    idx < length s \<and> s ! idx = HeapNode v 0 \<and> free_ok s first \<and>
    (\<forall>j < length s. j \<noteq> idx \<longrightarrow> j < length (ipq_slab q) \<and> s ! j = ipq_slab q ! j) \<and>
    length (ipq_slab q) \<le> length s \<and>
    (idx < length (ipq_slab q) \<longrightarrow> (\<exists>nx. ipq_slab q ! idx = FreeNode nx))"
proof (cases "first_free_node q")
  case None
  let ?s = "ipq_slab q @ [HeapNode v 0]"
  obtain js where "free_chain (ipq_slab q) None js"
      "\<forall>j < length (ipq_slab q). (\<exists>nx. ipq_slab q ! j = FreeNode nx) \<longrightarrow> j \<in> set js"
    using assms None by (auto simp: free_ok_def)
  then have "\<forall>j < length (ipq_slab q). \<nexists>nx. ipq_slab q ! j = FreeNode nx"
    by (cases js) auto
  then have "free_ok ?s None"
    by (auto simp: free_ok_def nth_append less_Suc_eq intro!: exI [of _ "[]"])
  then show ?thesis using None
    by (intro exI [of _ ?s] exI [of _ None] exI [of _ "length (ipq_slab q)"])
       (auto simp: alloc_node_def nth_append)
next
  case (Some idx)
  obtain js where js: "distinct js" "free_chain (ipq_slab q) (Some idx) js"
      "\<forall>j < length (ipq_slab q). (\<exists>nx. ipq_slab q ! j = FreeNode nx) \<longrightarrow> j \<in> set js"
    using assms Some by (auto simp: free_ok_def)
  then obtain js' nx where js': "js = idx # js'" "idx < length (ipq_slab q)"
      "ipq_slab q ! idx = FreeNode nx" "free_chain (ipq_slab q) nx js'"
    by (cases js) auto
  let ?s = "(ipq_slab q)[idx := HeapNode v 0]"
  have "free_chain ?s nx js'"
    using js(1) js'(1) by (intro free_chain_cong [OF _ js'(4)]) (metis distinct.simps(2) length_list_update nth_list_update_neq)
  then have "free_ok ?s nx"
    using js js' unfolding free_ok_def
    by (intro exI [of _ js']) (auto simp: nth_list_update split: if_splits)
  then show ?thesis using Some js'
    by (intro exI [of _ ?s] exI [of _ nx] exI [of _ idx]) (auto simp: alloc_node_def vec_simps)
qed

section \<open>Live entries\<close>

lemma mset_triples:
  "mset (ipq_triples q) =
     image_mset (\<lambda>it. (item_key it, slab_idx it, node_value (ipq_slab q ! slab_idx it))) (mset (ipq_heap q))"
  by (simp add: ipq_triples_def)

lemma triple_rank_inj: "ipq_inv q \<Longrightarrow> inj_on triple_rank (set (ipq_triples q))"
proof (rule inj_onI)
  fix a b assume inv: "ipq_inv q" and ab: "a \<in> set (ipq_triples q)" "b \<in> set (ipq_triples q)"
    and eq: "triple_rank a = triple_rank b"
  from ab obtain x y where x: "x \<in> set (ipq_heap q)" "a = (item_key x, slab_idx x, node_value (ipq_slab q ! slab_idx x))"
    and y: "y \<in> set (ipq_heap q)" "b = (item_key y, slab_idx y, node_value (ipq_slab q ! slab_idx y))"
    by (auto simp: ipq_triples_def)
  then have "(uk_epoch \<circ> item_key) x = (uk_epoch \<circ> item_key) y" using eq by simp
  then have "x = y" using inv x(1) y(1) unfolding ipq_inv_def distinct_map by (blast dest: inj_onD)
  then show "a = b" using x y by simp
qed

lemma triple_ik_distinct: "ipq_inv q \<Longrightarrow> distinct (map triple_ik (ipq_triples q))"
proof -
  assume inv: "ipq_inv q"
  have "distinct (map ik_epoch (map triple_ik (ipq_triples q)))"
    using inv by (simp add: ipq_inv_def ipq_triples_def o_def)
  then show ?thesis by (rule distinct_map [THEN iffD1, THEN conjunct1])
qed

lemma ipq_lookup_Some_iff:
  assumes "ipq_inv q"
  shows "ipq_lookup q ik = Some e \<longleftrightarrow> (\<exists>t \<in> set (ipq_triples q). triple_ik t = ik \<and> triple_pair t = e)"
  using map_of_eq_Some_iff [of "map (\<lambda>t. (triple_ik t, triple_pair t)) (ipq_triples q)" ik e]
    triple_ik_distinct [OF assms] by (auto simp: ipq_lookup_def o_def)

lemma ipq_lookup_add:
  assumes "ipq_inv q" "ipq_inv q'" "mset (ipq_triples q') = add_mset t (mset (ipq_triples q))"
  shows "ipq_lookup q' = (ipq_lookup q)(triple_ik t \<mapsto> triple_pair t)"
    and "ipq_lookup q (triple_ik t) = None"
proof -
  let ?f = "\<lambda>t. (triple_ik t, triple_pair t)"
  have set: "set (ipq_triples q') = insert t (set (ipq_triples q))"
    using arg_cong [OF assms(3), of set_mset] by simp
  have "mset (map triple_ik (ipq_triples q')) = mset (map triple_ik (t # ipq_triples q))"
    using arg_cong [OF assms(3), of "image_mset triple_ik"] by simp
  then have d: "distinct (map triple_ik (t # ipq_triples q))"
    using triple_ik_distinct [OF assms(2)] mset_eq_imp_distinct_iff by blast
  have "map_of (map ?f (ipq_triples q')) = map_of (map ?f (t # ipq_triples q))"
    using d triple_ik_distinct [OF assms(2)] set
    by (subst map_of_inject_set) (auto simp: o_def)
  then show "ipq_lookup q' = (ipq_lookup q)(triple_ik t \<mapsto> triple_pair t)"
    by (simp add: ipq_lookup_def)
  show "ipq_lookup q (triple_ik t) = None"
    using d by (auto simp: ipq_lookup_def map_of_eq_None_iff image_iff)
qed

section \<open>Insertion\<close>

lemma ipq_insert_correct:
  assumes inv: "ipq_inv q" and room: "next_epoch q < u64_max"
  shows "\<exists>q' idx. ipq_insert k v q = Some (q', \<lparr>ik_slab_idx = idx, ik_epoch = next_epoch q\<rparr>) \<and>
    ipq_inv q' \<and> next_epoch q' = Suc (next_epoch q) \<and>
    mset (ipq_triples q') = add_mset (UniqueKey k (next_epoch q), idx, v) (mset (ipq_triples q))"
proof -
  let ?e = "next_epoch q" and ?h = "ipq_heap q"
  obtain s first idx where al:
      "alloc_node v (q\<lparr>next_epoch := Suc ?e\<rparr>)
         = Some (q\<lparr>next_epoch := Suc ?e, ipq_slab := s, first_free_node := first\<rparr>, idx)"
    and s: "idx < length s" "s ! idx = HeapNode v 0" "free_ok s first"
      "\<forall>j < length s. j \<noteq> idx \<longrightarrow> j < length (ipq_slab q) \<and> s ! j = ipq_slab q ! j"
      "length (ipq_slab q) \<le> length s"
      "idx < length (ipq_slab q) \<longrightarrow> (\<exists>nx. ipq_slab q ! idx = FreeNode nx)"
    using alloc_node_correct [of "q\<lparr>next_epoch := Suc ?e\<rparr>" v] inv by (auto simp: ipq_inv_def)
  let ?it = "\<lparr>item_key = UniqueKey k ?e, slab_idx = idx\<rparr>"
  let ?ph = "\<lparr>item_key = UniqueKey k ?e, slab_idx = 0\<rparr>"
  let ?q2 = "q\<lparr>next_epoch := Suc ?e, ipq_slab := s, first_free_node := first, ipq_heap := ?h @ [?ph]\<rparr>"
  have lk: "linked ?h (ipq_slab q)" using inv by (simp add: ipq_inv_def)
  have old: "slab_idx (?h ! i) < length (ipq_slab q) \<and> (\<exists>u. ipq_slab q ! slab_idx (?h ! i) = HeapNode u i)
      \<and> slab_idx (?h ! i) \<noteq> idx" if "i < length ?h" for i
  proof -
    have "slab_idx (?h ! i) < length (ipq_slab q) \<and> (\<exists>u. ipq_slab q ! slab_idx (?h ! i) = HeapNode u i)"
      using lk that unfolding linked_def by blast
    then show ?thesis using s(6) by force
  qed
  have s': "reindex s idx (length ?h) ! j = (if j = idx then HeapNode v (length ?h) else s ! j)" for j
    using s by (simp add: nth_reindex)
  have "linked (?h @ [?it]) (reindex s idx (length ?h))"
    unfolding linked_def
  proof (intro conjI allI impI)
    fix i assume i: "i < length (?h @ [?it])"
    then have "slab_idx ((?h @ [?it]) ! i) < length s
      \<and> (\<exists>u. reindex s idx (length ?h) ! slab_idx ((?h @ [?it]) ! i) = HeapNode u i)"
    proof (cases "i < length ?h")
      case True
      then show ?thesis using old [of i] s(4,5) s' by (auto simp: nth_append)
    next
      case False
      then have "i = length ?h" using i by simp
      then show ?thesis using s(1) s' by simp
    qed
    then show "slab_idx ((?h @ [?it]) ! i) < length (reindex s idx (length ?h))"
      "\<exists>u. reindex s idx (length ?h) ! slab_idx ((?h @ [?it]) ! i) = HeapNode u i" by auto
  next
    fix j u i assume "j < length (reindex s idx (length ?h))" "reindex s idx (length ?h) ! j = HeapNode u i"
    then have j: "j < length s" "(if j = idx then HeapNode v (length ?h) else s ! j) = HeapNode u i"
      using s' by auto
    have "i < length (?h @ [?it]) \<and> slab_idx ((?h @ [?it]) ! i) = j"
    proof (cases "j = idx")
      case False
      then have "i < length ?h" "slab_idx (?h ! i) = j" using j s(4) lk unfolding linked_def by auto
      then show ?thesis by (simp add: nth_append)
    qed (use j in auto)
    then show "i < length (?h @ [?it])" "slab_idx ((?h @ [?it]) ! i) = j" by auto
  qed
  then have "sifting ?it (ipq_heap ?q2) (ipq_slab ?q2) (length ?h)"
    using s by (auto simp: sifting_def)
  moreover have "up_ok (map item_key ((ipq_heap ?q2)[length ?h := ?it])) (length ?h)"
    using heap_prop_snoc_up [of "map item_key ?h" "item_key ?it"] inv by (simp add: ipq_inv_def)
  ultimately obtain q' where q': "sift_up ?it (length ?h) ?q2 = Some q'" "placed ?it (length ?h) ?q2 q'"
    using sift_up_correct by blast
  have ins: "ipq_insert k v q = Some (q', \<lparr>ik_slab_idx = idx, ik_epoch = ?e\<rparr>)"
    using room al q'(1) by (simp add: ipq_insert_def)
  have heap: "mset (ipq_heap q') = add_mset ?it (mset ?h)"
    and er: "map erase (ipq_slab q') = map erase s" and e': "next_epoch q' = Suc ?e"
    using q'(2) by (auto simp: placed_def)
  have "distinct (map (uk_epoch \<circ> item_key) (ipq_heap q'))"
  proof -
    have "mset (map (uk_epoch \<circ> item_key) (ipq_heap q')) = mset (map (uk_epoch \<circ> item_key) (?it # ?h))"
      using heap by simp
    moreover have "distinct (map (uk_epoch \<circ> item_key) (?it # ?h))"
      using inv by (auto simp: ipq_inv_def)
    ultimately show ?thesis using mset_eq_imp_distinct_iff by blast
  qed
  moreover have "set (ipq_heap q') = insert ?it (set ?h)"
    using arg_cong [OF heap, of set_mset] by simp
  ultimately have inv': "ipq_inv q'"
    using q'(2) inv room e' free_ok_erase [OF er s(3)] unfolding ipq_inv_def placed_def
    by (simp add: less_Suc_eq)
  have val: "node_value (ipq_slab q' ! j) = node_value (s ! j)" if "j < length s" for j
    using erase_eqD [OF er] that node_value_erase by blast
  have "node_value (ipq_slab q' ! slab_idx it) = node_value (ipq_slab q ! slab_idx it)"
    if "it \<in> set ?h" for it
  proof -
    obtain i where "i < length ?h" "it = ?h ! i" using \<open>it \<in> set ?h\<close> by (auto simp: in_set_conv_nth)
    then have "slab_idx it < length s" "s ! slab_idx it = ipq_slab q ! slab_idx it"
      using old [of i] s(4,5) by auto
    then show ?thesis using val by simp
  qed
  then have "mset (ipq_triples q') = add_mset (UniqueKey k ?e, idx, v) (mset (ipq_triples q))"
    unfolding mset_triples heap using val [of idx] s(1,2) by (auto intro: image_mset_cong)
  then show ?thesis using ins inv' e' by blast
qed

section \<open>Removal\<close>

text \<open>
  \<open>pull\<close> and \<open>extract\<close> free the node of the item at some heap position \<open>i\<close>, pop the last
  item of the heap and, unless it is the one being removed, sift it from \<open>i\<close>.
\<close>

abbreviation unlinked :: "nat \<Rightarrow> ('k, 'v) ipq \<Rightarrow> ('k, 'v) ipq" where
  "unlinked i q \<equiv>
     q\<lparr>ipq_heap := butlast (ipq_heap q),
       ipq_slab := (ipq_slab q)[slab_idx (ipq_heap q ! i) := FreeNode (first_free_node q)],
       first_free_node := Some (slab_idx (ipq_heap q ! i))\<rparr>"

lemma linkedD:
  assumes "linked h s" "i < length h"
  shows "slab_idx (h ! i) < length s" "\<exists>v. s ! slab_idx (h ! i) = HeapNode v i"
    "l < length h \<Longrightarrow> l \<noteq> i \<Longrightarrow> slab_idx (h ! l) \<noteq> slab_idx (h ! i)"
  using assms linked_slab_inj [OF assms(1), of l i] unfolding linked_def by auto

lemma linked_backD:
  "linked h s \<Longrightarrow> j < length s \<Longrightarrow> s ! j = HeapNode v i \<Longrightarrow> i < length h \<and> slab_idx (h ! i) = j"
  unfolding linked_def by blast

lemma nth_freed:
  "s[a := FreeNode nx] ! j = HeapNode v i \<Longrightarrow> j < length s \<Longrightarrow> j \<noteq> a \<and> s ! j = HeapNode v i"
  by (cases "j = a") auto

lemma ipq_inv_linked: "ipq_inv q \<Longrightarrow> linked (ipq_heap q) (ipq_slab q)"
  by (simp add: ipq_inv_def)

lemma unlinked_last:
  assumes lk: "linked h s" and h: "h \<noteq> []"
  shows "linked (butlast h) (s[slab_idx (last h) := FreeNode nx])"
proof -
  let ?n = "length h - 1"
  have last: "last h = h ! ?n" "?n < length h" using h by (auto simp: last_conv_nth)
  note D = linkedD [OF lk]
  show ?thesis
    unfolding linked_def
  proof (intro conjI allI impI)
    fix i assume "i < length (butlast h)"
    then have i: "i < length h" "i \<noteq> ?n" "butlast h ! i = h ! i" by (auto simp: nth_butlast)
    then show "slab_idx (butlast h ! i) < length (s[slab_idx (last h) := FreeNode nx])"
      "\<exists>v. s[slab_idx (last h) := FreeNode nx] ! slab_idx (butlast h ! i) = HeapNode v i"
      using D(1,2) [OF i(1)] D(3) [OF last(2) i(1,2)] last(1) by auto
  next
    fix j v i
    assume "j < length (s[slab_idx (last h) := FreeNode nx])"
      "s[slab_idx (last h) := FreeNode nx] ! j = HeapNode v i"
    then have j: "j < length s" "j \<noteq> slab_idx (last h)" "s ! j = HeapNode v i"
      by (auto dest: nth_freed)
    then have "i < length h" "slab_idx (h ! i) = j" using linked_backD [OF lk] by auto
    moreover from this have "i \<noteq> ?n" using j last by auto
    ultimately show "i < length (butlast h)" "slab_idx (butlast h ! i) = j"
      by (auto simp: nth_butlast)
  qed
qed

lemma unlinked_inner:
  assumes lk: "linked h s" and i: "i < length h - 1"
  shows "sifting (last h) (butlast h) (s[slab_idx (h ! i) := FreeNode nx]) i"
proof -
  let ?n = "length h - 1" and ?I = "slab_idx (h ! i)" and ?L = "slab_idx (last h)"
  have last: "last h = h ! ?n" "?n < length h" and i': "i < length h" "i \<noteq> ?n"
    using i by (cases h; auto simp: last_conv_nth)+
  note D = linkedD [OF lk]
  have ne: "?L \<noteq> ?I" using D(3) [OF i'(1) last(2)] i' last(1) by auto
  obtain w where L: "?L < length s" "s ! ?L = HeapNode w ?n" using D(1,2) [OF last(2)] last(1) by auto
  let ?s1 = "s[?I := FreeNode nx]"
  have s1L: "?L < length ?s1" "?s1 ! ?L = HeapNode w ?n" using L ne by auto
  have s: "reindex ?s1 ?L i ! j = (if j = ?L then HeapNode w i else ?s1 ! j)" for j
    using s1L by (simp add: nth_reindex)
  have "linked ((butlast h)[i := last h]) (reindex ?s1 ?L i)"
    unfolding linked_def
  proof (intro conjI allI impI)
    fix l assume l: "l < length ((butlast h)[i := last h])"
    have "slab_idx ((butlast h)[i := last h] ! l) < length s \<and>
      (\<exists>v. reindex ?s1 ?L i ! slab_idx ((butlast h)[i := last h] ! l) = HeapNode v l)"
    proof (cases "l = i")
      case True
      then show ?thesis using L s i by simp
    next
      case False
      then have l': "l < length h" "l \<noteq> ?n" "(butlast h)[i := last h] ! l = h ! l"
        using l by (auto simp: nth_butlast)
      then show ?thesis
        using D(1,2) [OF l'(1)] D(3) [OF i'(1) l'(1) False] D(3) [OF last(2) l'(1,2)] s last(1) by auto
    qed
    then show "slab_idx ((butlast h)[i := last h] ! l) < length (reindex ?s1 ?L i)"
      "\<exists>v. reindex ?s1 ?L i ! slab_idx ((butlast h)[i := last h] ! l) = HeapNode v l" by auto
  next
    fix j v l assume j: "j < length (reindex ?s1 ?L i)" "reindex ?s1 ?L i ! j = HeapNode v l"
    have "l < ?n \<and> slab_idx ((butlast h)[i := last h] ! l) = j"
    proof (cases "j = ?L")
      case True
      then show ?thesis using j s i by simp
    next
      case False
      then have j': "j < length s" "j \<noteq> ?I" "s ! j = HeapNode v l"
        using j s by (auto dest: nth_freed)
      then have b: "l < length h" "slab_idx (h ! l) = j" using linked_backD [OF lk] by auto
      then have "l \<noteq> i" "l \<noteq> ?n" using j' False last(1) by auto
      then show ?thesis using b by (auto simp: nth_butlast)
    qed
    then show "l < length ((butlast h)[i := last h])" "slab_idx ((butlast h)[i := last h] ! l) = j"
      by auto
  qed
  then show ?thesis using s1L i by (auto simp: sifting_def)
qed

lemma mset_replace_last:
  assumes "i < length xs - 1"
  shows "add_mset (xs ! i) (mset ((butlast xs)[i := last xs])) = mset xs"
proof -
  have ne: "xs \<noteq> []" and i: "i < length (butlast xs)" using assms by auto
  then have "mset ((butlast xs)[i := last xs]) = add_mset (last xs) (mset (butlast xs) - {#xs ! i#})"
    using assms by (simp add: mset_update nth_butlast)
  moreover have "xs ! i \<in># mset (butlast xs)"
    using nth_mem [OF i] assms by (simp add: nth_butlast)
  moreover have "mset xs = add_mset (last xs) (mset (butlast xs))"
    using ne by (metis add_mset_add_single append_butlast_last_id mset_append mset_single_iff_right)
  ultimately show ?thesis by (simp add: add_mset_commute)
qed

text \<open>What remains once the item at \<open>i\<close> is gone.\<close>

lemma removed_inv:
  assumes inv: "ipq_inv q" and i: "i < length (ipq_heap q)"
    and lk: "linked (ipq_heap q') (ipq_slab q')" and hp: "heap_prop (map item_key (ipq_heap q'))"
    and ms: "add_mset (ipq_heap q ! i) (mset (ipq_heap q')) = mset (ipq_heap q)"
    and er: "map erase (ipq_slab q') = map erase (ipq_slab (unlinked i q))"
    and fr: "first_free_node q' = first_free_node (unlinked i q)" "next_epoch q' = next_epoch q"
  shows "ipq_inv q' \<and> mset (ipq_triples q) = add_mset (ipq_triples q ! i) (mset (ipq_triples q'))"
proof -
  let ?x = "ipq_heap q ! i"
  let ?s1 = "ipq_slab (unlinked i q)"
  have lq: "linked (ipq_heap q) (ipq_slab q)" and fq: "free_ok (ipq_slab q) (first_free_node q)"
    using inv by (auto simp: ipq_inv_def)
  obtain v where x: "slab_idx ?x < length (ipq_slab q)" "ipq_slab q ! slab_idx ?x = HeapNode v i"
    using linkedD [OF lq i] by auto
  have "free_ok ?s1 (Some (slab_idx ?x))" using free_ok_free [OF fq x] by simp
  then have free: "free_ok (ipq_slab q') (first_free_node q')" using free_ok_erase [OF er] fr by simp
  have "mset (map (uk_epoch \<circ> item_key) (ipq_heap q)) = mset (map (uk_epoch \<circ> item_key) (?x # ipq_heap q'))"
    by (simp flip: ms)
  then have d: "distinct (map (uk_epoch \<circ> item_key) (?x # ipq_heap q'))"
    using inv mset_eq_imp_distinct_iff unfolding ipq_inv_def by blast
  have st: "set (ipq_heap q) = insert ?x (set (ipq_heap q'))"
    using arg_cong [OF ms, of set_mset] by simp
  have inv': "ipq_inv q'" using inv d st free lk hp fr by (auto simp: ipq_inv_def)
  have "node_value (ipq_slab q' ! slab_idx it) = node_value (ipq_slab q ! slab_idx it)"
    if it: "it \<in> set (ipq_heap q')" for it
  proof -
    have "it \<noteq> ?x" using d it by auto
    moreover have "it \<in> set (ipq_heap q)" using st it by simp
    ultimately obtain l where l: "l < length (ipq_heap q)" "l \<noteq> i" "it = ipq_heap q ! l"
      by (auto simp: in_set_conv_nth)
    have "slab_idx it \<noteq> slab_idx ?x" "slab_idx it < length (ipq_slab q)"
      using linkedD(3) [OF lq i l(1,2)] linkedD(1) [OF lq l(1)] l(3) by auto
    then show ?thesis using node_value_erase [OF erase_eqD(2) [OF er, of "slab_idx it"]] by simp
  qed
  then have "image_mset (\<lambda>it. (item_key it, slab_idx it, node_value (ipq_slab q' ! slab_idx it))) (mset (ipq_heap q'))
      = image_mset (\<lambda>it. (item_key it, slab_idx it, node_value (ipq_slab q ! slab_idx it))) (mset (ipq_heap q'))"
    by (intro image_mset_cong) auto
  then have "mset (ipq_triples q) = add_mset (ipq_triples q ! i) (mset (ipq_triples q'))"
    unfolding mset_triples [of q'] mset_triples [of q] ms [symmetric] using i by (simp add: ipq_triples_def)
  then show ?thesis using inv' by simp
qed

text \<open>The three ways a removal ends.\<close>

lemma removed_last:
  assumes inv: "ipq_inv q" and i: "i < length (ipq_heap q)" and l: "i = length (ipq_heap q) - 1"
  shows "ipq_inv (unlinked i q) \<and>
    mset (ipq_triples q) = add_mset (ipq_triples q ! i) (mset (ipq_triples (unlinked i q)))"
proof (rule removed_inv [OF inv i])
  have ne: "ipq_heap q \<noteq> []" using i by auto
  then have last: "last (ipq_heap q) = ipq_heap q ! i" using l by (simp add: last_conv_nth)
  show "linked (ipq_heap (unlinked i q)) (ipq_slab (unlinked i q))"
    using unlinked_last [OF ipq_inv_linked [OF inv] ne] last by simp
  show "heap_prop (map item_key (ipq_heap (unlinked i q)))"
    using heap_prop_butlast [of "map item_key (ipq_heap q)"] inv by (simp add: ipq_inv_def map_butlast)
  show "add_mset (ipq_heap q ! i) (mset (ipq_heap (unlinked i q))) = mset (ipq_heap q)"
    using arg_cong [OF append_butlast_last_id [OF ne], of mset] last by simp
qed simp_all

lemma placed_removed:
  assumes inv: "ipq_inv q" and i: "i < length (ipq_heap q) - 1"
    and pl: "placed (last (ipq_heap q)) i (unlinked i q) q'"
  shows "ipq_inv q' \<and> mset (ipq_triples q) = add_mset (ipq_triples q ! i) (mset (ipq_triples q'))"
  by (rule removed_inv [OF inv]) (use i pl mset_replace_last [OF i] in \<open>auto simp: placed_def\<close>)

lemma inner_order:
  assumes "ipq_inv q" "i < length (ipq_heap q) - 1"
  shows "heap_prop (map item_key (butlast (ipq_heap q)))"
    "item_key k < item_key (ipq_heap q ! i) \<Longrightarrow> up_ok (map item_key ((butlast (ipq_heap q))[i := k])) i"
    "item_key (ipq_heap q ! i) \<le> item_key k \<Longrightarrow> down_ok (map item_key ((butlast (ipq_heap q))[i := k])) i"
proof -
  let ?b = "butlast (ipq_heap q)"
  show hp: "heap_prop (map item_key ?b)"
    using assms heap_prop_butlast [of "map item_key (ipq_heap q)"] by (simp add: ipq_inv_def map_butlast)
  have i: "i < length (map item_key ?b)" "map item_key ?b ! i = item_key (ipq_heap q ! i)"
    using assms(2) by (auto simp: nth_butlast)
  show "item_key k < item_key (ipq_heap q ! i) \<Longrightarrow> up_ok (map item_key (?b[i := k])) i"
    using heap_prop_replace_up [OF hp i(1)] i by (simp add: map_update)
  show "item_key (ipq_heap q ! i) \<le> item_key k \<Longrightarrow> down_ok (map item_key (?b[i := k])) i"
    using heap_prop_replace_down [OF hp i(1)] i by (simp add: map_update)
qed

lemma removed_up:
  assumes "ipq_inv q" "i < length (ipq_heap q) - 1"
    "item_key (last (ipq_heap q)) < item_key (ipq_heap q ! i)"
  shows "\<exists>q'. sift_up (last (ipq_heap q)) i (unlinked i q) = Some q' \<and> ipq_inv q' \<and>
    mset (ipq_triples q) = add_mset (ipq_triples q ! i) (mset (ipq_triples q'))"
proof -
  have "sifting (last (ipq_heap q)) (ipq_heap (unlinked i q)) (ipq_slab (unlinked i q)) i"
    using unlinked_inner [OF ipq_inv_linked [OF assms(1)] assms(2)] by simp
  then obtain q' where "sift_up (last (ipq_heap q)) i (unlinked i q) = Some q'"
      "placed (last (ipq_heap q)) i (unlinked i q) q'"
    using sift_up_correct [of _ "unlinked i q" i] inner_order(2) [OF assms(1,2,3)] by auto
  then show ?thesis using placed_removed [OF assms(1,2)] by blast
qed

lemma removed_down:
  assumes "ipq_inv q" "i < length (ipq_heap q) - 1"
    "item_key (ipq_heap q ! i) \<le> item_key (last (ipq_heap q))"
  shows "\<exists>q'. sift_down (last (ipq_heap q)) i (unlinked i q) = Some q' \<and> ipq_inv q' \<and>
    mset (ipq_triples q) = add_mset (ipq_triples q ! i) (mset (ipq_triples q'))"
proof -
  have "sifting (last (ipq_heap q)) (ipq_heap (unlinked i q)) (ipq_slab (unlinked i q)) i"
    using unlinked_inner [OF ipq_inv_linked [OF assms(1)] assms(2)] by simp
  then obtain q' where "sift_down (last (ipq_heap q)) i (unlinked i q) = Some q'"
      "placed (last (ipq_heap q)) i (unlinked i q) q'"
    using sift_down_correct [of _ "unlinked i q" i] inner_order(3) [OF assms(1,2,3)] by auto
  then show ?thesis using placed_removed [OF assms(1,2)] by blast
qed

section \<open>Pulling and extracting\<close>

lemma ipq_triples_nth:
  "i < length (ipq_heap q) \<Longrightarrow> ipq_triples q ! i =
     (item_key (ipq_heap q ! i), slab_idx (ipq_heap q ! i), node_value (ipq_slab q ! slab_idx (ipq_heap q ! i)))"
  by (simp add: ipq_triples_def)

lemma length_ipq_triples [simp]: "length (ipq_triples q) = length (ipq_heap q)"
  by (simp add: ipq_triples_def)

lemma ipq_root_least:
  assumes "ipq_inv q" "i < length (ipq_heap q)"
  shows "item_key (ipq_heap q ! 0) \<le> item_key (ipq_heap q ! i)"
proof -
  have "0 < length (ipq_heap q)" using assms(2) by linarith
  then show ?thesis
    using heap_prop_root [of "map item_key (ipq_heap q)" i] assms by (simp add: ipq_inv_def)
qed

lemma ipq_triples_root:
  assumes "ipq_inv q" "t \<in> set (ipq_triples q)"
  shows "triple_rank (ipq_triples q ! 0) \<le> triple_rank t"
proof -
  obtain i where i: "i < length (ipq_heap q)" "t = ipq_triples q ! i"
    using assms(2) by (auto simp: in_set_conv_nth)
  moreover have "0 < length (ipq_heap q)" using i by linarith
  ultimately show ?thesis
    using ipq_root_least [OF assms(1) i(1)] by (simp add: ipq_triples_nth less_eq_unique_key_def)
qed

lemma ipq_pull_correct:
  assumes inv: "ipq_inv q" and ne: "ipq_heap q \<noteq> []"
  shows "\<exists>q'. ipq_pull q = Some (q', Some (triple_pair (ipq_triples q ! 0))) \<and> ipq_inv q' \<and>
    next_epoch q' = next_epoch q \<and>
    mset (ipq_triples q) = add_mset (ipq_triples q ! 0) (mset (ipq_triples q'))"
proof -
  let ?h = "ipq_heap q"
  have l: "0 < length ?h" using ne by simp
  obtain x xs where hd: "?h = x # xs" using ne by (cases ?h) auto
  note D = linkedD [OF ipq_inv_linked [OF inv] l]
  obtain v where v: "ipq_slab q ! slab_idx (?h ! 0) = HeapNode v 0" using D(2) by auto
  have last: "last ?h = ?h ! (length ?h - 1)" using ne by (rule last_conv_nth)
  have eq: "slab_idx (last ?h) = slab_idx (?h ! 0) \<longleftrightarrow> length ?h - 1 = 0"
    using D(3) [of "length ?h - 1"] last l by auto
  have pull: "ipq_pull q = do {
      q2 \<leftarrow> (if slab_idx (last ?h) \<noteq> slab_idx (?h ! 0) then sift_down (last ?h) 0 (unlinked 0 q)
             else Some (unlinked 0 q));
      Some (q2, Some (triple_pair (ipq_triples q ! 0))) }"
    unfolding ipq_pull_def using D(1) v l by (simp add: hd vec_simps ipq_triples_nth Let_def)
  have ep: "next_epoch q' = next_epoch q" if "sift_down (last ?h) 0 (unlinked 0 q) = Some q'" for q'
    using that by (auto simp: sift_down_def bind_eq_Some_conv)
  show ?thesis
  proof (cases "length ?h - 1 = 0")
    case True
    then show ?thesis using removed_last [OF inv l] pull eq by auto
  next
    case False
    have "item_key (?h ! 0) \<le> item_key (last ?h)"
      using ipq_root_least [OF inv, of "length ?h - 1"] l last by simp
    then show ?thesis using removed_down [OF inv, of 0] False pull eq ep by auto
  qed
qed

lemma ipq_pull_empty: "ipq_heap q = [] \<Longrightarrow> ipq_pull q = Some (q, None)"
  by (simp add: ipq_pull_def)

text \<open>The guard of \<open>extract\<close> finds the live entry with the given insertion key.\<close>

lemma extract_check_correct:
  assumes inv: "ipq_inv q"
  shows "extract_check ik q = Some (ik \<in> triple_ik ` set (ipq_triples q))"
    and "ik = triple_ik (ipq_triples q ! i) \<Longrightarrow> i < length (ipq_heap q) \<Longrightarrow>
      \<exists>v. ipq_slab q ! ik_slab_idx ik = HeapNode v i"
proof -
  note lk = ipq_inv_linked [OF inv]
  show "ik = triple_ik (ipq_triples q ! i) \<Longrightarrow> i < length (ipq_heap q) \<Longrightarrow>
      \<exists>v. ipq_slab q ! ik_slab_idx ik = HeapNode v i"
    using linkedD(2) [OF lk] by (simp add: ipq_triples_nth)
  have mem: "ik \<in> triple_ik ` set (ipq_triples q) \<longleftrightarrow>
    (\<exists>i < length (ipq_heap q). slab_idx (ipq_heap q ! i) = ik_slab_idx ik \<and>
       uk_epoch (item_key (ipq_heap q ! i)) = ik_epoch ik)"
    by (cases ik) (auto simp: ipq_triples_def in_set_conv_nth image_iff Bex_def)
  show "extract_check ik q = Some (ik \<in> triple_ik ` set (ipq_triples q))"
  proof (cases "ik_slab_idx ik < length (ipq_slab q)")
    case False
    then show ?thesis using linkedD(1) [OF lk] unfolding mem by (force simp: extract_check_def vec_get_def)
  next
    case True
    show ?thesis
    proof (cases "ipq_slab q ! ik_slab_idx ik")
      case (FreeNode nx)
      then show ?thesis using True linkedD(2) [OF lk] unfolding mem
        by (auto simp: extract_check_def vec_get_def) (metis node.distinct(1))
    next
      case (HeapNode v i)
      have i: "i < length (ipq_heap q)" "slab_idx (ipq_heap q ! i) = ik_slab_idx ik"
        using linked_backD [OF lk True HeapNode] by auto
      have "ik \<in> triple_ik ` set (ipq_triples q) \<longleftrightarrow> uk_epoch (item_key (ipq_heap q ! i)) = ik_epoch ik"
        unfolding mem using linked_slab_inj [OF lk _ i(1)] i by metis
      then show ?thesis using True HeapNode i by (simp add: extract_check_def vec_simps)
    qed
  qed
qed

lemma ipq_extract_correct:
  assumes inv: "ipq_inv q" and i: "i < length (ipq_heap q)" and ik: "ik = triple_ik (ipq_triples q ! i)"
  shows "\<exists>q'. ipq_extract ik q = Some (q', Some (triple_pair (ipq_triples q ! i))) \<and> ipq_inv q' \<and>
    next_epoch q' = next_epoch q \<and>
    mset (ipq_triples q) = add_mset (ipq_triples q ! i) (mset (ipq_triples q'))"
proof -
  let ?h = "ipq_heap q"
  note D = linkedD [OF ipq_inv_linked [OF inv] i]
  have idx: "ik_slab_idx ik = slab_idx (?h ! i)" using ik i by (simp add: ipq_triples_nth)
  obtain v where v: "ipq_slab q ! slab_idx (?h ! i) = HeapNode v i" using D(2) by auto
  have "ik \<in> triple_ik ` set (ipq_triples q)"
    using ik i nth_mem [of i "ipq_triples q"] by (simp del: triple_ik.simps)
  then have ok: "extract_check ik q = Some True" using extract_check_correct(1) [OF inv] by simp
  have pair: "triple_pair (ipq_triples q ! i) = (uk_key (item_key (?h ! i)), v)"
    using i v by (simp add: ipq_triples_nth)
  have ne: "?h \<noteq> []" using i by auto
  have ext: "ipq_extract ik q = do {
      q2 \<leftarrow> (case vec_get (butlast ?h) i of
               None \<Rightarrow> Some (unlinked i q)
             | Some item' \<Rightarrow>
                 if item_key (last ?h) < item_key item' then sift_up (last ?h) i (unlinked i q)
                 else sift_down (last ?h) i (unlinked i q));
      Some (q2, Some (triple_pair (ipq_triples q ! i))) }"
    unfolding ipq_extract_def ok pair using D(1) v i ne by (simp add: idx vec_simps Let_def)
  have ep: "next_epoch q' = next_epoch q"
    if "sift_up (last ?h) i (unlinked i q) = Some q' \<or> sift_down (last ?h) i (unlinked i q) = Some q'" for q'
    using that by (auto simp: sift_up_def sift_down_def bind_eq_Some_conv)
  show ?thesis
  proof (cases "i = length ?h - 1")
    case True
    then have "ipq_extract ik q = Some (unlinked i q, Some (triple_pair (ipq_triples q ! i)))"
      unfolding ext by (simp add: vec_simps)
    then show ?thesis using removed_last [OF inv i True] by auto
  next
    case False
    then have i': "i < length ?h - 1" using i by simp
    then have g: "vec_get (butlast ?h) i = Some (?h ! i)" by (simp add: nth_butlast)
    show ?thesis
    proof (cases "item_key (last ?h) < item_key (?h ! i)")
      case True
      from removed_up [OF inv i' True] show ?thesis
        unfolding ext g using True ep by auto
    next
      case F: False
      then have "item_key (?h ! i) \<le> item_key (last ?h)" by simp
      from removed_down [OF inv i' this] show ?thesis
        unfolding ext g using F ep by auto
    qed
  qed
qed

lemma ipq_extract_absent:
  assumes "ipq_inv q" "ik \<notin> triple_ik ` set (ipq_triples q)"
  shows "ipq_extract ik q = Some (q, None)"
  using extract_check_correct(1) [OF assms(1)] assms(2) by (simp add: ipq_extract_def)

section \<open>The contract of the queue\<close>

lemma ipq_entries_add:
  assumes "ipq_inv q" "ipq_inv q'" "mset (ipq_triples q') = add_mset t (mset (ipq_triples q))"
    and "\<forall>u \<in> set (ipq_triples q). snd (triple_rank u) < snd (triple_rank t)"
  shows "ipq_entries q' = fifo_insert (fst (triple_pair t)) (snd (triple_pair t)) (ipq_entries q)"
proof -
  have "mset (ipq_triples q') = mset (ipq_triples q @ [t])" using assms(3) by simp
  moreover from this have set: "set (ipq_triples q') = set (ipq_triples q @ [t])"
    by (metis set_mset_mset)
  then have inj: "inj_on triple_rank (set (ipq_triples q @ [t]))"
    using triple_rank_inj [OF assms(2)] by (simp only:)
  ultimately have "sort_key triple_rank (ipq_triples q') = sort_key triple_rank (ipq_triples q @ [t])"
    using set by (intro sort_key_unique) (simp_all del: set_append)
  moreover have "t \<notin> set (ipq_triples q)" using assms(4) by auto
  moreover have "\<forall>u. fst (triple_pair u) = fst (triple_rank u)" by (auto simp: triple_pair.simps)
  ultimately show ?thesis
    using sort_key_fifo_insert [OF inj _ assms(4), of triple_pair] by (simp add: ipq_entries_def)
qed

lemma ipq_entries_remove:
  assumes "ipq_inv q" "mset (ipq_triples q) = add_mset t (mset (ipq_triples q'))"
    and "\<forall>u \<in> set (ipq_triples q). triple_rank t \<le> triple_rank u"
  shows "ipq_entries q = triple_pair t # ipq_entries q'"
proof -
  have "set (ipq_triples q') \<subseteq> set (ipq_triples q)"
    using arg_cong [OF assms(2), of set_mset] by auto
  then have "sort_key triple_rank (ipq_triples q) = t # sort_key triple_rank (ipq_triples q')"
    using triple_rank_inj [OF assms(1)] assms(2,3) by (intro sort_key_unique) auto
  then show ?thesis by (simp add: ipq_entries_def)
qed

lemma ipq_epochs_below:
  "ipq_inv q \<Longrightarrow> u \<in> set (ipq_triples q) \<Longrightarrow> snd (triple_rank u) < next_epoch q"
  by (auto simp: ipq_inv_def ipq_triples_def)

lemma ipq_insert_law:
  assumes inv: "ipq_inv q" and room: "0 < ipq_room q"
  shows "\<exists>q' ik. ipq_insert k v q = Some (q', ik) \<and> ipq_inv q' \<and> Suc (ipq_room q') = ipq_room q \<and>
    ipq_entries q' = fifo_insert k v (ipq_entries q) \<and>
    ik_epoch ik = next_epoch q \<and> ipq_lookup q ik = None \<and>
    ipq_lookup q' = (ipq_lookup q)(ik \<mapsto> (k, v))"
proof -
  have e: "next_epoch q < u64_max" using room by (simp add: ipq_room_def)
  obtain q' idx where q': "ipq_insert k v q = Some (q', \<lparr>ik_slab_idx = idx, ik_epoch = next_epoch q\<rparr>)"
      "ipq_inv q'" "next_epoch q' = Suc (next_epoch q)"
    and ms: "mset (ipq_triples q') = add_mset (UniqueKey k (next_epoch q), idx, v) (mset (ipq_triples q))"
    using ipq_insert_correct [OF inv e] by blast
  show ?thesis
    using q' e ipq_entries_add [OF inv q'(2) ms] ipq_epochs_below [OF inv] ipq_lookup_add [OF inv q'(2) ms]
    by (auto simp: ipq_room_def)
qed

lemma ipq_pull_law:
  assumes inv: "ipq_inv q"
  shows "\<exists>q'. ipq_inv q' \<and> ipq_room q' = ipq_room q \<and>
    (case ipq_entries q of
       [] \<Rightarrow> ipq_pull q = Some (q', None) \<and> ipq_entries q' = []
     | e # es \<Rightarrow> ipq_pull q = Some (q', Some e) \<and> ipq_entries q' = es)"
proof (cases "ipq_heap q = []")
  case True
  then have "ipq_entries q = []" by (simp add: ipq_entries_def ipq_triples_def)
  then show ?thesis using inv ipq_pull_empty [OF True] by auto
next
  case False
  obtain q' where q': "ipq_pull q = Some (q', Some (triple_pair (ipq_triples q ! 0)))" "ipq_inv q'"
      "next_epoch q' = next_epoch q"
    and ms: "mset (ipq_triples q) = add_mset (ipq_triples q ! 0) (mset (ipq_triples q'))"
    using ipq_pull_correct [OF inv False] by blast
  then have "ipq_entries q = triple_pair (ipq_triples q ! 0) # ipq_entries q'"
    using ipq_entries_remove [OF inv ms] ipq_triples_root [OF inv] by blast
  then show ?thesis using q' by (auto simp: ipq_room_def)
qed

lemma ipq_peek_law:
  assumes inv: "ipq_inv q"
  shows "ipq_peek q = Some (case ipq_entries q of [] \<Rightarrow> None | e # _ \<Rightarrow> Some e)"
proof (cases "ipq_heap q")
  case Nil
  then show ?thesis by (simp add: ipq_peek_def ipq_entries_def ipq_triples_def)
next
  case (Cons x xs)
  then have l: "0 < length (ipq_heap q)" by simp
  obtain q' where "mset (ipq_triples q) = add_mset (ipq_triples q ! 0) (mset (ipq_triples q'))"
    using ipq_pull_correct [OF inv] l by auto
  then have "ipq_entries q = triple_pair (ipq_triples q ! 0) # ipq_entries q'"
    using ipq_entries_remove [OF inv] ipq_triples_root [OF inv] by blast
  then show ?thesis
    using linkedD(1,2) [OF ipq_inv_linked [OF inv] l] Cons
    by (auto simp: ipq_peek_def ipq_triples_def vec_simps)
qed

lemma ipq_extract_law:
  assumes inv: "ipq_inv q"
  shows "\<exists>q'. ipq_extract ik q = Some (q', ipq_lookup q ik) \<and> ipq_inv q' \<and> ipq_room q' = ipq_room q \<and>
    ipq_lookup q' = (ipq_lookup q)(ik := None)"
proof (cases "ik \<in> triple_ik ` set (ipq_triples q)")
  case False
  then have "ipq_lookup q ik = None"
    by (auto simp: ipq_lookup_def map_of_eq_None_iff image_iff)
  then show ?thesis using ipq_extract_absent [OF inv False] inv by (auto simp: fun_upd_idem)
next
  case True
  then obtain i where i: "i < length (ipq_heap q)" "ik = triple_ik (ipq_triples q ! i)"
    by (auto simp: in_set_conv_nth simp del: triple_ik.simps)
  obtain q' where q': "ipq_extract ik q = Some (q', Some (triple_pair (ipq_triples q ! i)))" "ipq_inv q'"
      "next_epoch q' = next_epoch q"
    and ms: "mset (ipq_triples q) = add_mset (ipq_triples q ! i) (mset (ipq_triples q'))"
    using ipq_extract_correct [OF inv i] by blast
  have "ipq_lookup q = (ipq_lookup q')(ik \<mapsto> triple_pair (ipq_triples q ! i))" "ipq_lookup q' ik = None"
    using ipq_lookup_add [OF q'(2) inv ms] i(2) by auto
  then show ?thesis using q' by (auto simp: ipq_room_def fun_upd_idem)
qed

lemma ipq_pull_lookup:
  assumes inv: "ipq_inv q" and e: "ipq_entries q = e # es"
  shows "\<exists>q' ik. ipq_pull q = Some (q', Some e) \<and> ipq_inv q' \<and> ipq_entries q' = es \<and>
    ipq_room q' = ipq_room q \<and> ipq_lookup q ik = Some e \<and> ipq_lookup q' = (ipq_lookup q)(ik := None)"
proof -
  have ne: "ipq_heap q \<noteq> []" using e by (auto simp: ipq_entries_def ipq_triples_def)
  obtain q' where q': "ipq_pull q = Some (q', Some (triple_pair (ipq_triples q ! 0)))" "ipq_inv q'"
      "next_epoch q' = next_epoch q"
    and ms: "mset (ipq_triples q) = add_mset (ipq_triples q ! 0) (mset (ipq_triples q'))"
    using ipq_pull_correct [OF inv ne] by blast
  let ?ik = "triple_ik (ipq_triples q ! 0)"
  have lk: "ipq_lookup q = (ipq_lookup q')(?ik \<mapsto> triple_pair (ipq_triples q ! 0))"
      "ipq_lookup q' ?ik = None"
    using ipq_lookup_add [OF q'(2) inv ms] by auto
  moreover have "ipq_entries q = triple_pair (ipq_triples q ! 0) # ipq_entries q'"
    using ipq_entries_remove [OF inv ms] ipq_triples_root [OF inv] by blast
  ultimately show ?thesis
    using q' e by (intro exI [of _ q'] exI [of _ ?ik]) (auto simp: ipq_room_def fun_upd_idem)
qed

lemma ipq_peek_key_law:
  assumes inv: "ipq_inv q"
  shows "ipq_peek_key q = (case ipq_entries q of [] \<Rightarrow> None | e # _ \<Rightarrow> Some (fst e))"
  using ipq_peek_law [OF inv]
  by (auto simp: ipq_peek_def ipq_peek_key_def bind_eq_Some_conv split: list.splits)

text \<open>Sifting keeps the number of items; a pull takes one away.\<close>

lemma sift_down_loop_length:
  "sift_down_loop it h s p c = Some (h', s', p') \<Longrightarrow> length h' = length h"
proof (induction it h s p c rule: sift_down_loop.induct)
  case (1 it h s p c)
  from "1.prems" show ?case
    by (subst (asm) sift_down_loop.simps)
       (auto simp: bind_eq_Some_conv split: if_splits dest!: "1.IH")
qed

lemma ipq_pull_shrinks:
  assumes "ipq_pull q = Some (q', r)" "ipq_peek_key q \<noteq> None"
  shows "ipq_len q' < ipq_len q"
proof -
  obtain x xs where h: "ipq_heap q = x # xs"
    using assms(2) by (auto simp: ipq_peek_key_def split: list.splits)
  have "length (ipq_heap q') = length (butlast (ipq_heap q))"
    using assms(1) h
    by (auto simp: ipq_pull_def sift_down_def bind_eq_Some_conv Let_def
        dest!: sift_down_loop_length split: if_splits)
  then show ?thesis using h by (simp add: ipq_len_def)
qed

lemma ipq_new_inv: "ipq_inv ipq_new" "ipq_entries ipq_new = []" "ipq_room ipq_new = u64_max"
  "ipq_lookup ipq_new = Map.empty"
  by (auto simp: ipq_inv_def ipq_new_def linked_def free_ok_def heap_prop_def ipq_entries_def
      ipq_triples_def ipq_room_def ipq_lookup_def intro: exI [of _ "[]"])

interpretation ipq: fifo_pq ipq_inv ipq_entries ipq_room ipq_new
  "\<lambda>k v q. map_option fst (ipq_insert k v q)" ipq_pull ipq_peek
proof unfold_locales
  fix q :: "('a, 'b) ipq" and k v
  assume "ipq_inv q" "0 < ipq_room q"
  from ipq_insert_law [OF this, of k v] show "\<exists>q'. map_option fst (ipq_insert k v q) = Some q' \<and> ipq_inv q' \<and>
      ipq_entries q' = fifo_insert k v (ipq_entries q) \<and> Suc (ipq_room q') = ipq_room q" by auto
next
  fix q :: "('a, 'b) ipq" and k v
  assume "ipq_inv q" "ipq_room q = 0"
  then show "map_option fst (ipq_insert k v q) = None"
    by (auto simp: ipq_inv_def ipq_insert_def ipq_room_def)
qed (simp_all add: ipq_new_inv ipq_pull_law ipq_peek_law)

section \<open>Properties\<close>

text \<open>
  C7. The indexed priority queue, for any sequence of insertions, pulls and peeks on a
  fresh queue, never panics and answers exactly like the reference list with FIFO order
  of equal keys: the array heap, the slab and the free list are an implementation of it.
\<close>

theorem ipq_ops_refine_list:
  assumes "inserts ops \<le> u64_max"
  shows "\<exists>q'. run_ops (\<lambda>k v q. map_option fst (ipq_insert k v q)) ipq_pull ipq_peek ops ipq_new
      = Some (q', snd (spec_ops ops [])) \<and> ipq_entries q' = fst (spec_ops ops [])"
  using ipq.run_refines [OF ipq.inv_empty, of ops] assms by (auto simp: ipq.entries_empty ipq.room_empty)

theorem ipq_ops_refine_list_witness:
  "\<exists>q'. run_ops (\<lambda>k v q. map_option fst (ipq_insert k v q)) ipq_pull ipq_peek
      [OpInsert (7::nat) ''a'', OpInsert 2 ''b'', OpPull, OpInsert 7 ''c'', OpPull, OpPull] ipq_new
      = Some (q', [Some (2, ''b''), Some (7, ''a''), Some (7, ''c'')]) \<and> ipq_entries q' = []"
  using ipq_ops_refine_list [of "[OpInsert (7::nat) ''a'', OpInsert 2 ''b'', OpPull, OpInsert 7 ''c'',
      OpPull, OpPull]"]
  by (simp add: u64_max_def fifo_insert_def)

text \<open>
  C9. Insertion keeps the invariant of the indexed priority queue (heap order, mutual
  links of heap and slab, acyclic free list covering every free node, distinct epochs)
  and returns an insertion key that designates the new entry and no other: the map from
  insertion keys to entries is extended at a key that was not in it.
\<close>

theorem ipq_insert_extends_map:
  assumes "ipq_inv q" "0 < ipq_room q"
  shows "\<exists>q' ik. ipq_insert k v q = Some (q', ik) \<and> ipq_inv q' \<and> ipq_lookup q ik = None \<and>
    ipq_lookup q' = (ipq_lookup q)(ik \<mapsto> (k, v))"
  using ipq_insert_law [OF assms, of k v] by blast

theorem ipq_insert_extends_map_witness:
  "\<exists>q' ik. ipq_insert (4::nat) ''x'' ipq_new = Some (q', ik) \<and> ipq_inv q' \<and>
     ipq_lookup ipq_new ik = (None :: (nat \<times> string) option) \<and>
     ipq_lookup q' = (ipq_lookup ipq_new)(ik \<mapsto> (4, ''x''))"
  using ipq_insert_extends_map [OF ipq.inv_empty, of "4::nat" "''x''"]
  by (simp add: ipq.room_empty u64_max_def)

text \<open>
  C8. \<open>extract\<close> is deletion from that map: for any insertion key, stale, made up or live,
  it does not panic, returns what the map holds at the key, removes that entry and no
  other, and keeps the invariant.
\<close>

theorem ipq_extract_deletes:
  assumes "ipq_inv q"
  shows "\<exists>q'. ipq_extract ik q = Some (q', ipq_lookup q ik) \<and> ipq_inv q' \<and>
    ipq_lookup q' = (ipq_lookup q)(ik := None)"
  using ipq_extract_law [OF assms, of ik] by blast

theorem ipq_extract_deletes_witness:
  "\<exists>q'. ipq_extract (from_raw_parts 3 9) (ipq_new :: (nat, string) ipq) = Some (q', None) \<and> ipq_inv q'"
  using ipq_extract_deletes [OF ipq.inv_empty, where ik = "from_raw_parts 3 9"]
  by (auto simp: ipq_new_inv(4))



end
