(* ===== verification/Key_Registry.thy ===== *)
theory Key_Registry
  imports Ipq_Contract
begin

text \<open>
  The registry of \<open>server/key_registry.rs\<close>: action keys in an indexed priority queue,
  ordered by expiration time. The type of times is any linear order, and the value of
  \<open>MonotonicTime::MAX\<close> is an argument. \<open>remove_expired_keys\<close> pulls keys while the first
  expiration predates the argument.

  A run of the registry is a sequence of its operations; the lemmas follow a key from
  its insertion until it is extracted or expires.
\<close>

section \<open>Operations\<close>

type_synonym ('t, 'a) key_registry = "('t, 'a) ipq"

definition insert_key ::
  "'a \<Rightarrow> 't::linorder \<Rightarrow> ('t, 'a) key_registry \<Rightarrow> (('t, 'a) key_registry \<times> ins_key) option"
where
  "insert_key action_key expiration r = ipq_insert expiration action_key r"

definition insert_eternal_key ::
  "'t::linorder \<Rightarrow> 'a \<Rightarrow> ('t, 'a) key_registry \<Rightarrow> (('t, 'a) key_registry \<times> ins_key) option"
where
  "insert_eternal_key time_max action_key r = ipq_insert time_max action_key r"

definition extract_key ::
  "ins_key \<Rightarrow> ('t::linorder, 'a) key_registry \<Rightarrow> (('t, 'a) key_registry \<times> 'a option) option"
where
  "extract_key key_id r =
     do { (r', x) \<leftarrow> ipq_extract key_id r; Some (r', map_option snd x) }"

function remove_expired_keys ::
  "'t::linorder \<Rightarrow> ('t, 'a) key_registry \<Rightarrow> ('t, 'a) key_registry option"
where
  "remove_expired_keys now r =
     (case ipq_peek_key r of
        None \<Rightarrow> Some r
      | Some expiration \<Rightarrow>
          if now \<le> expiration then Some r
          else do { (r', _) \<leftarrow> ipq_pull r; remove_expired_keys now r' })"
  by pat_completeness auto
termination
  by (relation "measure (\<lambda>(now, r). ipq_len r)") (auto intro: ipq_pull_shrinks)

datatype ('t, 'a) reg_op = RegInsert 'a 't | RegExtract ins_key | RegExpire 't

fun reg_step :: "('t::linorder, 'a) reg_op \<Rightarrow> ('t, 'a) key_registry \<Rightarrow> ('t, 'a) key_registry option" where
  "reg_step (RegInsert a t) r = map_option fst (insert_key a t r)"
| "reg_step (RegExtract ik) r = map_option fst (extract_key ik r)"
| "reg_step (RegExpire now) r = remove_expired_keys now r"

fun reg_run :: "('t::linorder, 'a) reg_op list \<Rightarrow> ('t, 'a) key_registry \<Rightarrow> ('t, 'a) key_registry option" where
  "reg_run [] r = Some r"
| "reg_run (op # ops) r = do { r' \<leftarrow> reg_step op r; reg_run ops r' }"

fun reg_inserts :: "('t, 'a) reg_op list \<Rightarrow> nat" where
  "reg_inserts [] = 0"
| "reg_inserts (RegInsert _ _ # ops) = Suc (reg_inserts ops)"
| "reg_inserts (_ # ops) = reg_inserts ops"

text \<open>An operation that may not remove the key \<open>ik\<close> with expiration \<open>t\<close>.\<close>

fun reg_keeps :: "ins_key \<Rightarrow> 't::linorder \<Rightarrow> ('t, 'a) reg_op \<Rightarrow> bool" where
  "reg_keeps ik t (RegInsert _ _) = True"
| "reg_keeps ik t (RegExtract ik') = (ik' \<noteq> ik)"
| "reg_keeps ik t (RegExpire now) = (now \<le> t)"

text \<open>What remains of an entry once the keys that expired before \<open>now\<close> are gone.\<close>

fun unexpired :: "'t::linorder \<Rightarrow> ('t \<times> 'a) option \<Rightarrow> ('t \<times> 'a) option" where
  "unexpired now None = None"
| "unexpired now (Some (t, a)) = (if now \<le> t then Some (t, a) else None)"

section \<open>Expiration\<close>

declare remove_expired_keys.simps [simp del]

lemma sorted_ipq_entries: "sorted (map fst (ipq_entries q))"
proof -
  have "sorted (map fst (map triple_rank (sort_key triple_rank (ipq_triples q))))"
    using sorted_sort_key [of triple_rank "ipq_triples q"]
    by (auto simp: sorted_iff_nth_mono_less less_eq_prod_def less_le_not_le)
  moreover have "fst (triple_rank x) = fst (triple_pair x)" for x :: "('a, 'b) triple"
    by (cases x) simp
  ultimately show ?thesis by (simp add: ipq_entries_def o_def)
qed

lemma remove_expired_keys_correct:
  assumes "ipq_inv r"
  shows "\<exists>r'. remove_expired_keys now r = Some r' \<and> ipq_inv r' \<and> ipq_room r' = ipq_room r \<and>
    ipq_entries r' = dropWhile (\<lambda>e. fst e < now) (ipq_entries r) \<and>
    (\<forall>ik. ipq_lookup r' ik = unexpired now (ipq_lookup r ik))"
  using assms
proof (induction now r rule: remove_expired_keys.induct)
  case (1 now r)
  have in_entries: "(\<exists>x \<in> set (ipq_entries r). x = e)" if "ipq_lookup r ik = Some e" for ik e
    using that ipq_lookup_Some_iff [OF "1.prems"] by (auto simp: ipq_entries_def)
  have kept: ?case if "\<forall>e \<in> set (ipq_entries r). now \<le> fst e" "remove_expired_keys now r = Some r"
  proof -
    have "dropWhile (\<lambda>e. fst e < now) (ipq_entries r) = ipq_entries r"
      using that(1) by (cases "ipq_entries r") auto
    moreover have "ipq_lookup r ik = unexpired now (ipq_lookup r ik)" for ik
      using in_entries [of ik] that(1) by (cases "ipq_lookup r ik") force+
    ultimately show ?thesis using "1.prems" that(2) by auto
  qed
  show ?case
  proof (cases "ipq_entries r")
    case Nil
    then show ?thesis
      by (intro kept) (simp_all add: remove_expired_keys.simps [of now r] ipq_peek_key_law [OF "1.prems"])
  next
    case (Cons e es)
    have pk: "ipq_peek_key r = Some (fst e)" using ipq_peek_key_law [OF "1.prems"] Cons by simp
    show ?thesis
    proof (cases "now \<le> fst e")
      case True
      have "\<forall>x \<in> set (ipq_entries r). fst e \<le> fst x"
        using sorted_ipq_entries [of r] Cons by auto
      then have "\<forall>x \<in> set (ipq_entries r). now \<le> fst x" using True by (meson order_trans)
      then show ?thesis
        using True pk by (intro kept) (simp_all add: remove_expired_keys.simps [of now r])
    next
      case False
      obtain r1 ik where r1: "ipq_pull r = Some (r1, Some e)" "ipq_inv r1" "ipq_entries r1 = es"
          "ipq_room r1 = ipq_room r" "ipq_lookup r ik = Some e" "ipq_lookup r1 = (ipq_lookup r)(ik := None)"
        using ipq_pull_lookup [OF "1.prems" Cons] by blast
      have eq: "remove_expired_keys now r = remove_expired_keys now r1"
        using pk False r1(1) by (simp add: remove_expired_keys.simps [of now r])
      have "unexpired now (Some e) = None" using False by (cases e) simp
      then have "unexpired now (ipq_lookup r1 x) = unexpired now (ipq_lookup r x)" for x
        using r1(5,6) by simp
      then show ?thesis
        using "1.IH" [OF pk False r1(1) refl r1(2)] False r1(3,4) Cons unfolding eq by auto
    qed
  qed
qed

section \<open>Following a key\<close>

lemma reg_step_correct:
  assumes inv: "ipq_inv r" and room: "reg_inserts [op] \<le> ipq_room r"
    and ik: "ipq_lookup r ik = Some (t, a)" "reg_keeps ik t op"
  shows "\<exists>r'. reg_step op r = Some r' \<and> ipq_inv r' \<and> ipq_room r' + reg_inserts [op] = ipq_room r \<and>
    ipq_lookup r' ik = Some (t, a)"
proof (cases op)
  case (RegInsert b u)
  then have "0 < ipq_room r" using room by simp
  from ipq_insert_law [OF inv this, of u b] show ?thesis
    using RegInsert ik by (auto simp: insert_key_def)
next
  case (RegExtract ik')
  then show ?thesis using ipq_extract_law [OF inv, of ik'] ik by (auto simp: extract_key_def)
next
  case (RegExpire now)
  then show ?thesis using remove_expired_keys_correct [OF inv, of now] ik by auto
qed

lemma reg_inserts_Cons: "reg_inserts (op # ops) = reg_inserts [op] + reg_inserts ops"
  by (cases op) auto

lemma reg_run_keeps:
  assumes "ipq_inv r" "reg_inserts ops \<le> ipq_room r" "ipq_lookup r ik = Some (t, a)"
    "\<forall>op \<in> set ops. reg_keeps ik t op"
  shows "\<exists>r'. reg_run ops r = Some r' \<and> ipq_inv r' \<and> ipq_lookup r' ik = Some (t, a)"
  using assms
proof (induction ops arbitrary: r)
  case (Cons op ops)
  have "reg_inserts [op] \<le> ipq_room r" using Cons.prems(2) by (subst (asm) reg_inserts_Cons) simp
  then obtain r1 where r1: "reg_step op r = Some r1" "ipq_inv r1" "ipq_lookup r1 ik = Some (t, a)"
      "ipq_room r1 + reg_inserts [op] = ipq_room r"
    using reg_step_correct [OF Cons.prems(1) _ Cons.prems(3)] Cons.prems(4) by force
  have "reg_inserts ops \<le> ipq_room r1"
    using Cons.prems(2) r1(4) by (subst (asm) reg_inserts_Cons) simp
  then show ?case using Cons.IH [OF r1(2) _ r1(3)] Cons.prems(4) r1(1) by auto
qed auto

section \<open>Properties\<close>

text \<open>
  C16. A registered key is extractable up to its expiration deadline: after the insertion
  of an action key, whatever other keys are inserted or extracted and however often
  expired keys are removed with a time not past the deadline, extracting its identifier
  returns the action key.
\<close>

theorem key_extractable_until_deadline:
  assumes "ipq_inv r" "Suc (reg_inserts ops) \<le> ipq_room r" "insert_key a t r = Some (r1, ik)"
    and "\<forall>op \<in> set ops. reg_keeps ik t op"
  shows "\<exists>r2 r3. reg_run ops r1 = Some r2 \<and> extract_key ik r2 = Some (r3, Some a)"
proof -
  have r1: "ipq_inv r1" "Suc (ipq_room r1) = ipq_room r" "ipq_lookup r1 ik = Some (t, a)"
    using ipq_insert_law [OF assms(1), of t a] assms(2,3) by (auto simp: insert_key_def)
  then obtain r2 where r2: "reg_run ops r1 = Some r2" "ipq_inv r2" "ipq_lookup r2 ik = Some (t, a)"
    using reg_run_keeps [OF r1(1) _ r1(3) assms(4)] assms(2) by auto
  then show ?thesis using ipq_extract_law [OF r2(2), of ik] by (auto simp: extract_key_def)
qed

theorem key_extractable_until_deadline_witness:
  "\<exists>r1 ik r2 r3. insert_key ''k'' (9::nat) ipq_new = Some (r1, ik) \<and>
     reg_run [RegInsert ''other'' 2, RegExpire 9] r1 = Some r2 \<and> extract_key ik r2 = Some (r3, Some ''k'')"
proof -
  obtain r1 ik where i: "insert_key ''k'' (9::nat) ipq_new = Some (r1, ik)"
    using ipq_insert_law [OF ipq.inv_empty, of "9::nat" "''k''"]
    by (auto simp: ipq.room_empty u64_max_def insert_key_def)
  have "\<exists>r2 r3. reg_run [RegInsert ''other'' 2, RegExpire 9] r1 = Some r2 \<and>
      extract_key ik r2 = Some (r3, Some ''k'')"
    by (rule key_extractable_until_deadline [OF ipq.inv_empty _ i]) (simp_all add: ipq.room_empty u64_max_def)
  then show ?thesis using i by blast
qed

end
