(* ===== verification/Priority_Queue.thy ===== *)
theory Priority_Queue
  imports Pq_Spec
begin

text \<open>
  The priority queue of \<open>util/priority_queue.rs\<close>, which holds the scheduled actions of
  a simulation. Items carry the epoch at which they were inserted, and their order is
  the reversed lexicographic order of key and epoch, so that the maximum of the
  standard library's \<open>BinaryHeap\<close> is the oldest item among those with the least key.
  A \<open>BinaryHeap\<close> is the list of its items in no particular order: \<open>push\<close> adds an item,
  \<open>peek\<close> and \<open>pop\<close> find the greatest item for the order of the item type.
\<close>

section \<open>The standard library's binary heap\<close>

type_synonym 'a binary_heap = "'a list"

definition bh_push :: "'a \<Rightarrow> 'a binary_heap \<Rightarrow> 'a binary_heap" where
  "bh_push x h = h @ [x]"

fun bh_peek :: "('a \<Rightarrow> 'a \<Rightarrow> ordering) \<Rightarrow> 'a binary_heap \<Rightarrow> 'a option" where
  "bh_peek c [] = None"
| "bh_peek c (x # xs) =
     (case bh_peek c xs of
        None \<Rightarrow> Some x
      | Some y \<Rightarrow> if c y x = Greater then Some y else Some x)"

definition bh_pop :: "('a \<Rightarrow> 'a \<Rightarrow> ordering) \<Rightarrow> 'a binary_heap \<Rightarrow> 'a binary_heap \<times> 'a option" where
  "bh_pop c h = (case bh_peek c h of None \<Rightarrow> (h, None) | Some x \<Rightarrow> (remove1 x h, Some x))"

section \<open>The queue\<close>

record ('k, 'v) pq_item =
  pq_key :: 'k
  pq_value :: 'v
  pq_epoch :: nat

definition pq_item_cmp :: "('k::linorder, 'v) pq_item \<Rightarrow> ('k, 'v) pq_item \<Rightarrow> ordering" where
  "pq_item_cmp a b =
     reverse (then_with (cmp (pq_key a) (pq_key b)) (cmp (pq_epoch a) (pq_epoch b)))"

record ('k, 'v) priority_queue =
  pq_heap :: "('k, 'v) pq_item binary_heap"
  pq_next_epoch :: nat

definition pq_new :: "('k, 'v) priority_queue" where
  "pq_new = \<lparr>pq_heap = [], pq_next_epoch = 0\<rparr>"

definition pq_insert ::
  "'k \<Rightarrow> 'v \<Rightarrow> ('k, 'v) priority_queue \<Rightarrow> ('k, 'v) priority_queue option"
where
  "pq_insert k v q =
     (let epoch = pq_next_epoch q in
      if epoch = u64_max then None
      else Some \<lparr>pq_heap = bh_push \<lparr>pq_key = k, pq_value = v, pq_epoch = epoch\<rparr> (pq_heap q),
                 pq_next_epoch = epoch + 1\<rparr>)"

definition pq_pull ::
  "('k::linorder, 'v) priority_queue \<Rightarrow> ('k, 'v) priority_queue \<times> ('k \<times> 'v) option"
where
  "pq_pull q =
     (case bh_pop pq_item_cmp (pq_heap q) of
        (_, None) \<Rightarrow> (q, None)
      | (h, Some it) \<Rightarrow> (q\<lparr>pq_heap := h\<rparr>, Some (pq_key it, pq_value it)))"

definition pq_peek :: "('k::linorder, 'v) priority_queue \<Rightarrow> ('k \<times> 'v) option" where
  "pq_peek q =
     (case bh_peek pq_item_cmp (pq_heap q) of
        None \<Rightarrow> None
      | Some it \<Rightarrow> Some (pq_key it, pq_value it))"

section \<open>Invariant and abstraction\<close>

definition pq_inv :: "('k, 'v) priority_queue \<Rightarrow> bool" where
  "pq_inv q \<longleftrightarrow>
     distinct (map pq_epoch (pq_heap q)) \<and>
     (\<forall>it \<in> set (pq_heap q). pq_epoch it < pq_next_epoch q) \<and>
     pq_next_epoch q \<le> u64_max"

abbreviation pq_rank :: "('k, 'v) pq_item \<Rightarrow> 'k \<times> nat" where
  "pq_rank it \<equiv> (pq_key it, pq_epoch it)"

abbreviation pq_pair :: "('k, 'v) pq_item \<Rightarrow> 'k \<times> 'v" where
  "pq_pair it \<equiv> (pq_key it, pq_value it)"

definition pq_entries :: "('k::linorder, 'v) priority_queue \<Rightarrow> ('k \<times> 'v) list" where
  "pq_entries q = map pq_pair (sort_key pq_rank (pq_heap q))"

definition pq_room :: "('k, 'v) priority_queue \<Rightarrow> nat" where
  "pq_room q = u64_max - pq_next_epoch q"

section \<open>The heap finds the item of least rank\<close>

lemma pq_item_cmp_Greater: "pq_item_cmp a b = Greater \<longleftrightarrow> pq_rank a < pq_rank b"
  by (auto simp: pq_item_cmp_def less_prod_def)

lemma bh_peek_None [simp]: "bh_peek c h = None \<longleftrightarrow> h = []"
  by (cases h) (auto split: option.splits)

lemma bh_peek_rank:
  "bh_peek pq_item_cmp h = Some m \<Longrightarrow> m \<in> set h \<and> (\<forall>y \<in> set h. pq_rank m \<le> pq_rank y)"
proof (induction h arbitrary: m)
  case (Cons x h)
  then show ?case
    by (cases "bh_peek pq_item_cmp h")
       (auto simp: pq_item_cmp_Greater split: if_splits)
qed simp

lemma pq_inv_inj: "pq_inv q \<Longrightarrow> inj_on pq_rank (set (pq_heap q))"
  by (auto simp: pq_inv_def distinct_map inj_on_def)

lemma bh_peek_sorted:
  assumes "pq_inv q" "bh_peek pq_item_cmp (pq_heap q) = Some m"
  shows "sort_key pq_rank (pq_heap q) = m # sort_key pq_rank (remove1 m (pq_heap q))"
  using bh_peek_rank [OF assms(2)] sort_key_remove_min [OF pq_inv_inj [OF assms(1)]] by blast

section \<open>Every operation meets the contract\<close>

lemma pq_inv_insert:
  assumes "pq_inv q" "pq_insert k v q = Some q'"
  shows "pq_inv q'"
proof -
  have "\<forall>it \<in> set (pq_heap q). pq_epoch it < Suc (pq_next_epoch q) \<and> pq_epoch it \<noteq> pq_next_epoch q"
    using assms(1) by (force simp: pq_inv_def)
  then show ?thesis
    using assms by (force simp: pq_inv_def pq_insert_def bh_push_def Let_def split: if_splits)
qed

lemma pq_entries_insert:
  assumes inv: "pq_inv q" and ins: "pq_insert k v q = Some q'"
  shows "pq_entries q' = fifo_insert k v (pq_entries q)"
proof -
  let ?x = "\<lparr>pq_key = k, pq_value = v, pq_epoch = pq_next_epoch q\<rparr>"
  have q': "q' = \<lparr>pq_heap = pq_heap q @ [?x], pq_next_epoch = Suc (pq_next_epoch q)\<rparr>"
    using ins by (auto simp: pq_insert_def bh_push_def Let_def split: if_splits)
  have less: "\<forall>y \<in> set (pq_heap q). snd (pq_rank y) < snd (pq_rank ?x)"
    using inv by (auto simp: pq_inv_def)
  have inj: "inj_on pq_rank (set (pq_heap q @ [?x]))" and new: "?x \<notin> set (pq_heap q)"
    using pq_inv_inj [OF pq_inv_insert [OF inv ins]] less by (auto simp: q')
  show ?thesis
    using sort_key_fifo_insert [OF inj new less, of pq_pair] by (simp add: pq_entries_def q')
qed

lemma pq_pull_law:
  assumes "pq_inv q"
  shows "\<exists>q'. pq_inv q' \<and> pq_room q' = pq_room q \<and>
    (case pq_entries q of
       [] \<Rightarrow> Some (pq_pull q) = Some (q', None) \<and> pq_entries q' = []
     | e # es \<Rightarrow> Some (pq_pull q) = Some (q', Some e) \<and> pq_entries q' = es)"
proof (cases "bh_peek pq_item_cmp (pq_heap q)")
  case None
  then show ?thesis using assms by (auto simp: pq_entries_def pq_pull_def bh_pop_def)
next
  case (Some m)
  let ?q = "q\<lparr>pq_heap := remove1 m (pq_heap q)\<rparr>"
  have "pq_inv ?q" using assms
    by (auto simp: pq_inv_def distinct_map distinct_remove1
        dest: set_remove1_subset [THEN subsetD] intro: inj_on_subset)
  moreover have "pq_entries q = pq_pair m # pq_entries ?q"
    using bh_peek_sorted [OF assms Some] by (simp add: pq_entries_def)
  ultimately show ?thesis
    using Some by (intro exI [of _ ?q]) (simp add: pq_pull_def bh_pop_def pq_room_def)
qed

lemma pq_peek_law:
  assumes "pq_inv q"
  shows "pq_peek q = (case pq_entries q of [] \<Rightarrow> None | e # _ \<Rightarrow> Some e)"
proof (cases "bh_peek pq_item_cmp (pq_heap q)")
  case (Some m)
  then show ?thesis using bh_peek_sorted [OF assms Some] by (simp add: pq_entries_def pq_peek_def)
qed (auto simp: pq_entries_def pq_peek_def)

interpretation pq: fifo_pq pq_inv pq_entries pq_room pq_new pq_insert
  "\<lambda>q. Some (pq_pull q)" "\<lambda>q. Some (pq_peek q)"
proof unfold_locales
  fix q :: "('a, 'b) priority_queue" and k v
  assume inv: "pq_inv q" and room: "0 < pq_room q"
  then obtain q' where q': "pq_insert k v q = Some q'" "Suc (pq_room q') = pq_room q"
    by (auto simp: pq_insert_def pq_room_def Let_def)
  then show "\<exists>q'. pq_insert k v q = Some q' \<and> pq_inv q' \<and>
      pq_entries q' = fifo_insert k v (pq_entries q) \<and> Suc (pq_room q') = pq_room q"
    using pq_inv_insert [OF inv] pq_entries_insert [OF inv] by blast
next
  fix q :: "('a, 'b) priority_queue" and k v
  assume "pq_inv q" "pq_room q = 0"
  then show "pq_insert k v q = None" by (auto simp: pq_inv_def pq_insert_def pq_room_def)
qed (simp_all add: pq_pull_law pq_peek_law,
     simp_all add: pq_new_def pq_inv_def pq_entries_def pq_room_def)

section \<open>Properties\<close>

text \<open>
  C6. The scheduler's queue is a stable priority queue: any sequence of insertions, pulls
  and peeks on a fresh queue, with fewer insertions than there are epochs, never panics
  and answers exactly like the reference list in which an entry is inserted behind all
  the entries with the same key and the first entry is pulled.
\<close>

theorem pq_ops_refine_list:
  assumes "inserts ops \<le> u64_max"
  shows "\<exists>q'. run_ops pq_insert (\<lambda>q. Some (pq_pull q)) (\<lambda>q. Some (pq_peek q)) ops pq_new
      = Some (q', snd (spec_ops ops [])) \<and> pq_entries q' = fst (spec_ops ops [])"
  using pq.run_refines [OF pq.inv_empty, of ops] assms by (auto simp: pq.entries_empty pq.room_empty)

theorem pq_ops_refine_list_witness:
  "\<exists>q'. run_ops pq_insert (\<lambda>q. Some (pq_pull q)) (\<lambda>q. Some (pq_peek q))
      [OpInsert (5::nat) ''a'', OpInsert 3 ''b'', OpInsert 5 ''c'', OpPull, OpPeek, OpPull, OpPull, OpPull] pq_new
      = Some (q', [Some (3, ''b''), Some (5, ''a''), Some (5, ''a''), Some (5, ''c''), None])
    \<and> pq_entries q' = []"
  using pq_ops_refine_list [of "[OpInsert (5::nat) ''a'', OpInsert 3 ''b'', OpInsert 5 ''c'', OpPull, OpPeek,
      OpPull, OpPull, OpPull]"]
  by (simp add: u64_max_def fifo_insert_def)



end
