(* ===== verification/Scheduler.thy ===== *)
theory Scheduler
  imports Priority_Queue
begin

text \<open>
  The scheduler of \<open>simulation/scheduler.rs\<close>: actions with their cancellation keys and
  the operations of \<open>GlobalScheduler\<close>, which \<open>Scheduler\<close> (other threads) and \<open>Context\<close>
  (models) wrap with the origin identifier of the caller.

  Times are values of a linear order \<open>'t\<close>; the addition of a duration to a time, which
  panics on overflow, is the argument \<open>add\<close> (\<open>MonotonicTime\<close> is a type of the \<open>tai_time\<close>
  package). An action key is the address of a shared flag; the flags of all the keys
  created so far are a list. The payload \<open>'a\<close> of an action is the closure that builds
  its future. An operation runs with the queue's mutex locked, hence as one step.
\<close>

section \<open>Action keys and actions\<close>

type_synonym action_key = nat

datatype scheduling_error = InvalidScheduledTime | NullRepetitionPeriod

definition action_key_new :: "bool list \<Rightarrow> bool list \<times> action_key" where
  "action_key_new flags = (flags @ [False], length flags)"

definition key_is_cancelled :: "bool list \<Rightarrow> action_key \<Rightarrow> bool" where
  "key_is_cancelled flags k \<longleftrightarrow> k < length flags \<and> flags ! k"

definition key_cancel :: "action_key \<Rightarrow> bool list \<Rightarrow> bool list" where
  "key_cancel k flags = flags[k := True]"

text \<open>Dropping an \<open>AutoActionKey\<close> cancels its action.\<close>

definition auto_action_key_drop :: "action_key \<Rightarrow> bool list \<Rightarrow> bool list" where
  "auto_action_key_drop k flags = flags[k := True]"

datatype 'a action =
    OnceAction 'a
  | PeriodicAction 'a duration
  | KeyedOnceAction 'a action_key
  | KeyedPeriodicAction 'a duration action_key

datatype 'a fut = ProcessEvent 'a | SendKeyedEvent action_key 'a

fun action_is_cancelled :: "bool list \<Rightarrow> 'a action \<Rightarrow> bool" where
  "action_is_cancelled flags (OnceAction _) = False"
| "action_is_cancelled flags (PeriodicAction _ _) = False"
| "action_is_cancelled flags (KeyedOnceAction _ k) = key_is_cancelled flags k"
| "action_is_cancelled flags (KeyedPeriodicAction _ _ k) = key_is_cancelled flags k"

fun action_next :: "'a action \<Rightarrow> ('a action \<times> duration) option" where
  "action_next (OnceAction _) = None"
| "action_next (PeriodicAction g p) = Some (PeriodicAction g p, p)"
| "action_next (KeyedOnceAction _ _) = None"
| "action_next (KeyedPeriodicAction g p k) = Some (KeyedPeriodicAction g p k, p)"

fun into_future :: "'a action \<Rightarrow> 'a fut" where
  "into_future (OnceAction g) = ProcessEvent g"
| "into_future (PeriodicAction g _) = ProcessEvent g"
| "into_future (KeyedOnceAction g k) = SendKeyedEvent k g"
| "into_future (KeyedPeriodicAction g _ k) = SendKeyedEvent k g"

text \<open>
  The call a future makes once its message is taken out of the mailbox: \<open>process_event\<close>
  always calls the input, \<open>send_keyed_event\<close> only if its key was not cancelled meanwhile.
\<close>

fun fut_call :: "bool list \<Rightarrow> 'a fut \<Rightarrow> 'a option" where
  "fut_call flags (ProcessEvent g) = Some g"
| "fut_call flags (SendKeyedEvent k g) = (if key_is_cancelled flags k then None else Some g)"

section \<open>The global scheduler\<close>

datatype 't deadline = After duration | At 't

fun into_time :: "('t \<Rightarrow> duration \<Rightarrow> 't option) \<Rightarrow> 't deadline \<Rightarrow> 't \<Rightarrow> 't option" where
  "into_time add (After d) now = add now d"
| "into_time add (At t) now = Some t"

type_synonym ('t, 'a) scheduler_queue = "('t \<times> nat, 'a action) priority_queue"

record ('t, 'a) sched =
  sched_queue :: "('t, 'a) scheduler_queue"
  sched_time :: 't
  sched_halted :: bool
  sched_flags :: "bool list"

definition GLOBAL_SCHEDULER_ORIGIN_ID :: nat where
  "GLOBAL_SCHEDULER_ORIGIN_ID = 0"

definition schedule_from ::
  "('t::linorder \<Rightarrow> duration \<Rightarrow> 't option) \<Rightarrow> 't deadline \<Rightarrow> 'a action \<Rightarrow> nat \<Rightarrow> ('t, 'a) sched \<Rightarrow>
   (('t, 'a) sched \<times> (scheduling_error + unit)) option"
where
  "schedule_from add deadline action origin_id g =
     do { let now = sched_time g;
          time \<leftarrow> into_time add deadline now;
          if time \<le> now then Some (g, Inl InvalidScheduledTime)
          else do {
            q \<leftarrow> pq_insert (time, origin_id) action (sched_queue g);
            Some (g\<lparr>sched_queue := q\<rparr>, Inr ())
          } }"

definition schedule_event_from ::
  "('t::linorder \<Rightarrow> duration \<Rightarrow> 't option) \<Rightarrow> 't deadline \<Rightarrow> 'a \<Rightarrow> nat \<Rightarrow> ('t, 'a) sched \<Rightarrow>
   (('t, 'a) sched \<times> (scheduling_error + unit)) option"
where
  "schedule_event_from add deadline ev origin_id g =
     do { let action = OnceAction ev;
          let now = sched_time g;
          time \<leftarrow> into_time add deadline now;
          if time \<le> now then Some (g, Inl InvalidScheduledTime)
          else do {
            q \<leftarrow> pq_insert (time, origin_id) action (sched_queue g);
            Some (g\<lparr>sched_queue := q\<rparr>, Inr ())
          } }"

definition schedule_keyed_event_from ::
  "('t::linorder \<Rightarrow> duration \<Rightarrow> 't option) \<Rightarrow> 't deadline \<Rightarrow> 'a \<Rightarrow> nat \<Rightarrow> ('t, 'a) sched \<Rightarrow>
   (('t, 'a) sched \<times> (scheduling_error + action_key)) option"
where
  "schedule_keyed_event_from add deadline ev origin_id g =
     do { let (flags, event_key) = action_key_new (sched_flags g);
          let g1 = g\<lparr>sched_flags := flags\<rparr>;
          let action = KeyedOnceAction ev event_key;
          let now = sched_time g1;
          time \<leftarrow> into_time add deadline now;
          if time \<le> now then Some (g1, Inl InvalidScheduledTime)
          else do {
            q \<leftarrow> pq_insert (time, origin_id) action (sched_queue g1);
            Some (g1\<lparr>sched_queue := q\<rparr>, Inr event_key)
          } }"

definition schedule_periodic_event_from ::
  "('t::linorder \<Rightarrow> duration \<Rightarrow> 't option) \<Rightarrow> 't deadline \<Rightarrow> duration \<Rightarrow> 'a \<Rightarrow> nat \<Rightarrow> ('t, 'a) sched \<Rightarrow>
   (('t, 'a) sched \<times> (scheduling_error + unit)) option"
where
  "schedule_periodic_event_from add deadline period ev origin_id g =
     (if period = 0 then Some (g, Inl NullRepetitionPeriod)
      else do {
        let action = PeriodicAction ev period;
        let now = sched_time g;
        time \<leftarrow> into_time add deadline now;
        if time \<le> now then Some (g, Inl InvalidScheduledTime)
        else do {
          q \<leftarrow> pq_insert (time, origin_id) action (sched_queue g);
          Some (g\<lparr>sched_queue := q\<rparr>, Inr ())
        } })"

definition schedule_keyed_periodic_event_from ::
  "('t::linorder \<Rightarrow> duration \<Rightarrow> 't option) \<Rightarrow> 't deadline \<Rightarrow> duration \<Rightarrow> 'a \<Rightarrow> nat \<Rightarrow> ('t, 'a) sched \<Rightarrow>
   (('t, 'a) sched \<times> (scheduling_error + action_key)) option"
where
  "schedule_keyed_periodic_event_from add deadline period ev origin_id g =
     (if period = 0 then Some (g, Inl NullRepetitionPeriod)
      else do {
        let (flags, event_key) = action_key_new (sched_flags g);
        let g1 = g\<lparr>sched_flags := flags\<rparr>;
        let action = KeyedPeriodicAction ev period event_key;
        let now = sched_time g1;
        time \<leftarrow> into_time add deadline now;
        if time \<le> now then Some (g1, Inl InvalidScheduledTime)
        else do {
          q \<leftarrow> pq_insert (time, origin_id) action (sched_queue g1);
          Some (g1\<lparr>sched_queue := q\<rparr>, Inr event_key)
        } })"

definition sched_halt :: "('t, 'a) sched \<Rightarrow> ('t, 'a) sched" where
  "sched_halt g = g\<lparr>sched_halted := True\<rparr>"

text \<open>\<open>Scheduler::schedule\<close>: any action, periodic or not, from the global scheduler.\<close>

definition scheduler_schedule ::
  "('t::linorder \<Rightarrow> duration \<Rightarrow> 't option) \<Rightarrow> 't deadline \<Rightarrow> 'a action \<Rightarrow> ('t, 'a) sched \<Rightarrow>
   (('t, 'a) sched \<times> (scheduling_error + unit)) option"
where
  "scheduler_schedule add deadline action = schedule_from add deadline action GLOBAL_SCHEDULER_ORIGIN_ID"

section \<open>Calls\<close>

text \<open>
  What a model or another thread can do to the scheduler: one of the operations above,
  from an origin, or a cancellation through a key it holds.
\<close>

datatype ('t, 'a) sched_call =
    CallSchedule "'t deadline" "'a action" nat
  | CallEvent "'t deadline" 'a nat
  | CallKeyedEvent "'t deadline" 'a nat
  | CallPeriodic "'t deadline" duration 'a nat
  | CallKeyedPeriodic "'t deadline" duration 'a nat
  | CallCancel action_key
  | CallHalt

fun perform_call ::
  "('t::linorder \<Rightarrow> duration \<Rightarrow> 't option) \<Rightarrow> ('t, 'a) sched_call \<Rightarrow> ('t, 'a) sched \<Rightarrow> ('t, 'a) sched option"
where
  "perform_call add (CallSchedule d a o_id) g = map_option fst (schedule_from add d a o_id g)"
| "perform_call add (CallEvent d ev o_id) g = map_option fst (schedule_event_from add d ev o_id g)"
| "perform_call add (CallKeyedEvent d ev o_id) g = map_option fst (schedule_keyed_event_from add d ev o_id g)"
| "perform_call add (CallPeriodic d p ev o_id) g = map_option fst (schedule_periodic_event_from add d p ev o_id g)"
| "perform_call add (CallKeyedPeriodic d p ev o_id) g =
     map_option fst (schedule_keyed_periodic_event_from add d p ev o_id g)"
| "perform_call add (CallCancel k) g = Some (g\<lparr>sched_flags := key_cancel k (sched_flags g)\<rparr>)"
| "perform_call add CallHalt g = Some (sched_halt g)"

text \<open>
  The calls made during a run of the executor. A call that panics unwinds the model that
  made it, leaves the queue unchanged and ends the run.
\<close>

fun perform_calls ::
  "('t::linorder \<Rightarrow> duration \<Rightarrow> 't option) \<Rightarrow> ('t, 'a) sched_call list \<Rightarrow> ('t, 'a) sched \<Rightarrow> ('t, 'a) sched"
where
  "perform_calls add [] g = g"
| "perform_calls add (c # cs) g =
     (case perform_call add c g of None \<Rightarrow> g | Some g' \<Rightarrow> perform_calls add cs g')"

section \<open>Invariant\<close>

abbreviation entry_time :: "(('t \<times> nat) \<times> 'a action) \<Rightarrow> 't" where
  "entry_time e \<equiv> fst (fst e)"

text \<open>No action is pending at or before the current time.\<close>

definition sched_inv :: "('t::linorder, 'a) sched \<Rightarrow> bool" where
  "sched_inv g \<longleftrightarrow>
     pq_inv (sched_queue g) \<and> (\<forall>e \<in> set (pq_entries (sched_queue g)). sched_time g < entry_time e)"

fun positive_period :: "'a action \<Rightarrow> bool" where
  "positive_period (OnceAction _) = True"
| "positive_period (PeriodicAction _ p) = (0 < p)"
| "positive_period (KeyedOnceAction _ _) = True"
| "positive_period (KeyedPeriodicAction _ p _) = (0 < p)"

definition positive_periods :: "('t::linorder, 'a) sched \<Rightarrow> bool" where
  "positive_periods g \<longleftrightarrow> (\<forall>e \<in> set (pq_entries (sched_queue g)). positive_period (snd e))"

fun call_positive :: "('t, 'a) sched_call \<Rightarrow> bool" where
  "call_positive (CallSchedule _ a _) = positive_period a"
| "call_positive _ = True"

section \<open>Every call keeps the invariant\<close>

lemmas sched_defs = schedule_from_def schedule_event_from_def schedule_keyed_event_from_def
  schedule_periodic_event_from_def schedule_keyed_periodic_event_from_def

text \<open>The common tail of the operations: an insertion strictly in the future.\<close>

lemma sched_insert_inv:
  assumes "sched_inv g" "sched_time g < time" "pq_insert (time, o_id) action (sched_queue g) = Some q"
  shows "sched_inv (g\<lparr>sched_queue := q\<rparr>)"
    "pq_entries q = fifo_insert (time, o_id) action (pq_entries (sched_queue g))"
    "positive_periods g \<Longrightarrow> positive_period action \<Longrightarrow> positive_periods (g\<lparr>sched_queue := q\<rparr>)"
proof -
  have inv: "pq_inv (sched_queue g)" using assms(1) by (simp add: sched_inv_def)
  show e: "pq_entries q = fifo_insert (time, o_id) action (pq_entries (sched_queue g))"
    using pq_entries_insert [OF inv assms(3)] .
  show "sched_inv (g\<lparr>sched_queue := q\<rparr>)"
    using assms(1,2) pq_inv_insert [OF inv assms(3)] e by (auto simp: sched_inv_def)
  show "positive_periods g \<Longrightarrow> positive_period action \<Longrightarrow> positive_periods (g\<lparr>sched_queue := q\<rparr>)"
    using e by (auto simp: positive_periods_def)
qed

lemma sched_flags_irrelevant [simp]:
  "sched_inv (g\<lparr>sched_flags := f\<rparr>) = sched_inv g"
  "sched_inv (g\<lparr>sched_halted := h\<rparr>) = sched_inv g"
  "positive_periods (g\<lparr>sched_flags := f\<rparr>) = positive_periods g"
  "positive_periods (g\<lparr>sched_halted := h\<rparr>) = positive_periods g"
  by (simp_all add: sched_inv_def positive_periods_def)

lemma perform_call_inv:
  assumes "sched_inv g" "perform_call add c g = Some g'"
  shows "sched_inv g' \<and> sched_time g' = sched_time g"
proof (cases c)
  case (CallKeyedEvent d ev o_id)
  then show ?thesis using assms sched_insert_inv(1) [of "g\<lparr>sched_flags := f\<rparr>" for f]
    by (auto simp: sched_defs bind_eq_Some_conv Let_def not_le split: prod.splits if_splits)
next
  case (CallKeyedPeriodic d p ev o_id)
  then show ?thesis using assms sched_insert_inv(1) [of "g\<lparr>sched_flags := f\<rparr>" for f]
    by (auto simp: sched_defs bind_eq_Some_conv Let_def not_le split: prod.splits if_splits)
qed (use assms in \<open>auto simp: sched_defs sched_halt_def bind_eq_Some_conv Let_def not_le
      split: if_splits intro: sched_insert_inv(1)\<close>)

lemma perform_call_positive:
  assumes "sched_inv g" "positive_periods g" "call_positive c" "perform_call add c g = Some g'"
  shows "positive_periods g'"
proof (cases c)
  case (CallKeyedEvent d ev o_id)
  then show ?thesis using assms sched_insert_inv(3) [of "g\<lparr>sched_flags := f\<rparr>" for f]
    by (auto simp: sched_defs bind_eq_Some_conv Let_def not_le split: prod.splits if_splits)
next
  case (CallKeyedPeriodic d p ev o_id)
  then show ?thesis using assms sched_insert_inv(3) [of "g\<lparr>sched_flags := f\<rparr>" for f]
    by (auto simp: sched_defs bind_eq_Some_conv Let_def not_le split: prod.splits if_splits)
qed (use assms in \<open>auto simp: sched_defs sched_halt_def bind_eq_Some_conv Let_def not_le
      split: if_splits intro: sched_insert_inv(3)\<close>)

lemma perform_calls_inv:
  "sched_inv g \<Longrightarrow> sched_inv (perform_calls add cs g) \<and> sched_time (perform_calls add cs g) = sched_time g"
proof (induction cs arbitrary: g)
  case (Cons c cs)
  show ?case
  proof (cases "perform_call add c g")
    case (Some g1)
    then have "sched_inv g1" "sched_time g1 = sched_time g"
      using perform_call_inv [OF Cons.prems] by auto
    then show ?thesis using Cons.IH Some by simp
  qed (use Cons.prems in simp)
qed simp

lemma perform_calls_positive:
  "sched_inv g \<Longrightarrow> positive_periods g \<Longrightarrow> \<forall>c \<in> set cs. call_positive c \<Longrightarrow>
   positive_periods (perform_calls add cs g)"
proof (induction cs arbitrary: g)
  case (Cons c cs)
  show ?case
  proof (cases "perform_call add c g")
    case (Some g1)
    then have "sched_inv g1" "positive_periods g1"
      using perform_call_inv [OF Cons.prems(1)] perform_call_positive [OF Cons.prems(1,2)] Cons.prems(3) by auto
    then show ?thesis using Cons.IH Some Cons.prems(3) by simp
  qed (use Cons.prems in simp)
qed simp

section \<open>Cancellation\<close>

lemma key_cancel_cancelled: "k < length flags \<Longrightarrow> key_is_cancelled (key_cancel k flags) k"
  by (simp add: key_is_cancelled_def key_cancel_def)

lemma key_cancel_mono: "key_is_cancelled flags k \<Longrightarrow> key_is_cancelled (key_cancel j flags) k"
  by (cases "j = k") (auto simp: key_is_cancelled_def key_cancel_def)

lemma perform_call_cancelled:
  assumes "key_is_cancelled (sched_flags g) k" "perform_call add c g = Some g'"
  shows "key_is_cancelled (sched_flags g') k"
  using assms
proof (cases c)
  case (CallCancel j)
  then show ?thesis using assms by (auto intro: key_cancel_mono)
qed (use assms in \<open>auto simp: sched_defs sched_halt_def action_key_new_def key_is_cancelled_def
      bind_eq_Some_conv Let_def nth_append split: prod.splits if_splits\<close>)

lemma perform_calls_cancelled:
  "key_is_cancelled (sched_flags g) k \<Longrightarrow> key_is_cancelled (sched_flags (perform_calls add cs g)) k"
proof (induction cs arbitrary: g)
  case (Cons c cs)
  then show ?case
    by (cases "perform_call add c g") (auto dest: perform_call_cancelled)
qed simp

end
