(* ===== verification/Simulation.thy ===== *)
theory Simulation
  imports Scheduler
begin

text \<open>
  The simulation loop of \<open>simulation.rs\<close>: \<open>step_to_next\<close> moves the time to the next
  scheduled action, spawns the actions of that time (those with the same origin in one
  sequential future) and runs the executor; \<open>step_until\<close> repeats it up to a target time.

  User code enters as the record \<open>env\<close>: the addition and the maximum of the time type,
  the clock, the number of messages in an observed mailbox, and a run of the executor,
  which for the spawned tasks and the current world gives the calls the models make to
  the scheduler, the next world and the outcome. The calls are performed by the
  operations of \<open>Scheduler\<close>, so that models affect the queue through them only.

  A step is an \<open>outcome\<close>: a result, a panic, or \<open>OutOfFuel\<close> when the loop over the
  actions of the current time did not end within the given number of turns.
\<close>

section \<open>Errors and state\<close>

datatype 'r outcome = Done 'r | Panicked | OutOfFuel

datatype 'p payload = SendErrorPayload | OtherPayload 'p

datatype 'p executor_error =
    UnprocessedMessages nat
  | ExecTimeout
  | ExecPanic "nat option" "'p payload"

type_synonym deadlock_info = "string \<times> nat"

datatype ('t, 'p) execution_error =
    Halted
  | Terminated
  | Deadlock "deadlock_info list"
  | MessageLoss nat
  | NoRecipient "string option"
  | PanicError string "'p payload"
  | Timeout
  | OutOfSync duration
  | BadQuery
  | InvalidDeadline 't

datatype sync_status = Synchronized | SyncLost duration

text \<open>A spawned task: one future, or a \<open>SeqFuture\<close> of several.\<close>

datatype 'a task = Single "'a fut" | Sequence "'a fut list"

record ('t, 'a, 'w, 'p) env =
  env_add :: "'t \<Rightarrow> duration \<Rightarrow> 't option"
  env_max :: 't
  env_sync :: "'t \<Rightarrow> 'w \<Rightarrow> sync_status \<times> 'w"
  env_mailbox_len :: "'w \<Rightarrow> nat \<Rightarrow> nat"
  env_exec :: "duration \<Rightarrow> ('t, 'a) sched \<Rightarrow> 'a task list \<Rightarrow> 'w \<Rightarrow>
    ('t, 'a) sched_call list \<times> 'w \<times> 'p executor_error option"

record ('t, 'a, 'w) simulation =
  sim_sched :: "('t, 'a) sched"
  sim_tasks :: "'a task list"
  sim_world :: 'w
  sim_clock_tolerance :: "duration option"
  sim_timeout :: duration
  sim_observers :: "(string \<times> nat) list"
  sim_model_names :: "string list"
  sim_is_terminated :: bool

section \<open>Running the executor\<close>

definition deadlock_infos :: "('w \<Rightarrow> nat \<Rightarrow> nat) \<Rightarrow> 'w \<Rightarrow> (string \<times> nat) list \<Rightarrow> deadlock_info list" where
  "deadlock_infos mailbox_len w observers =
     filter (\<lambda>(_, size). size \<noteq> 0) (map (\<lambda>(model, mb). (model, mailbox_len w mb)) observers)"

text \<open>
  The translation of an executor error; a panic outside of a model is propagated, as is
  the lookup of a model name that does not exist.
\<close>

definition map_executor_error ::
  "('w \<Rightarrow> nat \<Rightarrow> nat) \<Rightarrow> ('t, 'a, 'w) simulation \<Rightarrow> 'p executor_error \<Rightarrow> ('t, 'p) execution_error option"
where
  "map_executor_error mailbox_len s e =
     (case e of
        UnprocessedMessages msg_count \<Rightarrow>
          (let info = deadlock_infos mailbox_len (sim_world s) (sim_observers s) in
           Some (if info = [] then MessageLoss msg_count else Deadlock info))
      | ExecTimeout \<Rightarrow> Some Timeout
      | ExecPanic model_id payload \<Rightarrow>
          do { model \<leftarrow> (case model_id of
                           None \<Rightarrow> Some None
                         | Some i \<Rightarrow> map_option Some (vec_get (sim_model_names s) i));
               (case payload of
                  SendErrorPayload \<Rightarrow> Some (NoRecipient model)
                | OtherPayload _ \<Rightarrow>
                    (case model of
                       Some m \<Rightarrow> Some (PanicError m payload)
                     | None \<Rightarrow> None)) })"

definition sim_run ::
  "('t::linorder, 'a, 'w, 'p) env \<Rightarrow> ('t, 'a, 'w) simulation \<Rightarrow>
   (('t, 'a, 'w) simulation \<times> (('t, 'p) execution_error + unit)) option"
where
  "sim_run E s =
     (if sim_is_terminated s then Some (s, Inl Terminated)
      else if sched_halted (sim_sched s) then Some (s\<lparr>sim_is_terminated := True\<rparr>, Inl Halted)
      else
        let (calls, w, r) = env_exec E (sim_timeout s) (sim_sched s) (sim_tasks s) (sim_world s) in
        let s1 = s\<lparr>sim_sched := perform_calls (env_add E) calls (sim_sched s), sim_tasks := [],
                     sim_world := w\<rparr> in
        case r of
          None \<Rightarrow> Some (s1, Inr ())
        | Some e \<Rightarrow>
            do { x \<leftarrow> map_executor_error (env_mailbox_len E) s1 e;
                 Some (s1\<lparr>sim_is_terminated := True\<rparr>, Inl x) })"

section \<open>Moving to the next time\<close>

definition pull_next_action ::
  "('t::linorder \<Rightarrow> duration \<Rightarrow> 't option) \<Rightarrow> ('t, 'a) scheduler_queue \<Rightarrow>
   (('t, 'a) scheduler_queue \<times> 'a action) option"
where
  "pull_next_action add q =
     (case pq_pull q of
        (_, None) \<Rightarrow> None
      | (q1, Some ((time, channel_id), action)) \<Rightarrow>
          (case action_next action of
             None \<Rightarrow> Some (q1, action)
           | Some (action_clone, period) \<Rightarrow>
               do { t \<leftarrow> add time period;
                    q2 \<leftarrow> pq_insert (t, channel_id) action_clone q1;
                    Some (q2, action) }))"

text \<open>Cancelled actions are discarded until a live one, or one past the bound, is first.\<close>

function peek_next_key ::
  "bool list \<Rightarrow> 't::linorder \<Rightarrow> ('t, 'a) scheduler_queue \<Rightarrow> ('t, 'a) scheduler_queue \<times> ('t \<times> nat) option"
where
  "peek_next_key flags bound q =
     (case pq_peek q of
        None \<Rightarrow> (q, None)
      | Some (key, action) \<Rightarrow>
          if fst key \<le> bound then
            if \<not> action_is_cancelled flags action then (q, Some key)
            else peek_next_key flags bound (fst (pq_pull q))
          else (q, None))"
  by pat_completeness auto
termination
  by (relation "measure (\<lambda>(flags, bound, q). length (pq_heap q))")
     (auto simp: pq_peek_def pq_pull_def bh_pop_def length_remove1
       dest: bh_peek_rank length_pos_if_in_set split: option.splits)

text \<open>The inner loop: the actions with the same key, gathered in one sequence.\<close>

fun seq_loop ::
  "('t::linorder \<Rightarrow> duration \<Rightarrow> 't option) \<Rightarrow> bool list \<Rightarrow> 't \<Rightarrow> 't \<times> nat \<Rightarrow> nat \<Rightarrow>
   ('t, 'a) scheduler_queue \<Rightarrow> 'a fut list \<Rightarrow>
   (('t, 'a) scheduler_queue \<times> 'a fut list \<times> ('t \<times> nat) option) outcome"
where
  "seq_loop add flags bound key 0 q acc = OutOfFuel"
| "seq_loop add flags bound key (Suc n) q acc =
     (case pull_next_action add q of
        None \<Rightarrow> Panicked
      | Some (q1, action) \<Rightarrow>
          (let acc1 = acc @ [into_future action];
               (q2, next_key) = peek_next_key flags bound q1 in
           if next_key \<noteq> Some key then Done (q2, acc1, next_key)
           else seq_loop add flags bound key n q2 acc1))"

text \<open>The outer loop: all the actions of the current time, in the order of their origins.\<close>

fun spawn_loop ::
  "('t::linorder \<Rightarrow> duration \<Rightarrow> 't option) \<Rightarrow> bool list \<Rightarrow> 't \<Rightarrow> 't \<times> nat \<Rightarrow> nat \<Rightarrow>
   ('t, 'a) scheduler_queue \<Rightarrow> 'a task list \<Rightarrow> (('t, 'a) scheduler_queue \<times> 'a task list) outcome"
where
  "spawn_loop add flags bound key 0 q tasks = OutOfFuel"
| "spawn_loop add flags bound key (Suc n) q tasks =
     (case pull_next_action add q of
        None \<Rightarrow> Panicked
      | Some (q1, action) \<Rightarrow>
          (let (q2, next_key) = peek_next_key flags bound q1 in
           case (if next_key \<noteq> Some key then Done (q2, Single (into_future action), next_key)
                 else case seq_loop add flags bound key n q2 [into_future action] of
                        Done (q3, futs, nk) \<Rightarrow> Done (q3, Sequence futs, nk)
                      | Panicked \<Rightarrow> Panicked
                      | OutOfFuel \<Rightarrow> OutOfFuel) of
             Done (q3, task, nk) \<Rightarrow>
               (case nk of
                  Some k \<Rightarrow>
                    if fst k = fst key then spawn_loop add flags bound k n q3 (tasks @ [task])
                    else Done (q3, tasks @ [task])
                | None \<Rightarrow> Done (q3, tasks @ [task]))
           | Panicked \<Rightarrow> Panicked
           | OutOfFuel \<Rightarrow> OutOfFuel))"

text \<open>The clock synchronization shared by both loops; \<open>Some lag\<close> is a loss of synchronization.\<close>

definition synchronize ::
  "('t, 'a, 'w, 'p) env \<Rightarrow> 't \<Rightarrow> ('t, 'a, 'w) simulation \<Rightarrow> ('t, 'a, 'w) simulation \<times> duration option"
where
  "synchronize E t s =
     (let (st, w) = env_sync E t (sim_world s); s1 = s\<lparr>sim_world := w\<rparr> in
      case st of
        Synchronized \<Rightarrow> (s1, None)
      | SyncLost lag \<Rightarrow>
          (case sim_clock_tolerance s of
             None \<Rightarrow> (s1, None)
           | Some tolerance \<Rightarrow>
               if tolerance < lag then (s1\<lparr>sim_is_terminated := True\<rparr>, Some lag) else (s1, None)))"

definition step_to_next ::
  "('t::linorder, 'a, 'w, 'p) env \<Rightarrow> nat \<Rightarrow> 't option \<Rightarrow> ('t, 'a, 'w) simulation \<Rightarrow>
   (('t, 'a, 'w) simulation \<times> (('t, 'p) execution_error + 't option)) outcome"
where
  "step_to_next E fuel upper_time_bound s =
     (let g = sim_sched s in
      if sim_is_terminated s then Done (s, Inl Terminated)
      else if sched_halted g then Done (s\<lparr>sim_is_terminated := True\<rparr>, Inl Halted)
      else
        let bound = (case upper_time_bound of None \<Rightarrow> env_max E | Some t \<Rightarrow> t);
            (q, key) = peek_next_key (sched_flags g) bound (sched_queue g) in
        case key of
          None \<Rightarrow> Done (s\<lparr>sim_sched := g\<lparr>sched_queue := q\<rparr>\<rparr>, Inr None)
        | Some current_key \<Rightarrow>
            (case spawn_loop (env_add E) (sched_flags g) bound current_key fuel q (sim_tasks s) of
               Panicked \<Rightarrow> Panicked
             | OutOfFuel \<Rightarrow> OutOfFuel
             | Done (q1, tasks) \<Rightarrow>
                 (let current_time = fst current_key;
                      s1 = s\<lparr>sim_sched := g\<lparr>sched_time := current_time, sched_queue := q1\<rparr>, sim_tasks := tasks\<rparr>
                  in case synchronize E current_time s1 of
                       (s2, Some lag) \<Rightarrow> Done (s2, Inl (OutOfSync lag))
                     | (s2, None) \<Rightarrow>
                         (case sim_run E s2 of
                            None \<Rightarrow> Panicked
                          | Some (s3, Inl e) \<Rightarrow> Done (s3, Inl e)
                          | Some (s3, Inr _) \<Rightarrow> Done (s3, Inr (Some current_time))))))"

text \<open>
  The end of \<open>step_until_unchecked\<close>, when no action is left up to the target: the time is
  moved to the target. The queue's mutex is not held at this point.
\<close>

definition finish_until ::
  "('t, 'a, 'w, 'p) env \<Rightarrow> 't option \<Rightarrow> ('t, 'a, 'w) simulation \<Rightarrow>
   ('t, 'a, 'w) simulation \<times> (('t, 'p) execution_error + unit)"
where
  "finish_until E target_time s =
     (case target_time of
        None \<Rightarrow> (s, Inr ())
      | Some t \<Rightarrow>
          (let s1 = s\<lparr>sim_sched := (sim_sched s)\<lparr>sched_time := t\<rparr>\<rparr> in
           case synchronize E t s1 of
             (s2, Some lag) \<Rightarrow> (s2, Inl (OutOfSync lag))
           | (s2, None) \<Rightarrow> (s2, Inr ())))"

fun step_until_unchecked ::
  "('t::linorder, 'a, 'w, 'p) env \<Rightarrow> nat \<Rightarrow> nat \<Rightarrow> 't option \<Rightarrow> ('t, 'a, 'w) simulation \<Rightarrow>
   (('t, 'a, 'w) simulation \<times> (('t, 'p) execution_error + unit)) outcome"
where
  "step_until_unchecked E 0 fuel target_time s = OutOfFuel"
| "step_until_unchecked E (Suc n) fuel target_time s =
     (case step_to_next E fuel target_time s of
        Panicked \<Rightarrow> Panicked
      | OutOfFuel \<Rightarrow> OutOfFuel
      | Done (s1, Inl e) \<Rightarrow> Done (s1, Inl e)
      | Done (s1, Inr time) \<Rightarrow>
          if time = target_time then Done (s1, Inr ())
          else if time = None then Done (finish_until E target_time s1)
          else step_until_unchecked E n fuel target_time s1)"

definition step_until ::
  "('t::linorder, 'a, 'w, 'p) env \<Rightarrow> nat \<Rightarrow> nat \<Rightarrow> 't deadline \<Rightarrow> ('t, 'a, 'w) simulation \<Rightarrow>
   (('t, 'a, 'w) simulation \<times> (('t, 'p) execution_error + unit)) outcome"
where
  "step_until E steps fuel deadline s =
     (let now = sched_time (sim_sched s) in
      case into_time (env_add E) deadline now of
        None \<Rightarrow> Panicked
      | Some target_time \<Rightarrow>
          if target_time < now then Done (s, Inl (InvalidDeadline target_time))
          else step_until_unchecked E steps fuel (Some target_time) s)"

definition step_unbounded ::
  "('t::linorder, 'a, 'w, 'p) env \<Rightarrow> nat \<Rightarrow> nat \<Rightarrow> ('t, 'a, 'w) simulation \<Rightarrow>
   (('t, 'a, 'w) simulation \<times> (('t, 'p) execution_error + unit)) outcome"
where
  "step_unbounded E steps fuel s = step_until_unchecked E steps fuel None s"

definition step ::
  "('t::linorder, 'a, 'w, 'p) env \<Rightarrow> nat \<Rightarrow> ('t, 'a, 'w) simulation \<Rightarrow>
   (('t, 'a, 'w) simulation \<times> (('t, 'p) execution_error + unit)) outcome"
where
  "step E fuel s =
     (case step_to_next E fuel None s of
        Panicked \<Rightarrow> Panicked
      | OutOfFuel \<Rightarrow> OutOfFuel
      | Done (s1, Inl e) \<Rightarrow> Done (s1, Inl e)
      | Done (s1, Inr _) \<Rightarrow> Done (s1, Inr ()))"

definition sim_process ::
  "('t::linorder, 'a, 'w, 'p) env \<Rightarrow> 'a action \<Rightarrow> ('t, 'a, 'w) simulation \<Rightarrow>
   (('t, 'a, 'w) simulation \<times> (('t, 'p) execution_error + unit)) option"
where
  "sim_process E action s = sim_run E (s\<lparr>sim_tasks := sim_tasks s @ [Single (into_future action)]\<rparr>)"

definition sim_process_event ::
  "('t::linorder, 'a, 'w, 'p) env \<Rightarrow> 'a \<Rightarrow> ('t, 'a, 'w) simulation \<Rightarrow>
   (('t, 'a, 'w) simulation \<times> (('t, 'p) execution_error + unit)) option"
where
  "sim_process_event E ev s = sim_run E (s\<lparr>sim_tasks := sim_tasks s @ [Single (ProcessEvent ev)]\<rparr>)"

text \<open>A query reads the reply slot after the run; \<open>read_reply\<close> is the reader of that slot.\<close>

definition sim_process_query ::
  "('t::linorder, 'a, 'w, 'p) env \<Rightarrow> ('w \<Rightarrow> 'r option) \<Rightarrow> 'a \<Rightarrow> ('t, 'a, 'w) simulation \<Rightarrow>
   (('t, 'a, 'w) simulation \<times> (('t, 'p) execution_error + 'r)) option"
where
  "sim_process_query E read_reply ev s =
     do { (s1, r) \<leftarrow> sim_run E (s\<lparr>sim_tasks := sim_tasks s @ [Single (ProcessEvent ev)]\<rparr>);
          (case r of
             Inl e \<Rightarrow> Some (s1, Inl e)
           | Inr _ \<Rightarrow>
               (case read_reply (sim_world s1) of
                  None \<Rightarrow> Some (s1, Inl BadQuery)
                | Some x \<Rightarrow> Some (s1, Inr x))) }"

end
