(* ===== verification/Simulation_Steps.thy ===== *)
theory Simulation_Steps
  imports Simulation
begin

text \<open>
  What a step does to the queue, stated on the list of its entries: cancelled entries at
  the front are discarded, the live entries of the earliest time are spawned in groups of
  the same origin, and the periodic ones among them are put back at their next time.
  The lemmas show that the loops of \<open>Simulation\<close> compute exactly this when every
  repetition period leads to a later time, and then end.
\<close>

section \<open>A step on the list of entries\<close>

type_synonym ('t, 'a) entry = "('t \<times> nat) \<times> 'a action"

abbreviation live :: "bool list \<Rightarrow> ('t, 'a) entry \<Rightarrow> bool" where
  "live flags e \<equiv> \<not> action_is_cancelled flags (snd e)"

definition discard :: "bool list \<Rightarrow> 't::linorder \<Rightarrow> ('t, 'a) entry list \<Rightarrow> ('t, 'a) entry list" where
  "discard flags bound es = dropWhile (\<lambda>e. entry_time e \<le> bound \<and> action_is_cancelled flags (snd e)) es"

definition first_key :: "'t::linorder \<Rightarrow> ('t, 'a) entry list \<Rightarrow> ('t \<times> nat) option" where
  "first_key bound es = (case es of [] \<Rightarrow> None | e # _ \<Rightarrow> if entry_time e \<le> bound then Some (fst e) else None)"

text \<open>The entry of the next occurrence of an action.\<close>

fun next_entry :: "('t \<Rightarrow> duration \<Rightarrow> 't option) \<Rightarrow> ('t, 'a) entry \<Rightarrow> ('t, 'a) entry option" where
  "next_entry add ((t, o_id), a) =
     (case action_next a of
        None \<Rightarrow> None
      | Some (a', p) \<Rightarrow> map_option (\<lambda>t'. ((t', o_id), a')) (add t p))"

definition resched ::
  "('t::linorder \<Rightarrow> duration \<Rightarrow> 't option) \<Rightarrow> ('t, 'a) entry \<Rightarrow> ('t, 'a) entry list \<Rightarrow> ('t, 'a) entry list"
where
  "resched add e es = (case next_entry add e of None \<Rightarrow> es | Some (k, a) \<Rightarrow> fifo_insert k a es)"

text \<open>The next occurrence, if the action is periodic, exists and is strictly later.\<close>

definition advances :: "('t::linorder \<Rightarrow> duration \<Rightarrow> 't option) \<Rightarrow> ('t, 'a) entry \<Rightarrow> bool" where
  "advances add e \<longleftrightarrow>
     (case action_next (snd e) of
        None \<Rightarrow> True
      | Some (_, p) \<Rightarrow> (case add (entry_time e) p of None \<Rightarrow> False | Some t' \<Rightarrow> entry_time e < t'))"

text \<open>Maximal runs of entries with the same key, and the task spawned for a run.\<close>

function runs :: "('k \<times> 'v) list \<Rightarrow> ('k \<times> 'v) list list" where
  "runs [] = []"
| "runs (e # es) = (e # takeWhile (\<lambda>x. fst x = fst e) es) # runs (dropWhile (\<lambda>x. fst x = fst e) es)"
  by pat_completeness auto
termination
  by (relation "measure length") (auto simp: le_imp_less_Suc length_dropWhile_le)

fun group_task :: "('t, 'a) entry list \<Rightarrow> 'a task" where
  "group_task [e] = Single (into_future (snd e))"
| "group_task es = Sequence (map (\<lambda>e. into_future (snd e)) es)"

text \<open>
  The state of the loops between two turns at time \<open>t\<close>: \<open>L\<close> are the live entries of this
  time still in the queue, \<open>B\<close> the entries of later times.
\<close>

definition turn ::
  "bool list \<Rightarrow> 't::linorder \<Rightarrow> 't \<Rightarrow> ('t, 'a) scheduler_queue \<Rightarrow> ('t \<times> nat) option \<Rightarrow>
   ('t, 'a) entry list \<Rightarrow> ('t, 'a) entry list \<Rightarrow> bool"
where
  "turn flags bound t q nk L B \<longleftrightarrow>
     pq_inv q \<and> (\<forall>e \<in> set B. t < entry_time e) \<and>
     (if L = [] then pq_entries q = discard flags bound B \<and> (\<forall>k. nk = Some k \<longrightarrow> fst k \<noteq> t)
      else \<exists>A. pq_entries q = A @ B \<and> (\<forall>e \<in> set A. entry_time e = t) \<and> A \<noteq> [] \<and> live flags (hd A) \<and>
             L = filter (live flags) A \<and> nk = Some (fst (hd A)))"

text \<open>
  What the simulation relies on about the addition of the time type: adding a duration
  never goes back in time, and adding a positive one goes forward.
\<close>

definition add_forward :: "('t::linorder \<Rightarrow> duration \<Rightarrow> 't option) \<Rightarrow> bool" where
  "add_forward add \<longleftrightarrow>
     (\<forall>t d t'. add t d = Some t' \<longrightarrow> t \<le> t') \<and> (\<forall>t d t'. 0 < d \<longrightarrow> add t d = Some t' \<longrightarrow> t < t')"

text \<open>The queue after a key was peeked, all its entries being at \<open>t\<close> or later.\<close>

definition after_peek :: "'t::linorder \<Rightarrow> 't \<Rightarrow> ('t, 'a) scheduler_queue \<Rightarrow> ('t \<times> nat) option \<Rightarrow> bool" where
  "after_peek bound t q nk \<longleftrightarrow>
     pq_inv q \<and> (\<forall>e \<in> set (pq_entries q). t \<le> entry_time e) \<and> nk = first_key bound (pq_entries q)"

definition count_at :: "'t \<Rightarrow> ('t::linorder, 'a) scheduler_queue \<Rightarrow> nat" where
  "count_at t q = length (filter (\<lambda>e. entry_time e = t) (pq_entries q))"

section \<open>Discarding and pulling\<close>

declare peek_next_key.simps [simp del]

lemma peek_next_key_correct:
  assumes "pq_inv q"
  shows "\<exists>q'. peek_next_key flags bound q = (q', first_key bound (discard flags bound (pq_entries q))) \<and>
    pq_inv q' \<and> pq_room q' = pq_room q \<and> pq_entries q' = discard flags bound (pq_entries q)"
  using assms
proof (induction flags bound q rule: peek_next_key.induct)
  case (1 flags bound q)
  note peek = pq_peek_law [OF "1.prems"]
  show ?case
  proof (cases "pq_entries q")
    case Nil
    then show ?thesis using peek "1.prems"
      by (simp add: peek_next_key.simps [of flags bound q] discard_def first_key_def)
  next
    case (Cons e es)
    obtain k a where e: "e = (k, a)" by (cases e)
    have pk: "pq_peek q = Some (k, a)" using peek Cons e by simp
    show ?thesis
    proof (cases "fst k \<le> bound \<and> action_is_cancelled flags a")
      case False
      then show ?thesis using pk "1.prems" Cons e
        by (auto simp: peek_next_key.simps [of flags bound q] discard_def first_key_def)
    next
      case True
      obtain q1 where q1: "pq_pull q = (q1, Some e)" "pq_inv q1" "pq_entries q1 = es" "pq_room q1 = pq_room q"
        using pq_pull_law [OF "1.prems"] Cons by auto
      have "peek_next_key flags bound q = peek_next_key flags bound q1"
        using pk True q1(1) by (simp add: peek_next_key.simps [of flags bound q])
      moreover have "discard flags bound (pq_entries q) = discard flags bound (pq_entries q1)"
        using Cons e True q1(3) by (simp add: discard_def)
      moreover have "\<exists>q'. peek_next_key flags bound q1 = (q', first_key bound (discard flags bound (pq_entries q1))) \<and>
          pq_inv q' \<and> pq_room q' = pq_room q1 \<and> pq_entries q' = discard flags bound (pq_entries q1)"
        using "1.IH" [OF pk refl _ _] True q1 by simp
      ultimately show ?thesis using q1(4) by simp
    qed
  qed
qed

lemma pull_next_action_correct:
  assumes inv: "pq_inv q" and es: "pq_entries q = e # es" and room: "0 < pq_room q" and adv: "advances add e"
  shows "\<exists>q'. pull_next_action add q = Some (q', snd e) \<and> pq_inv q' \<and> pq_room q \<le> Suc (pq_room q') \<and>
    pq_entries q' = resched add e es"
proof -
  obtain t o_id a where e: "e = ((t, o_id), a)" by (metis prod.collapse)
  obtain q1 where q1: "pq_pull q = (q1, Some e)" "pq_inv q1" "pq_entries q1 = es" "pq_room q1 = pq_room q"
    using pq_pull_law [OF inv] es by auto
  show ?thesis
  proof (cases "action_next a")
    case None
    then show ?thesis using q1 e by (simp add: pull_next_action_def resched_def)
  next
    case (Some x)
    obtain a' p where x: "x = (a', p)" by (cases x)
    obtain t' where t': "add t p = Some t'"
      using adv e Some x by (auto simp: advances_def split: option.splits)
    obtain q2 where q2: "pq_insert (t', o_id) a' q1 = Some q2" "pq_inv q2"
        "pq_entries q2 = fifo_insert (t', o_id) a' es" "Suc (pq_room q2) = pq_room q1"
      using pq.insert_law [OF q1(2), of "(t', o_id)" a'] room q1(3,4) by auto
    then show ?thesis using q1 e Some x t' by (simp add: pull_next_action_def resched_def)
  qed
qed

lemma fifo_insert_append:
  "\<forall>e \<in> set xs. fst e \<le> k \<Longrightarrow> fifo_insert k v (xs @ ys) = xs @ fifo_insert k v ys"
  by (induction xs) (auto simp: fifo_insert_Cons)

lemma resched_append:
  assumes "advances add e" "\<forall>x \<in> set A. entry_time x = entry_time e"
  shows "resched add e (A @ B) = A @ resched add e B"
proof (cases e)
  case (Pair k a)
  obtain t o_id where k: "k = (t, o_id)" by (cases k)
  show ?thesis
  proof (cases "action_next a")
    case None
    then show ?thesis using Pair k by (simp add: resched_def)
  next
    case (Some x)
    obtain a' p where x: "x = (a', p)" by (cases x)
    obtain t' where "add t p = Some t'" "t < t'"
      using assms(1) Pair k Some x by (auto simp: advances_def split: option.splits)
    moreover from this have "\<forall>y \<in> set A. fst y \<le> (t', o_id)"
      using assms(2) Pair k by (force simp: less_eq_prod_def)
    ultimately show ?thesis
      using Pair k Some x by (simp add: resched_def fifo_insert_append)
  qed
qed

lemma resched_later:
  assumes "advances add e" "entry_time e = t" "\<forall>x \<in> set B. t < entry_time x"
  shows "\<forall>x \<in> set (resched add e B). t < entry_time x"
  using assms by (cases e) (force simp: resched_def advances_def split: option.splits)

lemma discard_append:
  assumes "\<forall>e \<in> set A. entry_time e \<le> bound"
  shows "discard flags bound (A @ B) =
    (if filter (live flags) A = [] then discard flags bound B
     else dropWhile (\<lambda>e. \<not> live flags e) A @ B)"
  using assms by (induction A) (auto simp: discard_def)

lemma filter_dropWhile_not: "filter P (dropWhile (\<lambda>x. \<not> P x) xs) = filter P xs"
  by (induction xs) auto

text \<open>One turn of either loop: pull the first entry and look at what comes next.\<close>

lemma turn_step:
  assumes turn: "turn flags bound t q nk (e # L) B" and t: "t \<le> bound"
    and room: "0 < pq_room q" and adv: "advances add e"
  shows "nk = Some (fst e)" "entry_time e = t"
    "\<exists>q1 q2 nk'. pull_next_action add q = Some (q1, snd e) \<and> peek_next_key flags bound q1 = (q2, nk') \<and>
       pq_room q \<le> Suc (pq_room q2) \<and> turn flags bound t q2 nk' L (resched add e B)"
proof -
  obtain A where A: "pq_entries q = A @ B" "\<forall>x \<in> set A. entry_time x = t" "A \<noteq> []" "live flags (hd A)"
      "e # L = filter (live flags) A" "nk = Some (fst (hd A))"
    and inv: "pq_inv q" and B: "\<forall>x \<in> set B. t < entry_time x"
    using turn by (auto simp: turn_def)
  obtain A' where A': "A = e # A'" "L = filter (live flags) A'" using A(3-5) by (cases A) auto
  show et: "nk = Some (fst e)" "entry_time e = t" using A A' by auto
  obtain q1 where q1: "pull_next_action add q = Some (q1, snd e)" "pq_inv q1"
      "pq_room q \<le> Suc (pq_room q1)" "pq_entries q1 = A' @ resched add e B"
    using pull_next_action_correct [OF inv _ room adv, of "A' @ B"] A(1,2) A'(1) resched_append [OF adv, of A' B] et
    by auto
  obtain q2 where q2: "peek_next_key flags bound q1 =
      (q2, first_key bound (discard flags bound (A' @ resched add e B)))" "pq_inv q2"
      "pq_room q2 = pq_room q1" "pq_entries q2 = discard flags bound (A' @ resched add e B)"
    using peek_next_key_correct [OF q1(2), of flags bound] q1(4) by auto
  have later: "\<forall>x \<in> set (resched add e B). t < entry_time x"
    using resched_later [OF adv et(2) B] .
  have ds: "discard flags bound (A' @ resched add e B) =
      (if L = [] then discard flags bound (resched add e B)
       else dropWhile (\<lambda>x. \<not> live flags x) A' @ resched add e B)"
    using discard_append [of A' bound flags "resched add e B"] A A' t by auto
  have "turn flags bound t q2 (first_key bound (discard flags bound (A' @ resched add e B))) L (resched add e B)"
  proof (cases "L = []")
    case True
    have "t < entry_time x" if "x \<in> set (discard flags bound (resched add e B))" for x
      using that later by (auto simp: discard_def dest: set_dropWhileD)
    then have "fst k \<noteq> t" if "first_key bound (discard flags bound (resched add e B)) = Some k" for k
      using that by (force simp: first_key_def split: list.splits if_splits)
    then show ?thesis using True q2 later ds by (simp add: turn_def)
  next
    case False
    let ?D = "dropWhile (\<lambda>x. \<not> live flags x) A'"
    have D: "?D \<noteq> []" "live flags (hd ?D)" "filter (live flags) ?D = L" "\<forall>x \<in> set ?D. entry_time x = t"
      using False A A' filter_dropWhile_not [of "live flags" A']
        hd_dropWhile [of "\<lambda>x. \<not> live flags x" A']
      by (auto simp: filter_empty_conv dest: set_dropWhileD)
    then have "first_key bound (?D @ resched add e B) = Some (fst (hd ?D))"
      using t by (cases ?D) (auto simp: first_key_def)
    then show ?thesis
      using False q2 later ds D by (auto simp: turn_def intro!: exI [of _ ?D])
  qed
  then show "\<exists>q1 q2 nk'. pull_next_action add q = Some (q1, snd e) \<and> peek_next_key flags bound q1 = (q2, nk') \<and>
       pq_room q \<le> Suc (pq_room q2) \<and> turn flags bound t q2 nk' L (resched add e B)"
    using q1 q2 by auto
qed

section \<open>The loops\<close>

lemma turn_head:
  assumes "turn flags bound t q nk L B" "L \<noteq> []"
  shows "nk = Some (fst (hd L))" "entry_time (hd L) = t"
proof -
  obtain A where A: "A \<noteq> []" "live flags (hd A)" "L = filter (live flags) A" "nk = Some (fst (hd A))"
      "\<forall>e \<in> set A. entry_time e = t"
    using assms by (auto simp: turn_def)
  then have "hd L = hd A" by (cases A) auto
  then show "nk = Some (fst (hd L))" "entry_time (hd L) = t" using A by auto
qed

lemma turn_key:
  assumes "turn flags bound t q nk L B" "nk = Some k" "fst k = t"
  shows "L \<noteq> []" "fst (hd L) = k"
proof -
  show "L \<noteq> []" using assms by (auto simp: turn_def)
  then show "fst (hd L) = k" using turn_head [OF assms(1)] assms(2) by simp
qed

text \<open>When the next key differs, the run of the current key is over.\<close>

lemma turn_run_over:
  assumes "turn flags bound t q nk L B" "nk \<noteq> Some key"
  shows "takeWhile (\<lambda>e. fst e = key) L = []" "dropWhile (\<lambda>e. fst e = key) L = L"
  using turn_head(1) [OF assms(1)] assms(2) by (cases L; auto)+

lemma seq_loop_correct:
  assumes "turn flags bound t q (Some key) L B" "L \<noteq> []" "t \<le> bound"
    "length (takeWhile (\<lambda>e. fst e = key) L) \<le> n" "length L \<le> pq_room q" "\<forall>e \<in> set L. advances add e"
  shows "\<exists>q' nk. seq_loop add flags bound key n q acc =
      Done (q', acc @ map (\<lambda>e. into_future (snd e)) (takeWhile (\<lambda>e. fst e = key) L), nk) \<and>
    length (dropWhile (\<lambda>e. fst e = key) L) \<le> pq_room q' \<and>
    turn flags bound t q' nk (dropWhile (\<lambda>e. fst e = key) L)
      (fold (resched add) (takeWhile (\<lambda>e. fst e = key) L) B)"
  using assms
proof (induction n arbitrary: q L B acc)
  case 0
  then obtain e L' where L: "L = e # L'" by (cases L) auto
  then have "fst e = key"
    using turn_step(1) [OF _ "0.prems"(3), of flags q "Some key" e L' B add] 0 by auto
  then show ?case using 0 L by simp
next
  case (Suc n)
  obtain e L' where L: "L = e # L'" using Suc.prems(2) by (cases L) auto
  have room: "0 < pq_room q" and adv: "advances add e" using Suc.prems(5,6) L by auto
  note st = turn_step [OF Suc.prems(1) [unfolded L] Suc.prems(3) room adv]
  have key: "fst e = key" using st(1) by simp
  obtain q1 q2 nk where q2: "pull_next_action add q = Some (q1, snd e)" "peek_next_key flags bound q1 = (q2, nk)"
      "pq_room q \<le> Suc (pq_room q2)" "turn flags bound t q2 nk L' (resched add e B)"
    using st(3) by blast
  show ?case
  proof (cases "nk = Some key")
    case False
    then show ?thesis using turn_run_over [OF q2(4) False] q2 Suc.prems(5) L key by auto
  next
    case True
    have "fst key = t" using st(2) key by auto
    then have ne: "L' \<noteq> []" using turn_key [OF q2(4) True] by simp
    have "\<exists>q' nk'. seq_loop add flags bound key n q2 (acc @ [into_future (snd e)]) =
        Done (q', (acc @ [into_future (snd e)]) @ map (\<lambda>e. into_future (snd e)) (takeWhile (\<lambda>e. fst e = key) L'), nk') \<and>
      length (dropWhile (\<lambda>e. fst e = key) L') \<le> pq_room q' \<and>
      turn flags bound t q' nk' (dropWhile (\<lambda>e. fst e = key) L')
        (fold (resched add) (takeWhile (\<lambda>e. fst e = key) L') (resched add e B))"
      using Suc.prems(4,5,6) L key q2(3)
      by (intro Suc.IH [OF q2(4) [unfolded True] ne Suc.prems(3)]) auto
    then show ?thesis using q2(1,2) L key True by simp
  qed
qed

lemma spawn_loop_correct:
  assumes "turn flags bound t q (Some key) L B" "L \<noteq> []" "t \<le> bound" "fst key = t"
    "length L \<le> n" "length L \<le> pq_room q" "\<forall>e \<in> set L. advances add e"
  shows "\<exists>q'. spawn_loop add flags bound key n q tasks = Done (q', tasks @ map group_task (runs L)) \<and>
    pq_inv q' \<and> pq_entries q' = discard flags bound (fold (resched add) L B) \<and>
    (\<forall>e \<in> set (fold (resched add) L B). t < entry_time e)"
  using assms
proof (induction n arbitrary: q L B key tasks)
  case 0
  then show ?case by simp
next
  case (Suc n)
  obtain e L' where L: "L = e # L'" using Suc.prems(2) by (cases L) auto
  have room: "0 < pq_room q" and adv: "advances add e" using Suc.prems(6,7) L by auto
  note st = turn_step [OF Suc.prems(1) [unfolded L] Suc.prems(3) room adv]
  have key: "fst e = key" using st(1) by simp
  obtain q1 q2 nk where q2: "pull_next_action add q = Some (q1, snd e)" "peek_next_key flags bound q1 = (q2, nk)"
      "pq_room q \<le> Suc (pq_room q2)" "turn flags bound t q2 nk L' (resched add e B)"
    using st(3) by blast
  let ?run = "takeWhile (\<lambda>x. fst x = key) L'" and ?rest = "dropWhile (\<lambda>x. fst x = key) L'"
  let ?B = "fold (resched add) ?run (resched add e B)"
  have runs: "runs L = (e # ?run) # runs ?rest" using L key by simp
  have foldL: "fold (resched add) L B = fold (resched add) ?rest ?B"
  proof -
    have "fold (resched add) L' x = fold (resched add) ?rest (fold (resched add) ?run x)" for x
      by (metis fold_append takeWhile_dropWhile_id comp_apply)
    then show ?thesis using L by simp
  qed
  obtain q3 nk3 where q3: "(if nk \<noteq> Some key then Done (q2, Single (into_future (snd e)), nk)
        else case seq_loop add flags bound key n q2 [into_future (snd e)] of
               Done (q3, futs, nk) \<Rightarrow> Done (q3, Sequence futs, nk)
             | Panicked \<Rightarrow> Panicked | OutOfFuel \<Rightarrow> OutOfFuel) = Done (q3, group_task (e # ?run), nk3)"
    and t3: "turn flags bound t q3 nk3 ?rest ?B" "length ?rest \<le> pq_room q3"
  proof (cases "nk = Some key")
    case False
    then show thesis using that [of q2 nk] turn_run_over [OF q2(4) False] q2(3,4) Suc.prems(6) L by simp
  next
    case True
    have ne: "L' \<noteq> []" "fst (hd L') = key" using turn_key [OF q2(4) True Suc.prems(4)] by auto
    have "length ?run \<le> n" using Suc.prems(5) L length_takeWhile_le [of "\<lambda>x. fst x = key" L'] by simp
    then obtain q' nk' where q': "seq_loop add flags bound key n q2 [into_future (snd e)] =
          Done (q', [into_future (snd e)] @ map (\<lambda>e. into_future (snd e)) ?run, nk')"
        "length ?rest \<le> pq_room q'" "turn flags bound t q' nk' ?rest ?B"
      using seq_loop_correct [OF q2(4) [unfolded True] ne(1) Suc.prems(3), of n add "[into_future (snd e)]"]
        Suc.prems(6,7) L q2(3) by auto
    have "?run \<noteq> []" using ne by (cases L') auto
    then have "group_task (e # ?run) = Sequence ([into_future (snd e)] @ map (\<lambda>e. into_future (snd e)) ?run)"
      by (cases ?run) auto
    then show thesis using that [of q' nk'] True q' by simp
  qed
  have unfold: "spawn_loop add flags bound key (Suc n) q tasks =
      (case nk3 of
         Some k \<Rightarrow>
           if fst k = fst key then spawn_loop add flags bound k n q3 (tasks @ [group_task (e # ?run)])
           else Done (q3, tasks @ [group_task (e # ?run)])
       | None \<Rightarrow> Done (q3, tasks @ [group_task (e # ?run)]))"
    using q2(1,2) q3 by simp
  show ?case
  proof (cases "?rest = []")
    case True
    then have "pq_inv q3" "pq_entries q3 = discard flags bound ?B" "\<forall>k. nk3 = Some k \<longrightarrow> fst k \<noteq> t"
        "\<forall>x \<in> set ?B. t < entry_time x"
      using t3(1) by (auto simp: turn_def)
    then show ?thesis
      using unfold runs foldL True Suc.prems(4) by (auto split: option.splits)
  next
    case False
    then obtain k where k: "nk3 = Some k" "fst k = t"
      using turn_head [OF t3(1)] by blast
    have len: "length ?rest \<le> n" using Suc.prems(5) L length_dropWhile_le [of "\<lambda>x. fst x = key" L'] by simp
    have advs: "\<forall>x \<in> set ?rest. advances add x"
      using Suc.prems(7) L by (auto dest: set_dropWhileD)
    have "\<exists>q'. spawn_loop add flags bound k n q3 (tasks @ [group_task (e # ?run)]) =
        Done (q', (tasks @ [group_task (e # ?run)]) @ map group_task (runs ?rest)) \<and>
      pq_inv q' \<and> pq_entries q' = discard flags bound (fold (resched add) ?rest ?B) \<and>
      (\<forall>e \<in> set (fold (resched add) ?rest ?B). t < entry_time e)"
      by (rule Suc.IH [OF t3(1) [unfolded k(1)] False Suc.prems(3) k(2) len t3(2) advs])
    then show ?thesis using unfold runs foldL k Suc.prems(4) by simp
  qed
qed

section \<open>What every turn keeps\<close>

lemma sorted_pq_entries: "sorted (map fst (pq_entries q))"
proof -
  have "sorted (map fst (map pq_rank (sort_key pq_rank (pq_heap q))))"
    using sorted_sort_key [of pq_rank "pq_heap q"]
    by (auto simp: sorted_iff_nth_mono_less less_eq_prod_def less_le_not_le)
  then show ?thesis by (simp add: pq_entries_def o_def)
qed

lemma pull_next_action_cases:
  assumes inv: "pq_inv q" and pull: "pull_next_action add q = Some (q', a)"
  shows "\<exists>e es. pq_entries q = e # es \<and> a = snd e \<and> pq_inv q' \<and>
    pq_entries q' = resched add e es \<and> (next_entry add e = None \<longrightarrow> action_next a = None)"
proof -
  obtain q1 r where q1r: "pq_pull q = (q1, r)" by (cases "pq_pull q")
  with pull obtain e where q1: "pq_pull q = (q1, Some e)"
    by (cases r) (auto simp: pull_next_action_def)
  obtain es where es: "pq_entries q = e # es" "pq_inv q1" "pq_entries q1 = es"
  proof -
    obtain q2 where "pq_inv q2" "case pq_entries q of [] \<Rightarrow> Some (pq_pull q) = Some (q2, None) \<and> pq_entries q2 = []
        | e # es \<Rightarrow> Some (pq_pull q) = Some (q2, Some e) \<and> pq_entries q2 = es"
      using pq_pull_law [OF inv] by blast
    then show thesis using that q1 by (cases "pq_entries q") auto
  qed
  obtain t o_id b where e: "e = ((t, o_id), b)" by (metis prod.collapse)
  show ?thesis
  proof (cases "action_next b")
    case None
    then show ?thesis using es q1 e pull by (auto simp: pull_next_action_def resched_def)
  next
    case (Some x)
    obtain b' p where x: "x = (b', p)" by (cases x)
    obtain t' where t': "add t p = Some t'" "pq_insert (t', o_id) b' q1 = Some q'" "a = b"
      using pull q1 e Some x by (auto simp: pull_next_action_def bind_eq_Some_conv)
    then show ?thesis
      using es e Some x pq_inv_insert [OF es(2) t'(2)] pq_entries_insert [OF es(2) t'(2)]
      by (auto simp: resched_def)
  qed
qed

lemma resched_ge:
  assumes "add_forward add" "t \<le> entry_time e" "\<forall>x \<in> set es. t \<le> entry_time x"
  shows "\<forall>x \<in> set (resched add e es). t \<le> entry_time x"
proof (cases "next_entry add e")
  case (Some x)
  have "entry_time e \<le> entry_time x"
    using Some assms(1) by (cases e) (auto simp: add_forward_def split: option.splits)
  then have "t \<le> entry_time x" using assms(2) by simp
  then show ?thesis using Some assms(3) by (cases x) (simp add: resched_def)
qed (use assms in \<open>simp add: resched_def\<close>)

lemma pull_peek_keeps:
  assumes add: "add_forward add" and q: "after_peek bound t q nk"
    and pull: "pull_next_action add q = Some (q1, a)" and peek: "peek_next_key flags bound q1 = (q2, nk')"
  shows "after_peek bound t q2 nk'"
proof -
  have inv: "pq_inv q" using q by (simp add: after_peek_def)
  obtain e es where e: "pq_entries q = e # es" "pq_inv q1" "pq_entries q1 = resched add e es"
    using pull_next_action_cases [OF inv pull] by blast
  have "\<forall>x \<in> set (pq_entries q1). t \<le> entry_time x"
    using resched_ge [OF add, of t e es] q e by (auto simp: after_peek_def)
  then show ?thesis
    using peek_next_key_correct [OF e(2), of flags bound] peek
    by (auto simp: after_peek_def discard_def dest: set_dropWhileD)
qed

lemma seq_loop_keeps:
  assumes add: "add_forward add"
  shows "after_peek bound t q nk0 \<Longrightarrow> seq_loop add flags bound key n q acc = Done (q', futs, nk) \<Longrightarrow>
    after_peek bound t q' nk"
proof (induction n arbitrary: q nk0 acc)
  case (Suc n)
  from Suc.prems(2) obtain q1 a where pull: "pull_next_action add q = Some (q1, a)"
    by (auto split: option.splits)
  obtain q2 nk2 where peek: "peek_next_key flags bound q1 = (q2, nk2)" by (metis prod.collapse)
  note k = pull_peek_keeps [OF add Suc.prems(1) pull peek]
  have "(if nk2 \<noteq> Some key then Done (q2, acc @ [into_future a], nk2)
      else seq_loop add flags bound key n q2 (acc @ [into_future a])) = Done (q', futs, nk)"
    using Suc.prems(2) pull peek by (simp add: Let_def)
  then show ?case using Suc.IH [OF k] k by (metis Pair_inject outcome.inject)
qed simp

lemma after_peek_over:
  assumes q: "after_peek bound t q nk" and t: "t \<le> bound" and over: "\<forall>k. nk = Some k \<longrightarrow> fst k \<noteq> t"
  shows "\<forall>e \<in> set (pq_entries q). t < entry_time e"
proof (cases "pq_entries q")
  case (Cons e es)
  have "t \<le> entry_time e" "entry_time e \<noteq> t"
  proof -
    show "t \<le> entry_time e" using q Cons by (simp add: after_peek_def)
    show "entry_time e \<noteq> t"
    proof
      assume "entry_time e = t"
      then have "nk = Some (fst e)" using q Cons t by (simp add: after_peek_def first_key_def)
      then show False using over \<open>entry_time e = t\<close> by blast
    qed
  qed
  then have "t < entry_time e" by simp
  moreover have "\<forall>x \<in> set es. fst e \<le> fst x" using sorted_pq_entries [of q] Cons by simp
  then have "\<forall>x \<in> set es. entry_time e \<le> entry_time x"
    by (auto simp: less_eq_prod_def)
  ultimately show ?thesis using Cons by (auto intro: less_le_trans)
qed simp

lemma spawn_loop_keeps:
  assumes add: "add_forward add" and t: "t \<le> bound"
  shows "after_peek bound t q (Some key) \<Longrightarrow> fst key = t \<Longrightarrow>
    spawn_loop add flags bound key n q tasks = Done (q', tasks') \<Longrightarrow>
    pq_inv q' \<and> (\<forall>e \<in> set (pq_entries q'). t < entry_time e)"
proof (induction n arbitrary: q key tasks)
  case (Suc n)
  from Suc.prems(3) obtain q1 a where pull: "pull_next_action add q = Some (q1, a)"
    by (auto split: option.splits)
  obtain q2 nk2 where peek: "peek_next_key flags bound q1 = (q2, nk2)" by (metis prod.collapse)
  note k2 = pull_peek_keeps [OF add Suc.prems(1) pull peek]
  obtain q3 task nk3 where q3: "(if nk2 \<noteq> Some key then Done (q2, Single (into_future a), nk2)
        else case seq_loop add flags bound key n q2 [into_future a] of
               Done (q3, futs, nk) \<Rightarrow> Done (q3, Sequence futs, nk)
             | Panicked \<Rightarrow> Panicked | OutOfFuel \<Rightarrow> OutOfFuel) = Done (q3, task, nk3)"
    using Suc.prems(3) pull peek by (auto split: outcome.splits if_splits)
  have k3: "after_peek bound t q3 nk3"
  proof (cases "nk2 = Some key")
    case True
    then obtain futs where "seq_loop add flags bound key n q2 [into_future a] = Done (q3, futs, nk3)"
      using q3 by (auto split: outcome.splits)
    then show ?thesis by (rule seq_loop_keeps [OF add k2])
  qed (use q3 k2 in simp)
  have eq: "spawn_loop add flags bound key (Suc n) q tasks =
      (case nk3 of
         Some k \<Rightarrow> if fst k = fst key then spawn_loop add flags bound k n q3 (tasks @ [task])
                   else Done (q3, tasks @ [task])
       | None \<Rightarrow> Done (q3, tasks @ [task]))"
    using pull peek q3 by simp
  show ?case
  proof (cases "\<exists>k. nk3 = Some k \<and> fst k = t")
    case True
    then obtain k where k: "nk3 = Some k" "fst k = t" by blast
    have "spawn_loop add flags bound k n q3 (tasks @ [task]) = Done (q', tasks')"
      using eq k Suc.prems(2,3) by (simp del: spawn_loop.simps)
    then show ?thesis using Suc.IH [OF k3 [unfolded k(1)] k(2)] by blast
  next
    case False
    then have "q' = q3" using eq Suc.prems(2,3) by (auto split: option.splits simp del: spawn_loop.simps)
    then show ?thesis using after_peek_over [OF k3 t] False k3 by (auto simp: after_peek_def)
  qed
qed simp

section \<open>The loops end\<close>

lemma count_at_peek:
  assumes "pq_inv q" "peek_next_key flags bound q = (q', nk)"
  shows "count_at t q' \<le> count_at t q"
proof -
  have q': "pq_entries q' = discard flags bound (pq_entries q)"
    using peek_next_key_correct [OF assms(1), of flags bound] assms(2) by auto
  have "length (filter P (dropWhile Q xs)) \<le> length (filter P xs)" for P Q and xs :: "('a, 'b) entry list"
    by (induction xs) auto
  then show ?thesis by (simp add: count_at_def q' discard_def)
qed

lemma count_at_resched:
  assumes "advances add e" "entry_time e = t"
  shows "length (filter (\<lambda>x. entry_time x = t) (resched add e es)) = length (filter (\<lambda>x. entry_time x = t) es)"
proof -
  have "mset (filter P (fifo_insert k v xs)) = mset (filter P xs)" if "\<not> P (k, v)"
    for P k v and xs :: "('a, 'b) entry list"
    using that by (simp add: mset_filter)
  then have "length (filter P (fifo_insert k v xs)) = length (filter P xs)" if "\<not> P (k, v)"
    for P k v and xs :: "('a, 'b) entry list"
    using that by (metis size_mset)
  then show ?thesis using assms
    by (cases e) (auto simp: resched_def advances_def split: option.splits)
qed

lemma pull_peek_count:
  assumes q: "after_peek bound t q (Some key)" "fst key = t"
    and adv: "\<forall>e \<in> set (pq_entries q). entry_time e = t \<longrightarrow> next_entry add e \<noteq> None \<longrightarrow> advances add e"
    and pull: "pull_next_action add q = Some (q1, a)" and peek: "peek_next_key flags bound q1 = (q2, nk)"
  shows "count_at t q2 < count_at t q"
proof -
  have inv: "pq_inv q" using q by (simp add: after_peek_def)
  obtain e es where e: "pq_entries q = e # es" "a = snd e" "pq_inv q1" "pq_entries q1 = resched add e es"
      "next_entry add e = None \<longrightarrow> action_next a = None"
    using pull_next_action_cases [OF inv pull] by (elim exE conjE) (rule that)
  have et: "entry_time e = t" using q e(1) by (auto simp: after_peek_def first_key_def split: if_splits)
  have "advances add e"
    using adv e et by (cases "next_entry add e") (auto simp: advances_def)
  then have "count_at t q1 < count_at t q"
    using count_at_resched [OF _ et, of add es] e et by (simp add: count_at_def)
  then show ?thesis using count_at_peek [OF e(3) peek, of t] by simp
qed

lemma positive_advances:
  assumes "add_forward add" "positive_period (snd e)" "next_entry add e \<noteq> None"
  shows "advances add e"
  using assms by (cases e; cases "snd e") (auto simp: advances_def add_forward_def split: option.splits)

lemma positive_resched:
  assumes "positive_period (snd e)" "\<forall>x \<in> set es. positive_period (snd x)"
  shows "\<forall>x \<in> set (resched add e es). positive_period (snd x)"
proof (cases "next_entry add e")
  case (Some x)
  then have "snd x = snd e" by (cases e; cases "snd e") auto
  then show ?thesis using Some assms by (cases x) (simp add: resched_def)
qed (use assms in \<open>simp add: resched_def\<close>)

lemma pull_peek_positive:
  assumes inv: "pq_inv q" and pos: "\<forall>e \<in> set (pq_entries q). positive_period (snd e)"
    and pull: "pull_next_action add q = Some (q1, a)" and peek: "peek_next_key flags bound q1 = (q2, nk)"
  shows "\<forall>e \<in> set (pq_entries q2). positive_period (snd e)"
proof -
  obtain e es where e: "pq_entries q = e # es" "pq_inv q1" "pq_entries q1 = resched add e es"
    using pull_next_action_cases [OF inv pull] by blast
  then have "\<forall>x \<in> set (pq_entries q1). positive_period (snd x)"
    using positive_resched [of e es add] pos by simp
  moreover have "pq_entries q2 = discard flags bound (pq_entries q1)"
    using peek_next_key_correct [OF e(2), of flags bound] peek by auto
  ultimately show ?thesis by (auto simp: discard_def dest: set_dropWhileD)
qed

text \<open>A turn with positive periods: the queue invariant, fewer entries at the current time.\<close>

lemma positive_turn:
  assumes add: "add_forward add" and q: "after_peek bound t q (Some key)" "fst key = t"
    and pos: "\<forall>e \<in> set (pq_entries q). positive_period (snd e)"
    and pull: "pull_next_action add q = Some (q1, a)" and peek: "peek_next_key flags bound q1 = (q2, nk)"
  shows "after_peek bound t q2 nk" "\<forall>e \<in> set (pq_entries q2). positive_period (snd e)"
    "count_at t q2 < count_at t q"
proof -
  have inv: "pq_inv q" using q(1) by (simp add: after_peek_def)
  show "after_peek bound t q2 nk" using pull_peek_keeps [OF add q(1) pull peek] .
  show "\<forall>e \<in> set (pq_entries q2). positive_period (snd e)" using pull_peek_positive [OF inv pos pull peek] .
  show "count_at t q2 < count_at t q"
    using pull_peek_count [OF q _ pull peek] pos positive_advances [OF add] by blast
qed

lemma seq_loop_fuel:
  assumes add: "add_forward add"
  shows "after_peek bound t q (Some key) \<Longrightarrow> fst key = t \<Longrightarrow>
    \<forall>e \<in> set (pq_entries q). positive_period (snd e) \<Longrightarrow> count_at t q \<le> n \<Longrightarrow>
    (case seq_loop add flags bound key n q acc of
       OutOfFuel \<Rightarrow> False
     | Panicked \<Rightarrow> True
     | Done (q', futs, nk) \<Rightarrow> count_at t q' < count_at t q \<and>
         (\<forall>e \<in> set (pq_entries q'). positive_period (snd e)))"
proof (induction n arbitrary: q acc)
  case 0
  then show ?case
    by (auto simp: after_peek_def first_key_def count_at_def split: list.splits if_splits)
next
  case (Suc n)
  show ?case
  proof (cases "pull_next_action add q")
    case (Some x)
    obtain q1 a where x: "x = (q1, a)" by (cases x)
    obtain q2 nk where peek: "peek_next_key flags bound q1 = (q2, nk)" by (metis prod.collapse)
    note pt = positive_turn [OF add Suc.prems(1-3) Some [unfolded x] peek]
    have eq: "seq_loop add flags bound key (Suc n) q acc =
        (if nk \<noteq> Some key then Done (q2, acc @ [into_future a], nk)
         else seq_loop add flags bound key n q2 (acc @ [into_future a]))"
      using Some x peek by (simp add: Let_def)
    show ?thesis
    proof (cases "nk = Some key")
      case True
      have "count_at t q2 \<le> n" using pt(3) Suc.prems(4) by simp
      from Suc.IH [OF pt(1) [unfolded True] Suc.prems(2) pt(2) this, of "acc @ [into_future a]"]
      show ?thesis unfolding eq using True pt(3)
        by (cases "seq_loop add flags bound key n q2 (acc @ [into_future a])") auto
    qed (use eq pt in simp)
  qed simp
qed

lemma spawn_loop_fuel:
  assumes add: "add_forward add"
  shows "after_peek bound t q (Some key) \<Longrightarrow> fst key = t \<Longrightarrow>
    \<forall>e \<in> set (pq_entries q). positive_period (snd e) \<Longrightarrow> count_at t q \<le> n \<Longrightarrow>
    (case spawn_loop add flags bound key n q tasks of
       OutOfFuel \<Rightarrow> False
     | Panicked \<Rightarrow> True
     | Done (q', ts) \<Rightarrow> (\<forall>e \<in> set (pq_entries q'). positive_period (snd e)))"
proof (induction n arbitrary: q key tasks)
  case 0
  then show ?case
    by (auto simp: after_peek_def first_key_def count_at_def split: list.splits if_splits)
next
  case (Suc n)
  show ?case
  proof (cases "pull_next_action add q")
    case (Some x)
    obtain q1 a where x: "x = (q1, a)" by (cases x)
    obtain q2 nk where peek: "peek_next_key flags bound q1 = (q2, nk)" by (metis prod.collapse)
    note pt = positive_turn [OF add Suc.prems(1-3) Some [unfolded x] peek]
    have le: "count_at t q2 \<le> n" using pt(3) Suc.prems(4) by simp
    define r where "r = (if nk \<noteq> Some key then Done (q2, Single (into_future a), nk)
        else case seq_loop add flags bound key n q2 [into_future a] of
               Done (q3, futs, nk) \<Rightarrow> Done (q3, Sequence futs, nk)
             | Panicked \<Rightarrow> Panicked | OutOfFuel \<Rightarrow> OutOfFuel)"
    have eq: "spawn_loop add flags bound key (Suc n) q tasks =
        (case r of
           Done (q3, task, nk3) \<Rightarrow>
             (case nk3 of
                Some k \<Rightarrow> if fst k = fst key then spawn_loop add flags bound k n q3 (tasks @ [task])
                          else Done (q3, tasks @ [task])
              | None \<Rightarrow> Done (q3, tasks @ [task]))
         | Panicked \<Rightarrow> Panicked | OutOfFuel \<Rightarrow> OutOfFuel)"
      using Some x peek by (simp add: r_def)
    have r: "case r of OutOfFuel \<Rightarrow> False | Panicked \<Rightarrow> True
      | Done (q3, task, nk3) \<Rightarrow> after_peek bound t q3 nk3 \<and> count_at t q3 \<le> n \<and>
          (\<forall>e \<in> set (pq_entries q3). positive_period (snd e))"
    proof (cases "nk = Some key")
      case True
      note sf = seq_loop_fuel [OF add pt(1) [unfolded True] Suc.prems(2) pt(2) le, of flags "[into_future a]"]
      show ?thesis
      proof (cases "seq_loop add flags bound key n q2 [into_future a]")
        case (Done y)
        obtain q3 futs nk3 where y: "y = (q3, futs, nk3)" by (metis prod.collapse)
        have "after_peek bound t q3 nk3" using seq_loop_keeps [OF add pt(1)] Done y by blast
        then show ?thesis using Done y True sf le by (simp add: r_def)
      qed (use sf True in \<open>simp_all add: r_def\<close>)
    qed (use pt le in \<open>simp add: r_def\<close>)
    show ?thesis
    proof (cases r)
      case (Done y)
      obtain q3 task nk3 where y: "y = (q3, task, nk3)" by (metis prod.collapse)
      have q3: "after_peek bound t q3 nk3" "count_at t q3 \<le> n" "\<forall>e \<in> set (pq_entries q3). positive_period (snd e)"
        using r Done y by auto
      show ?thesis
      proof (cases "\<exists>k. nk3 = Some k \<and> fst k = t")
        case True
        then obtain k where k: "nk3 = Some k" "fst k = t" by blast
        have "spawn_loop add flags bound key (Suc n) q tasks = spawn_loop add flags bound k n q3 (tasks @ [task])"
          unfolding eq Done y using k Suc.prems(2) by simp
        then show ?thesis using Suc.IH [OF q3(1) [unfolded k(1)] k(2) q3(3,2)] by simp
      next
        case False
        then have "spawn_loop add flags bound key (Suc n) q tasks = Done (q3, tasks @ [task])"
          unfolding eq Done y using Suc.prems(2) by (auto split: option.splits)
        then show ?thesis using q3(3) by simp
      qed
    qed (use r eq in simp_all)
  qed simp
qed

end
