(* ===== verification/Simulation_Safety.thy ===== *)
theory Simulation_Safety
  imports Simulation_Steps
begin

text \<open>
  What the simulation guarantees to its users: time moves forward only, no pending action
  is left behind, actions of one origin run in their scheduling order, stepping up to a
  deadline ends, and fatal errors are final. The last section treats the two ways in
  which the program fails to keep these promises: actions with a null period that bypass
  the check of the scheduler, and a scheduling request that arrives between the last step
  of \<open>step_until\<close> and its write of the target time.
\<close>

section \<open>Reachable states\<close>

text \<open>
  The states reached by calls of the public methods, with scheduling requests of other
  threads in between. A call that panics or does not return leads to no state.
\<close>

inductive sim_reach ::
  "('t::linorder, 'a, 'w, 'p) env \<Rightarrow> ('t, 'a, 'w) simulation \<Rightarrow> ('t, 'a, 'w) simulation \<Rightarrow> bool"
  for E :: "('t::linorder, 'a, 'w, 'p) env" and s0 :: "('t, 'a, 'w) simulation"
where
  start: "sim_reach E s0 s0"
| stepped: "sim_reach E s0 s \<Longrightarrow> step E fuel s = Done (s', r) \<Longrightarrow> sim_reach E s0 s'"
| until: "sim_reach E s0 s \<Longrightarrow> step_until E n fuel d s = Done (s', r) \<Longrightarrow> sim_reach E s0 s'"
| unbounded: "sim_reach E s0 s \<Longrightarrow> step_unbounded E n fuel s = Done (s', r) \<Longrightarrow> sim_reach E s0 s'"
| processed: "sim_reach E s0 s \<Longrightarrow> sim_process E a s = Some (s', r) \<Longrightarrow> sim_reach E s0 s'"
| event: "sim_reach E s0 s \<Longrightarrow> sim_process_event E ev s = Some (s', r) \<Longrightarrow> sim_reach E s0 s'"
| external: "sim_reach E s0 s \<Longrightarrow> perform_call (env_add E) c (sim_sched s) = Some g \<Longrightarrow>
    sim_reach E s0 (s\<lparr>sim_sched := g\<rparr>)"

text \<open>The live entries of the earliest time up to the bound, and the entries after it.\<close>

definition due :: "bool list \<Rightarrow> 't::linorder \<Rightarrow> ('t, 'a) entry list \<Rightarrow> ('t, 'a) entry list" where
  "due flags bound es =
     (case discard flags bound es of
        [] \<Rightarrow> []
      | e # r \<Rightarrow> if entry_time e \<le> bound
                 then filter (live flags) (takeWhile (\<lambda>x. entry_time x = entry_time e) (e # r)) else [])"

definition later :: "bool list \<Rightarrow> 't::linorder \<Rightarrow> ('t, 'a) entry list \<Rightarrow> ('t, 'a) entry list" where
  "later flags bound es =
     (case discard flags bound es of
        [] \<Rightarrow> []
      | e # r \<Rightarrow> if entry_time e \<le> bound then dropWhile (\<lambda>x. entry_time x = entry_time e) (e # r) else e # r)"

text \<open>The models never schedule an action with a null period.\<close>

definition exec_positive :: "('t, 'a, 'w, 'p) env \<Rightarrow> bool" where
  "exec_positive E \<longleftrightarrow> (\<forall>d g ts w. \<forall>c \<in> set (fst (env_exec E d g ts w)). call_positive c)"

text \<open>A live entry at time \<open>t\<close> that is its own next occurrence.\<close>

definition has_null_entry ::
  "('t::linorder \<Rightarrow> duration \<Rightarrow> 't option) \<Rightarrow> bool list \<Rightarrow> 't \<Rightarrow> ('t, 'a) scheduler_queue \<Rightarrow> bool"
where
  "has_null_entry add flags t q \<longleftrightarrow>
     (\<exists>e \<in> set (pq_entries q). entry_time e = t \<and> live flags e \<and> next_entry add e = Some e)"

section \<open>The parts of a step\<close>

lemma synchronize_sched:
  "synchronize E t s = (s', x) \<Longrightarrow> sim_sched s' = sim_sched s \<and>
     (x \<noteq> None \<longrightarrow> sim_is_terminated s') \<and> (sim_is_terminated s \<longrightarrow> sim_is_terminated s')"
  by (auto simp: synchronize_def Let_def split: prod.splits sync_status.splits option.splits if_splits)

lemma sim_run_inv:
  assumes "sched_inv (sim_sched s)" "sim_run E s = Some (s', r)"
  shows "sched_inv (sim_sched s') \<and> sched_time (sim_sched s') = sched_time (sim_sched s)"
  using assms perform_calls_inv [OF assms(1), of "env_add E"]
  by (auto simp: sim_run_def Let_def bind_eq_Some_conv split: prod.splits if_splits option.splits)

lemma first_key_SomeD:
  "first_key bound es = Some k \<Longrightarrow> \<exists>e r. es = e # r \<and> k = fst e \<and> fst k \<le> bound"
  by (auto simp: first_key_def split: list.splits if_splits)

lemma sorted_times:
  assumes "sorted (map fst (e # es))" "x \<in> set (e # es)"
  shows "entry_time e \<le> entry_time x"
  using assms by (auto simp: less_eq_prod_def)

text \<open>The queue at the start of the loop over the actions of a time.\<close>

lemma peek_starts:
  assumes inv: "pq_inv q0" and peek: "peek_next_key flags bound q0 = (q, Some key)"
  shows "after_peek bound (fst key) q (Some key)" "fst key \<le> bound" "pq_room q = pq_room q0"
    "pq_entries q = discard flags bound (pq_entries q0)"
proof -
  have q: "Some key = first_key bound (discard flags bound (pq_entries q0))" "pq_inv q" "pq_room q = pq_room q0"
      "pq_entries q = discard flags bound (pq_entries q0)"
    using peek_next_key_correct [OF inv, of flags bound] peek by auto
  then obtain e r where e: "pq_entries q = e # r" "key = fst e" "fst key \<le> bound"
    using first_key_SomeD [OF q(1) [symmetric]] by auto
  have "\<forall>x \<in> set (pq_entries q). fst key \<le> entry_time x"
    using sorted_times [of e r] sorted_pq_entries [of q] e by auto
  then show "after_peek bound (fst key) q (Some key)" using q by (simp add: after_peek_def)
  show "fst key \<le> bound" "pq_room q = pq_room q0" "pq_entries q = discard flags bound (pq_entries q0)"
    using e q by auto
qed

lemma peek_ends:
  assumes inv: "pq_inv q0" and peek: "peek_next_key flags bound q0 = (q, None)"
  shows "pq_inv q" "\<forall>x \<in> set (pq_entries q). bound < entry_time x"
    "pq_entries q = discard flags bound (pq_entries q0)"
proof -
  have q: "None = first_key bound (pq_entries q)" "pq_inv q" "pq_entries q = discard flags bound (pq_entries q0)"
    using peek_next_key_correct [OF inv, of flags bound] peek by auto
  then show "pq_inv q" "pq_entries q = discard flags bound (pq_entries q0)" by auto
  show "\<forall>x \<in> set (pq_entries q). bound < entry_time x"
  proof (cases "pq_entries q")
    case (Cons e r)
    then have "bound < entry_time e" using q(1) by (auto simp: first_key_def split: if_splits)
    then show ?thesis
      using sorted_times [of e r] sorted_pq_entries [of q] Cons by (auto intro: less_le_trans)
  qed simp
qed

section \<open>Time moves forward\<close>

lemma step_to_next_safe:
  assumes add: "add_forward (env_add E)" and inv: "sched_inv (sim_sched s)"
    and st: "step_to_next E fuel ub s = Done (s', r)"
  shows "sched_inv (sim_sched s')" "sched_time (sim_sched s) \<le> sched_time (sim_sched s')"
    "r = Inr (Some t) \<Longrightarrow> sched_time (sim_sched s) < t \<and> sched_time (sim_sched s') = t \<and>
       (\<forall>b. ub = Some b \<longrightarrow> t \<le> b)"
    "r = Inr None \<Longrightarrow> ub = Some b \<Longrightarrow> sched_time (sim_sched s) = sched_time (sim_sched s') \<and>
       (\<forall>e \<in> set (pq_entries (sched_queue (sim_sched s'))). b < entry_time e)"
proof -
  let ?g = "sim_sched s"
  let ?bound = "case ub of None \<Rightarrow> env_max E | Some t \<Rightarrow> t"
  have pinv: "pq_inv (sched_queue ?g)" using inv by (simp add: sched_inv_def)
  have "sched_inv (sim_sched s') \<and> sched_time ?g \<le> sched_time (sim_sched s') \<and>
    (r = Inr (Some t) \<longrightarrow> sched_time ?g < t \<and> sched_time (sim_sched s') = t \<and> (\<forall>b. ub = Some b \<longrightarrow> t \<le> b)) \<and>
    (r = Inr None \<longrightarrow> ub = Some b \<longrightarrow> sched_time ?g = sched_time (sim_sched s') \<and>
       (\<forall>e \<in> set (pq_entries (sched_queue (sim_sched s'))). b < entry_time e))"
  proof (cases "sim_is_terminated s \<or> sched_halted ?g")
    case True
    then have "sim_sched s' = ?g" "\<exists>e. r = Inl e"
      using st by (auto simp: step_to_next_def Let_def split: if_splits)
    then show ?thesis using inv by auto
  next
    case False
    obtain q key where peek: "peek_next_key (sched_flags ?g) ?bound (sched_queue ?g) = (q, key)"
      by (metis prod.collapse)
    show ?thesis
    proof (cases key)
      case None
      then have s': "sim_sched s' = ?g\<lparr>sched_queue := q\<rparr>" "r = Inr None"
        using st False peek by (auto simp: step_to_next_def Let_def)
      note pe = peek_ends [OF pinv peek [unfolded None]]
      have "set (pq_entries q) \<subseteq> set (pq_entries (sched_queue ?g))"
        using pe(3) by (auto simp: discard_def dest: set_dropWhileD)
      then have "sched_inv (sim_sched s')" using inv s' pe(1) by (auto simp: sched_inv_def)
      then show ?thesis using s' pe(2) by auto
    next
      case (Some k)
      note ps = peek_starts [OF pinv peek [unfolded Some]]
      have lt: "sched_time ?g < fst k"
      proof -
        have "first_key ?bound (pq_entries q) = Some k" using ps(1) by (simp add: after_peek_def)
        then obtain e r where e: "pq_entries q = e # r" "k = fst e" using first_key_SomeD by blast
        then have "e \<in> set (discard (sched_flags ?g) ?bound (pq_entries (sched_queue ?g)))"
          using ps(4) by (metis list.set_intros(1))
        then have "e \<in> set (pq_entries (sched_queue ?g))" unfolding discard_def by (rule set_dropWhileD)
        then show ?thesis using inv e(2) by (simp add: sched_inv_def)
      qed
      obtain q1 ts where sl: "spawn_loop (env_add E) (sched_flags ?g) ?bound k fuel q (sim_tasks s) = Done (q1, ts)"
        using st False peek Some by (auto simp: step_to_next_def Let_def split: outcome.splits)
      have q1: "pq_inv q1" "\<forall>e \<in> set (pq_entries q1). fst k < entry_time e"
        using spawn_loop_keeps [OF add ps(2,1) refl sl] by auto
      let ?s1 = "s\<lparr>sim_sched := ?g\<lparr>sched_time := fst k, sched_queue := q1\<rparr>, sim_tasks := ts\<rparr>"
      have inv1: "sched_inv (sim_sched ?s1)" using q1 by (simp add: sched_inv_def)
      obtain s2 x where sy: "synchronize E (fst k) ?s1 = (s2, x)" by (metis prod.collapse)
      have s2: "sched_inv (sim_sched s2)" "sched_time (sim_sched s2) = fst k"
        using synchronize_sched [OF sy] inv1 by auto
      have fin: "sched_inv (sim_sched s') \<and> sched_time (sim_sched s') = fst k \<and> r \<noteq> Inr None \<and>
          (r = Inr (Some t) \<longrightarrow> t = fst k)"
      proof (cases x)
        case None
        have st': "step_to_next E fuel ub s = (case sim_run E s2 of
            None \<Rightarrow> Panicked | Some (s3, Inl e) \<Rightarrow> Done (s3, Inl e) | Some (s3, Inr _) \<Rightarrow> Done (s3, Inr (Some (fst k))))"
          using False peek Some sl sy None by (simp add: step_to_next_def Let_def)
        then show ?thesis using st s2 sim_run_inv [OF s2(1)]
          by (auto split: option.splits sum.splits prod.splits)
      next
        case lag: (Some lag)
        then have "s' = s2" "\<exists>e. r = Inl e"
          using st False peek Some sl sy by (auto simp: step_to_next_def Let_def)
        then show ?thesis using s2 by auto
      qed
      moreover have "\<forall>b. ub = Some b \<longrightarrow> fst k \<le> b" using ps(2) by auto
      ultimately show ?thesis using lt by (cases "r = Inr (Some t)") (simp_all add: less_imp_le)
    qed
  qed
  then show "sched_inv (sim_sched s')" "sched_time (sim_sched s) \<le> sched_time (sim_sched s')"
    "r = Inr (Some t) \<Longrightarrow> sched_time (sim_sched s) < t \<and> sched_time (sim_sched s') = t \<and>
       (\<forall>b. ub = Some b \<longrightarrow> t \<le> b)"
    "r = Inr None \<Longrightarrow> ub = Some b \<Longrightarrow> sched_time (sim_sched s) = sched_time (sim_sched s') \<and>
       (\<forall>e \<in> set (pq_entries (sched_queue (sim_sched s'))). b < entry_time e)"
    by blast+
qed

lemma finish_until_safe:
  assumes "finish_until E (Some t) s = (s', r)" "pq_inv (sched_queue (sim_sched s))"
    "\<forall>e \<in> set (pq_entries (sched_queue (sim_sched s))). t < entry_time e"
  shows "sched_inv (sim_sched s') \<and> sched_time (sim_sched s') = t"
proof -
  let ?s1 = "s\<lparr>sim_sched := (sim_sched s)\<lparr>sched_time := t\<rparr>\<rparr>"
  obtain s2 x where sy: "synchronize E t ?s1 = (s2, x)" by (metis prod.collapse)
  have "s' = s2" using assms(1) sy by (auto simp: finish_until_def Let_def split: option.splits)
  then show ?thesis using synchronize_sched [OF sy] assms(2,3) by (simp add: sched_inv_def)
qed

lemma step_until_unchecked_safe:
  assumes add: "add_forward (env_add E)"
  shows "sched_inv (sim_sched s) \<Longrightarrow> (\<forall>t. target = Some t \<longrightarrow> sched_time (sim_sched s) \<le> t) \<Longrightarrow>
    step_until_unchecked E n fuel target s = Done (s', r) \<Longrightarrow>
    sched_inv (sim_sched s') \<and> sched_time (sim_sched s) \<le> sched_time (sim_sched s') \<and>
    (\<forall>t. target = Some t \<longrightarrow> r = Inr () \<longrightarrow> sched_time (sim_sched s') = t)"
proof (induction n arbitrary: s)
  case (Suc n)
  obtain s1 x where st: "step_to_next E fuel target s = Done (s1, x)"
    using Suc.prems(3) by (cases "step_to_next E fuel target s") auto
  note safe = step_to_next_safe [OF add Suc.prems(1) st]
  show ?case
  proof (cases x)
    case (Inl e)
    then have "s' = s1" "r = Inl e" using Suc.prems(3) st by auto
    then show ?thesis using safe(1,2) by simp
  next
    case (Inr time)
    show ?thesis
    proof (cases "time = target")
      case True
      then have "s' = s1" using Suc.prems(3) st Inr by auto
      then show ?thesis using safe(1,2) safe(3) Inr True by auto
    next
      case ne: False
      show ?thesis
      proof (cases time)
        case None
        then obtain t where t: "target = Some t" using ne by (cases target) auto
        have fin: "finish_until E (Some t) s1 = (s', r)"
          using Suc.prems(3) st Inr None ne t by simp
        have "pq_inv (sched_queue (sim_sched s1))" using safe(1) by (simp add: sched_inv_def)
        then show ?thesis using finish_until_safe [OF fin] safe(4) Inr None t Suc.prems(2) by auto
      next
        case (Some u)
        have rec: "step_until_unchecked E n fuel target s1 = Done (s', r)"
          using Suc.prems(3) st Inr Some ne by simp
        have u: "sched_time (sim_sched s) < u" "sched_time (sim_sched s1) = u" "\<forall>b. target = Some b \<longrightarrow> u \<le> b"
          using safe(3) Inr Some by auto
        then show ?thesis using Suc.IH [OF safe(1) _ rec] safe(2) by (auto intro: order_trans)
      qed
    qed
  qed
qed simp

lemma step_until_safe:
  assumes "add_forward (env_add E)" "sched_inv (sim_sched s)" "step_until E n fuel d s = Done (s', r)"
  shows "sched_inv (sim_sched s') \<and> sched_time (sim_sched s) \<le> sched_time (sim_sched s')"
proof -
  obtain t where t: "into_time (env_add E) d (sched_time (sim_sched s)) = Some t"
    using assms(3) by (auto simp: step_until_def Let_def split: option.splits)
  show ?thesis
  proof (cases "t < sched_time (sim_sched s)")
    case True
    then show ?thesis using assms t by (auto simp: step_until_def Let_def)
  next
    case False
    then have "step_until_unchecked E n fuel (Some t) s = Done (s', r)"
      using assms(3) t by (simp add: step_until_def Let_def)
    moreover have "\<forall>u. Some t = Some u \<longrightarrow> sched_time (sim_sched s) \<le> u" using False by simp
    ultimately show ?thesis using step_until_unchecked_safe [OF assms(1,2)] by blast
  qed
qed

lemma sim_reach_safe:
  assumes add: "add_forward (env_add E)" and s0: "sched_inv (sim_sched s0)"
  shows "sim_reach E s0 s \<Longrightarrow> sched_inv (sim_sched s) \<and> sched_time (sim_sched s0) \<le> sched_time (sim_sched s)"
proof (induction rule: sim_reach.induct)
  case (stepped s fuel s' r)
  then obtain x where "step_to_next E fuel None s = Done (s', x)"
    by (cases "step_to_next E fuel None s") (auto simp: step_def split: sum.splits)
  then show ?case using step_to_next_safe(1,2) [OF add] stepped.IH by (blast intro: order_trans)
next
  case (until s n fuel d s' r)
  then show ?case using step_until_safe [OF add] by (blast intro: order_trans)
next
  case (unbounded s n fuel s' r)
  then show ?case using step_until_unchecked_safe [OF add, of s None n fuel s' r]
    by (auto simp: step_unbounded_def intro: order_trans)
next
  case (processed s a s' r)
  have "sched_inv (sim_sched (s\<lparr>sim_tasks := sim_tasks s @ [Single (into_future a)]\<rparr>))"
    using processed.IH by simp
  from sim_run_inv [OF this] show ?case using processed by (auto simp: sim_process_def)
next
  case (event s ev s' r)
  have "sched_inv (sim_sched (s\<lparr>sim_tasks := sim_tasks s @ [Single (ProcessEvent ev)]\<rparr>))"
    using event.IH by simp
  from sim_run_inv [OF this] show ?case using event by (auto simp: sim_process_event_def)
next
  case (external s c g)
  then show ?case using perform_call_inv [of "sim_sched s"] by auto
qed (use s0 in simp)

section \<open>The effect of a step\<close>

lemma runs_concat: "concat (runs es) = es"
  by (induction es rule: runs.induct) auto

lemma runs_same_key: "r \<in> set (runs es) \<Longrightarrow> r \<noteq> [] \<and> (\<forall>e \<in> set r. fst e = fst (hd r))"
proof (induction es rule: runs.induct)
  case (2 e es)
  show ?case
  proof (cases "r = e # takeWhile (\<lambda>x. fst x = fst e) es")
    case True
    show ?thesis unfolding True by (auto dest: set_takeWhileD)
  next
    case False
    then have "r \<in> set (runs (dropWhile (\<lambda>x. fst x = fst e) es))" using "2.prems" by simp
    then show ?thesis by (rule "2.IH")
  qed
qed simp

lemma sorted_dropWhile_gt:
  assumes "sorted (map f xs)" "\<forall>x \<in> set xs. a \<le> f x" "y \<in> set (dropWhile (\<lambda>x. f x = a) xs)"
  shows "a < f y"
  using assms
proof (induction xs)
  case (Cons x xs)
  show ?case
  proof (cases "f x = a")
    case False
    then have "a < f x" using Cons.prems(2) by force
    moreover have "f x \<le> f y" using Cons.prems(1,3) False by auto
    ultimately show ?thesis by simp
  qed (use Cons in simp)
qed simp

lemma runs_distinct_keys:
  "sorted (map fst es) \<Longrightarrow> distinct (map (\<lambda>r. fst (hd r)) (runs es))"
proof (induction es rule: runs.induct)
  case (2 e es)
  let ?d = "dropWhile (\<lambda>x. fst x = fst e) es"
  have sorted: "sorted (map fst ?d)"
    using "2.prems" sorted_dropWhile [of "map fst es" "\<lambda>k. k = fst e"] by (simp add: dropWhile_map o_def)
  have "fst e \<noteq> fst (hd r)" if "r \<in> set (runs ?d)" for r
  proof -
    have "hd r \<in> set ?d"
      using that runs_same_key [OF that] runs_concat [of ?d] by (metis UN_I hd_in_set set_concat)
    then have "fst e < fst (hd r)"
      using "2.prems" by (intro sorted_dropWhile_gt [of fst es "fst e" "hd r"]) auto
    then show ?thesis by simp
  qed
  then have "fst e \<notin> (\<lambda>r. fst (hd r)) ` set (runs ?d)" by auto
  then show ?case using "2.IH" [OF sorted] by simp
qed simp

lemma discard_head_live:
  "discard flags bound es = e # r \<Longrightarrow> entry_time e \<le> bound \<Longrightarrow> live flags e"
  by (induction es) (auto simp: discard_def split: if_splits)

lemma sorted_discard: "sorted (map fst es) \<Longrightarrow> sorted (map fst (discard flags bound es))"
  by (induction es) (auto simp: discard_def)

text \<open>The start of the loop, in terms of the due and the later entries.\<close>

lemma start_turn:
  assumes inv: "pq_inv q0" and peek: "peek_next_key flags bound q0 = (q, Some key)"
  shows "turn flags bound (fst key) q (Some key) (due flags bound (pq_entries q0)) (later flags bound (pq_entries q0))"
    "due flags bound (pq_entries q0) \<noteq> []"
proof -
  note ps = peek_starts [OF inv peek]
  have "first_key bound (pq_entries q) = Some key" "pq_inv q" using ps(1) by (auto simp: after_peek_def)
  then obtain e r where e: "pq_entries q = e # r" "key = fst e" "fst key \<le> bound" using first_key_SomeD by blast
  have ds: "discard flags bound (pq_entries q0) = e # r" using ps(4) e(1) by simp
  have lv: "live flags e" using discard_head_live [OF ds] e(2,3) by simp
  let ?A = "takeWhile (\<lambda>x. entry_time x = entry_time e) (e # r)"
  let ?B = "dropWhile (\<lambda>x. entry_time x = entry_time e) (e # r)"
  have due: "due flags bound (pq_entries q0) = filter (live flags) ?A"
    and lat: "later flags bound (pq_entries q0) = ?B"
    using ds e(2,3) unfolding due_def later_def by auto
  have A: "?A = e # takeWhile (\<lambda>x. entry_time x = entry_time e) r" by simp
  then show ne: "due flags bound (pq_entries q0) \<noteq> []" using due lv by simp
  have "sorted (map entry_time (e # r))"
    using sorted_pq_entries [of q] e(1) by (auto simp: less_eq_prod_def sorted_wrt_map sorted_map elim!: sorted_wrt_mono_rel [rotated])
  moreover have "\<forall>x \<in> set (e # r). entry_time e \<le> entry_time x"
    using sorted_times [of e r] sorted_pq_entries [of q] e(1) by simp
  ultimately have "\<forall>x \<in> set ?B. fst key < entry_time x"
    unfolding e(2) using sorted_dropWhile_gt [of entry_time "e # r" "entry_time e"] by blast
  moreover have "pq_entries q = ?A @ ?B" using e(1) by (simp only: takeWhile_dropWhile_id)
  moreover have "\<forall>x \<in> set ?A. entry_time x = fst key" unfolding e(2) by (blast dest: set_takeWhileD)
  moreover have "?A \<noteq> []" "live flags (hd ?A)" "Some key = Some (fst (hd ?A))" using A lv e(2) by auto
  ultimately show "turn flags bound (fst key) q (Some key) (due flags bound (pq_entries q0)) (later flags bound (pq_entries q0))"
    unfolding turn_def lat if_not_P [OF ne] using \<open>pq_inv q\<close> due by blast
qed

lemma step_to_next_effect:
  assumes inv: "pq_inv (sched_queue (sim_sched s))"
    and ok: "\<not> sim_is_terminated s" "\<not> sched_halted (sim_sched s)"
    and bound: "bound = (case ub of None \<Rightarrow> env_max E | Some t \<Rightarrow> t)"
    and L: "L = due (sched_flags (sim_sched s)) bound (pq_entries (sched_queue (sim_sched s)))" "L \<noteq> []"
    and fuel: "length L \<le> fuel" "length L \<le> pq_room (sched_queue (sim_sched s))"
    and adv: "\<forall>e \<in> set L. advances (env_add E) e"
  shows "\<exists>q s1. pq_inv q \<and>
    pq_entries q = discard (sched_flags (sim_sched s)) bound (fold (resched (env_add E)) L
      (later (sched_flags (sim_sched s)) bound (pq_entries (sched_queue (sim_sched s))))) \<and>
    s1 = s\<lparr>sim_sched := (sim_sched s)\<lparr>sched_time := entry_time (hd L), sched_queue := q\<rparr>,
           sim_tasks := sim_tasks s @ map group_task (runs L)\<rparr> \<and>
    step_to_next E fuel ub s =
      (case synchronize E (entry_time (hd L)) s1 of
         (s2, Some lag) \<Rightarrow> Done (s2, Inl (OutOfSync lag))
       | (s2, None) \<Rightarrow>
           (case sim_run E s2 of
              None \<Rightarrow> Panicked
            | Some (s3, Inl e) \<Rightarrow> Done (s3, Inl e)
            | Some (s3, Inr _) \<Rightarrow> Done (s3, Inr (Some (entry_time (hd L))))))"
proof -
  let ?g = "sim_sched s"
  obtain q0 key where peek: "peek_next_key (sched_flags ?g) bound (sched_queue ?g) = (q0, key)"
    by (metis prod.collapse)
  have "key \<noteq> None"
  proof
    assume "key = None"
    then have "None = first_key bound (discard (sched_flags ?g) bound (pq_entries (sched_queue ?g)))"
      using peek_next_key_correct [OF inv, of "sched_flags ?g" bound] peek by auto
    then show False using L by (auto simp: due_def first_key_def split: list.splits if_splits)
  qed
  then obtain k where k: "key = Some k" by blast
  note ps = peek_starts [OF inv peek [unfolded k]]
  note tn = start_turn(1) [OF inv peek [unfolded k], folded L(1)]
  have kt: "fst k = entry_time (hd L)" using turn_head [OF tn L(2)] by simp
  obtain q where sl: "spawn_loop (env_add E) (sched_flags ?g) bound k fuel q0 (sim_tasks s)
        = Done (q, sim_tasks s @ map group_task (runs L))"
      "pq_inv q" "pq_entries q = discard (sched_flags ?g) bound (fold (resched (env_add E)) L
        (later (sched_flags ?g) bound (pq_entries (sched_queue ?g))))"
    using spawn_loop_correct [OF tn L(2) ps(2) refl fuel(1) _ adv, of "sim_tasks s"] fuel(2) ps(3) by auto
  show ?thesis
    using ok peek k sl kt bound
    by (intro exI [of _ q] exI conjI refl) (simp_all add: step_to_next_def Let_def)
qed

section \<open>Stepping ends\<close>

lemma pq_entries_le_u64: "pq_inv q \<Longrightarrow> length (pq_entries q) \<le> u64_max"
proof -
  assume inv: "pq_inv q"
  have "length (pq_heap q) = card (pq_epoch ` set (pq_heap q))"
    using inv by (metis distinct_card length_map pq_inv_def set_map)
  also have "\<dots> \<le> card {..< pq_next_epoch q}"
    using inv by (intro card_mono) (auto simp: pq_inv_def)
  finally show ?thesis using inv by (simp add: pq_entries_def pq_inv_def)
qed

lemma sim_run_positive:
  assumes ex: "exec_positive E" and inv: "sched_inv (sim_sched s)" and pos: "positive_periods (sim_sched s)"
    and run: "sim_run E s = Some (s', r)"
  shows "positive_periods (sim_sched s')"
proof -
  obtain cs w x where x: "env_exec E (sim_timeout s) (sim_sched s) (sim_tasks s) (sim_world s) = (cs, w, x)"
    by (metis prod.collapse)
  then have "\<forall>c \<in> set cs. call_positive c" using ex by (metis exec_positive_def fst_conv)
  then have "positive_periods (perform_calls (env_add E) cs (sim_sched s))"
    using perform_calls_positive [OF inv pos] by blast
  then show ?thesis using run x pos
    by (auto simp: sim_run_def Let_def bind_eq_Some_conv split: if_splits option.splits)
qed

lemma step_to_next_ends:
  assumes add: "add_forward (env_add E)" and ex: "exec_positive E"
    and inv: "sched_inv (sim_sched s)" and pos: "positive_periods (sim_sched s)"
    and fuel: "length (pq_entries (sched_queue (sim_sched s))) \<le> fuel"
  shows "step_to_next E fuel ub s \<noteq> OutOfFuel"
    "step_to_next E fuel ub s = Done (s', r) \<Longrightarrow> positive_periods (sim_sched s')"
proof -
  let ?g = "sim_sched s"
  let ?bound = "case ub of None \<Rightarrow> env_max E | Some t \<Rightarrow> t"
  have pinv: "pq_inv (sched_queue ?g)" using inv by (simp add: sched_inv_def)
  obtain q key where peek: "peek_next_key (sched_flags ?g) ?bound (sched_queue ?g) = (q, key)"
    by (metis prod.collapse)
  have sub: "set (pq_entries q) \<subseteq> set (pq_entries (sched_queue ?g))" "length (pq_entries q) \<le> fuel"
    using peek_next_key_correct [OF pinv, of "sched_flags ?g" ?bound] peek fuel
      length_dropWhile_le [of _ "pq_entries (sched_queue ?g)"]
    by (auto simp: discard_def dest: set_dropWhileD intro: order_trans)
  have posq: "\<forall>e \<in> set (pq_entries q). positive_period (snd e)"
    using pos sub(1) by (auto simp: positive_periods_def)
  have "step_to_next E fuel ub s \<noteq> OutOfFuel \<and>
      (step_to_next E fuel ub s = Done (s', r) \<longrightarrow> positive_periods (sim_sched s'))"
  proof (cases "sim_is_terminated s \<or> sched_halted ?g \<or> key = None")
    case True
    moreover have "positive_periods (?g\<lparr>sched_queue := q\<rparr>)" using posq by (simp add: positive_periods_def)
    ultimately show ?thesis using pos peek by (auto simp: step_to_next_def Let_def)
  next
    case False
    then obtain k where k: "key = Some k" by blast
    note ps = peek_starts [OF pinv peek [unfolded k]]
    have "count_at (fst k) q \<le> fuel"
      unfolding count_at_def by (rule order_trans [OF length_filter_le sub(2)])
    note sf = spawn_loop_fuel [OF add ps(1) refl posq this, of "sched_flags ?g" "sim_tasks s"]
    show ?thesis
    proof (cases "spawn_loop (env_add E) (sched_flags ?g) ?bound k fuel q (sim_tasks s)")
      case (Done y)
      obtain q1 ts where y: "y = (q1, ts)" by (cases y)
      note sl = Done [unfolded y]
      let ?s1 = "s\<lparr>sim_sched := ?g\<lparr>sched_time := fst k, sched_queue := q1\<rparr>, sim_tasks := ts\<rparr>"
      have inv1: "sched_inv (sim_sched ?s1)" "positive_periods (sim_sched ?s1)"
        using spawn_loop_keeps [OF add ps(2,1) refl sl] sf sl by (auto simp: sched_inv_def positive_periods_def)
      obtain s2 x where sy: "synchronize E (fst k) ?s1 = (s2, x)" by (metis prod.collapse)
      have s2: "sched_inv (sim_sched s2)" "positive_periods (sim_sched s2)"
        using synchronize_sched [OF sy] inv1 by auto
      have eq: "step_to_next E fuel ub s = (case x of
            Some lag \<Rightarrow> Done (s2, Inl (OutOfSync lag))
          | None \<Rightarrow> (case sim_run E s2 of None \<Rightarrow> Panicked
              | Some (s3, Inl e) \<Rightarrow> Done (s3, Inl e) | Some (s3, Inr _) \<Rightarrow> Done (s3, Inr (Some (fst k)))))"
        using False peek k sl sy by (simp add: step_to_next_def Let_def split: option.splits)
      show ?thesis unfolding eq using s2 sim_run_positive [OF ex s2]
        by (auto split: option.splits sum.splits prod.splits)
    qed (use False peek k sf in \<open>auto simp: step_to_next_def Let_def\<close>)
  qed
  then show "step_to_next E fuel ub s \<noteq> OutOfFuel"
    "step_to_next E fuel ub s = Done (s', r) \<Longrightarrow> positive_periods (sim_sched s')" by auto
qed

lemma step_until_unchecked_ends:
  assumes add: "add_forward (env_add E)" and ex: "exec_positive E" and fuel: "u64_max \<le> fuel"
  shows "sched_inv (sim_sched s) \<Longrightarrow> positive_periods (sim_sched s) \<Longrightarrow>
    finite {sched_time (sim_sched s) <.. t} \<Longrightarrow> card {sched_time (sim_sched s) <.. t} < n \<Longrightarrow>
    step_until_unchecked E n fuel (Some t) s \<noteq> OutOfFuel"
proof (induction n arbitrary: s)
  case (Suc n)
  have len: "length (pq_entries (sched_queue (sim_sched s))) \<le> fuel"
    using pq_entries_le_u64 Suc.prems(1) fuel by (meson order_trans sched_inv_def)
  note se = step_to_next_ends [OF add ex Suc.prems(1,2) len, of "Some t"]
  show ?case
  proof (cases "step_to_next E fuel (Some t) s")
    case (Done y)
    obtain s1 x where y: "y = (s1, x)" by (cases y)
    note st = Done [unfolded y]
    note safe = step_to_next_safe [OF add Suc.prems(1) st]
    show ?thesis
    proof (cases "\<exists>u. x = Inr (Some u) \<and> u \<noteq> t")
      case True
      then obtain u where u: "x = Inr (Some u)" "u \<noteq> t" by blast
      have lt: "sched_time (sim_sched s) < u" "sched_time (sim_sched s1) = u" "u \<le> t"
        using safe(3) u by auto
      let ?I = "{sched_time (sim_sched s) <.. t}"
      have sub: "{sched_time (sim_sched s1) <.. t} \<subset> ?I"
        using lt by (auto simp: psubset_eq)
      have "card {sched_time (sim_sched s1) <.. t} < card ?I"
        using Suc.prems(3) sub by (rule psubset_card_mono)
      moreover have "finite {sched_time (sim_sched s1) <.. t}"
        using Suc.prems(3) sub by (meson finite_subset psubset_imp_subset)
      ultimately have "step_until_unchecked E n fuel (Some t) s1 \<noteq> OutOfFuel"
        using Suc.IH [OF safe(1) se(2) [OF st]] Suc.prems(4) by simp
      then show ?thesis using st u by simp
    next
      case False
      then show ?thesis using st by (cases x) auto
    qed
  qed (use se(1) in auto)
qed simp

section \<open>Null periods\<close>

lemma set_resched_mono: "set es \<subseteq> set (resched add e es)"
  by (auto simp: resched_def split: option.splits)

lemma live_not_discarded: "e \<in> set es \<Longrightarrow> live flags e \<Longrightarrow> e \<in> set (discard flags bound es)"
  by (induction es) (auto simp: discard_def)

lemma null_entry_keeps:
  assumes inv: "pq_inv q" and null: "has_null_entry add flags t q"
    and pull: "pull_next_action add q = Some (q1, a)" and peek: "peek_next_key flags bound q1 = (q2, nk)"
  shows "has_null_entry add flags t q2"
proof -
  obtain e es where e: "pq_entries q = e # es" "pq_inv q1" "pq_entries q1 = resched add e es"
    using pull_next_action_cases [OF inv pull] by blast
  obtain x where x: "x \<in> set (pq_entries q)" "entry_time x = t" "live flags x" "next_entry add x = Some x"
    using null by (auto simp: has_null_entry_def)
  have "x \<in> set (resched add e es)"
  proof (cases "x = e")
    case True
    then show ?thesis using x(4) by (cases e) (simp add: resched_def)
  next
    case False
    then show ?thesis using x(1) e(1) set_resched_mono [of es add e] by auto
  qed
  moreover have "pq_entries q2 = discard flags bound (pq_entries q1)"
    using peek_next_key_correct [OF e(2), of flags bound] peek by auto
  ultimately show ?thesis
    using x live_not_discarded [of x "resched add e es" flags bound] e(3) unfolding has_null_entry_def by auto
qed

lemma null_entry_next_key:
  assumes "after_peek bound t q nk" "t \<le> bound" "has_null_entry add flags t q"
  obtains k where "nk = Some k" "fst k = t"
proof (rule ccontr)
  assume "\<not> thesis"
  then have "\<forall>k. nk = Some k \<longrightarrow> fst k \<noteq> t" using that by blast
  from after_peek_over [OF assms(1,2) this] show False
    using assms(3) by (auto simp: has_null_entry_def)
qed

lemma seq_loop_null:
  assumes add: "add_forward add"
  shows "after_peek bound t q nk0 \<Longrightarrow> has_null_entry add flags t q \<Longrightarrow>
    seq_loop add flags bound key n q acc = Done (q', futs, nk) \<Longrightarrow> has_null_entry add flags t q'"
proof (induction n arbitrary: q nk0 acc)
  case (Suc n)
  from Suc.prems(3) obtain q1 a where pull: "pull_next_action add q = Some (q1, a)"
    by (auto split: option.splits)
  obtain q2 nk2 where peek: "peek_next_key flags bound q1 = (q2, nk2)" by (metis prod.collapse)
  note k = pull_peek_keeps [OF add Suc.prems(1) pull peek]
  have inv: "pq_inv q" using Suc.prems(1) by (simp add: after_peek_def)
  note nl = null_entry_keeps [OF inv Suc.prems(2) pull peek]
  have "(if nk2 \<noteq> Some key then Done (q2, acc @ [into_future a], nk2)
      else seq_loop add flags bound key n q2 (acc @ [into_future a])) = Done (q', futs, nk)"
    using Suc.prems(3) pull peek by (simp add: Let_def)
  then show ?case using Suc.IH [OF k nl] nl by (metis Pair_inject outcome.inject)
qed simp

lemma spawn_loop_null:
  assumes add: "add_forward add" and t: "t \<le> bound"
  shows "after_peek bound t q (Some key) \<Longrightarrow> fst key = t \<Longrightarrow> has_null_entry add flags t q \<Longrightarrow>
    spawn_loop add flags bound key n q tasks \<noteq> Done r"
proof (induction n arbitrary: q key tasks)
  case (Suc n)
  show ?case
  proof
    assume ret: "spawn_loop add flags bound key (Suc n) q tasks = Done r"
    then obtain q1 a where pull: "pull_next_action add q = Some (q1, a)"
      by (auto split: option.splits)
    obtain q2 nk2 where peek: "peek_next_key flags bound q1 = (q2, nk2)" by (metis prod.collapse)
    note k2 = pull_peek_keeps [OF add Suc.prems(1) pull peek]
    have inv: "pq_inv q" using Suc.prems(1) by (simp add: after_peek_def)
    note nl2 = null_entry_keeps [OF inv Suc.prems(3) pull peek]
    obtain q3 task nk3 where q3: "(if nk2 \<noteq> Some key then Done (q2, Single (into_future a), nk2)
          else case seq_loop add flags bound key n q2 [into_future a] of
                 Done (q3, futs, nk) \<Rightarrow> Done (q3, Sequence futs, nk)
               | Panicked \<Rightarrow> Panicked | OutOfFuel \<Rightarrow> OutOfFuel) = Done (q3, task, nk3)"
      using ret pull peek by (auto split: outcome.splits if_splits)
    have k3: "after_peek bound t q3 nk3 \<and> has_null_entry add flags t q3"
    proof (cases "nk2 = Some key")
      case True
      then obtain futs where "seq_loop add flags bound key n q2 [into_future a] = Done (q3, futs, nk3)"
        using q3 by (auto split: outcome.splits)
      then show ?thesis using seq_loop_keeps [OF add k2] seq_loop_null [OF add k2 nl2] by blast
    qed (use q3 k2 nl2 in simp)
    then obtain k where k: "nk3 = Some k" "fst k = t" using null_entry_next_key [OF _ t] by blast
    have "spawn_loop add flags bound k n q3 (tasks @ [task]) = Done r"
      using ret pull peek q3 k Suc.prems(2) by simp
    then show False using Suc.IH [of q3 k "tasks @ [task]"] k3 k by simp
  qed
qed simp

lemma step_to_next_null:
  assumes add: "add_forward (env_add E)" and inv: "pq_inv (sched_queue (sim_sched s))"
    and ok: "\<not> sim_is_terminated s" "\<not> sched_halted (sim_sched s)"
    and null: "has_null_entry (env_add E) (sched_flags (sim_sched s)) t (sched_queue (sim_sched s))"
    and first: "\<forall>e \<in> set (pq_entries (sched_queue (sim_sched s))). t \<le> entry_time e"
    and ub: "t \<le> (case ub of None \<Rightarrow> env_max E | Some b \<Rightarrow> b)"
  shows "step_to_next E fuel ub s \<noteq> Done r"
proof -
  let ?g = "sim_sched s" and ?b = "case ub of None \<Rightarrow> env_max E | Some b \<Rightarrow> b"
  let ?fl = "sched_flags ?g"
  obtain q nk where peek: "peek_next_key ?fl ?b (sched_queue ?g) = (q, nk)" by (metis prod.collapse)
  have q: "nk = first_key ?b (pq_entries q)" "pq_inv q" "pq_entries q = discard ?fl ?b (pq_entries (sched_queue ?g))"
    using peek_next_key_correct [OF inv, of ?fl ?b] peek by auto
  have sub: "set (pq_entries q) \<subseteq> set (pq_entries (sched_queue ?g))"
    using q(3) by (auto simp: discard_def dest: set_dropWhileD)
  have ap: "after_peek ?b t q nk" using q first sub by (auto simp: after_peek_def)
  have nl: "has_null_entry (env_add E) ?fl t q"
    using null live_not_discarded [of _ "pq_entries (sched_queue ?g)" ?fl ?b] q(3)
    unfolding has_null_entry_def by metis
  obtain k where k: "nk = Some k" "fst k = t" using null_entry_next_key [OF ap ub nl] by blast
  have "spawn_loop (env_add E) ?fl ?b k fuel q (sim_tasks s) \<noteq> Done x" for x
    using spawn_loop_null [OF add ub ap [unfolded k(1)] k(2) nl] .
  then show ?thesis
    using ok peek k by (auto simp: step_to_next_def Let_def split: outcome.splits)
qed

section \<open>Final errors\<close>

lemma terminated_is_final:
  assumes "sim_is_terminated s"
  shows "step_to_next E fuel ub s = Done (s, Inl Terminated)" "sim_run E s = Some (s, Inl Terminated)"
  using assms by (auto simp: step_to_next_def sim_run_def Let_def)

lemma sim_run_error:
  "sim_run E s = Some (s', Inl e) \<Longrightarrow> sim_is_terminated s'"
  by (auto simp: sim_run_def Let_def bind_eq_Some_conv split: if_splits option.splits prod.splits)

lemma step_to_next_error:
  "step_to_next E fuel ub s = Done (s', Inl e) \<Longrightarrow> sim_is_terminated s'"
  by (auto simp: step_to_next_def Let_def dest!: sim_run_error dest: synchronize_sched
      split: if_splits option.splits prod.splits outcome.splits sum.splits)

lemma step_to_next_time:
  assumes "step_to_next E fuel ub s = Done (s', Inr (Some t))"
  shows "\<exists>q k. peek_next_key (sched_flags (sim_sched s)) (case ub of None \<Rightarrow> env_max E | Some b \<Rightarrow> b)
      (sched_queue (sim_sched s)) = (q, Some k) \<and> t = fst k"
  using assms
  by (auto simp: step_to_next_def Let_def
      split: if_splits option.splits prod.splits outcome.splits sum.splits)

lemma runs_filter:
  "sorted (map fst es) \<Longrightarrow> r \<in> set (runs es) \<Longrightarrow> r = filter (\<lambda>e. fst e = fst (hd r)) es"
proof (induction es rule: runs.induct)
  case (2 e es)
  let ?t = "takeWhile (\<lambda>x. fst x = fst e) es" and ?d = "dropWhile (\<lambda>x. fst x = fst e) es"
  have sorted: "sorted (map fst ?d)"
    using "2.prems" sorted_dropWhile [of "map fst es" "\<lambda>k. k = fst e"] by (simp add: dropWhile_map o_def)
  have gt: "fst e < fst x" if "x \<in> set ?d" for x
    using "2.prems"(1) that by (intro sorted_dropWhile_gt [of fst es "fst e" x]) auto
  have split: "filter P es = filter P ?t @ filter P ?d" for P
    by (metis filter_append takeWhile_dropWhile_id)
  show ?case
  proof (cases "r = e # ?t")
    case True
    have "filter (\<lambda>x. fst x = fst e) ?d = []" using gt by (force simp: filter_empty_conv)
    moreover have "filter (\<lambda>x. fst x = fst e) ?t = ?t"
      by (rule filter_True) (blast dest: set_takeWhileD)
    ultimately show ?thesis using True split [of "\<lambda>x. fst x = fst e"] by simp
  next
    case False
    then have r: "r \<in> set (runs ?d)" using "2.prems"(2) by simp
    have "hd r \<in> set ?d"
      using runs_same_key [OF r] runs_concat [of ?d] r by (metis UN_I hd_in_set set_concat)
    then have ne: "fst e \<noteq> fst (hd r)" using gt [of "hd r"] by simp
    then have "filter (\<lambda>x. fst x = fst (hd r)) ?t = []"
      by (auto simp: filter_empty_conv dest!: set_takeWhileD)
    then show ?thesis using "2.IH" [OF sorted r] split [of "\<lambda>x. fst x = fst (hd r)"] ne by simp
  qed
qed simp

lemma sorted_due: "sorted (map fst (due flags bound (pq_entries q)))"
proof -
  have "sorted (map fst (filter P (takeWhile Q es)))" if "sorted (map fst es)"
    for P Q and es :: "('a, 'b) entry list"
  proof -
    have "sorted (map fst (takeWhile Q es @ dropWhile Q es))" using that by simp
    then show ?thesis by (intro sorted_filter) (simp only: map_append sorted_append)
  qed
  then show ?thesis
    using sorted_discard [OF sorted_pq_entries, of flags bound q]
    by (auto simp: due_def split: list.splits simp del: takeWhile.simps)
qed

end
