(* ===== verification/Simulation_Properties.thy ===== *)
theory Simulation_Properties
  imports Simulation_Safety
begin

text \<open>
  The properties of the scheduler and of the simulation. The witnesses use an instance of
  the environment in which time is a natural number of nanoseconds, the clock is always
  synchronized and the models make no calls.
\<close>

section \<open>A concrete environment\<close>

definition nat_add :: "nat \<Rightarrow> duration \<Rightarrow> nat option" where
  "nat_add t d = Some (t + d)"

definition nat_env :: "(nat, string, unit, unit) env" where
  "nat_env = \<lparr>env_add = nat_add, env_max = u64_max, env_sync = (\<lambda>t w. (Synchronized, w)),
     env_mailbox_len = (\<lambda>w i. 0), env_exec = (\<lambda>d g ts w. ([], w, None))\<rparr>"

definition nat_sim :: "((nat \<times> nat) \<times> string action) list \<Rightarrow> (nat, string, unit) simulation" where
  "nat_sim es =
     \<lparr>sim_sched =
        \<lparr>sched_queue =
           \<lparr>pq_heap = map (\<lambda>(i, (k, a)). \<lparr>pq_key = k, pq_value = a, pq_epoch = i\<rparr>) (enumerate 0 es),
            pq_next_epoch = length es\<rparr>,
         sched_time = 0, sched_halted = False, sched_flags = []\<rparr>,
      sim_tasks = [], sim_world = (), sim_clock_tolerance = None, sim_timeout = 0,
      sim_observers = [], sim_model_names = [], sim_is_terminated = False\<rparr>"

lemma nat_add_forward: "add_forward nat_add"
  by (auto simp: add_forward_def nat_add_def)

lemma nat_env_simps [simp]: "env_add nat_env = nat_add" "env_max nat_env = u64_max"
  by (simp_all add: nat_env_def)

lemma nat_sim_empty_inv: "sched_inv (sim_sched (nat_sim []))"
  by (simp add: nat_sim_def sched_inv_def pq_inv_def pq_entries_def)

section \<open>Scheduling\<close>

text \<open>
  C11. Scheduling a cancellable periodic event: a null period is rejected first, a time that
  is not in the future is rejected next, and otherwise the event is queued behind all the
  events of the same time and origin, under a fresh key that is not cancelled; a rejected
  request leaves the queue unchanged.
\<close>

theorem keyed_periodic_scheduling:
  fixes g :: "('t::linorder, 'a) sched"
  assumes "pq_inv (sched_queue g)" "into_time add d (sched_time g) = Some t" "0 < pq_room (sched_queue g)"
  shows "\<exists>g' r. schedule_keyed_periodic_event_from add d p ev o_id g = Some (g', r) \<and>
    (if p = 0 then r = Inl NullRepetitionPeriod \<and> g' = g
     else if t \<le> sched_time g then r = Inl InvalidScheduledTime \<and> sched_queue g' = sched_queue g
     else \<exists>k. r = Inr k \<and> k \<notin> {..< length (sched_flags g)} \<and> \<not> key_is_cancelled (sched_flags g') k \<and>
       pq_entries (sched_queue g') =
         fifo_insert (t, o_id) (KeyedPeriodicAction ev p k) (pq_entries (sched_queue g)))"
proof -
  obtain q where "pq_insert (t, o_id) (KeyedPeriodicAction ev p (length (sched_flags g))) (sched_queue g) = Some q"
      "pq_entries q = fifo_insert (t, o_id) (KeyedPeriodicAction ev p (length (sched_flags g)))
         (pq_entries (sched_queue g))"
    using pq.insert_law [OF assms(1,3)] by blast
  then show ?thesis using assms(2)
    by (auto simp: schedule_keyed_periodic_event_from_def action_key_new_def key_is_cancelled_def Let_def)
qed

theorem keyed_periodic_scheduling_witness:
  "\<exists>g' r. schedule_keyed_periodic_event_from nat_add (After 5) 2 ''tick'' 7 (sim_sched (nat_sim [])) = Some (g', r) \<and>
     (\<exists>k. r = Inr k \<and> pq_entries (sched_queue g') = [((5, 7), KeyedPeriodicAction ''tick'' 2 k)])"
proof -
  have inv: "pq_inv (sched_queue (sim_sched (nat_sim [])))"
    using nat_sim_empty_inv by (simp add: sched_inv_def)
  have "into_time nat_add (After 5) (sched_time (sim_sched (nat_sim []))) = Some 5"
    "0 < pq_room (sched_queue (sim_sched (nat_sim [])))"
    by (simp_all add: nat_add_def nat_sim_def pq_room_def u64_max_def)
  from keyed_periodic_scheduling [OF inv this, of 2 "''tick''" 7] show ?thesis
    by (auto simp: nat_sim_def pq_entries_def)
qed



section \<open>Stepping\<close>

text \<open>
  C1. The effect of a step that finds actions up to its bound: time becomes the earliest
  time of a live action; exactly the live actions of that time are spawned, one task per
  maximal run of the same origin, a run of several actions as one sequence; cancelled
  actions ahead are dropped; each periodic action is queued again at its next time,
  behind its equals; then the clock is synchronized and the executor runs.
\<close>

theorem step_effect:
  assumes "pq_inv (sched_queue (sim_sched s))" "\<not> sim_is_terminated s" "\<not> sched_halted (sim_sched s)"
    and "bound = (case ub of None \<Rightarrow> env_max E | Some t \<Rightarrow> t)"
    and "L = due (sched_flags (sim_sched s)) bound (pq_entries (sched_queue (sim_sched s)))" "L \<noteq> []"
    and "length L \<le> fuel" "length L \<le> pq_room (sched_queue (sim_sched s))"
    and "\<forall>e \<in> set L. advances (env_add E) e"
  shows "\<exists>q s1. pq_inv q \<and>
    pq_entries q = discard (sched_flags (sim_sched s)) bound (fold (resched (env_add E)) L
      (later (sched_flags (sim_sched s)) bound (pq_entries (sched_queue (sim_sched s))))) \<and>
    s1 = s\<lparr>sim_sched := (sim_sched s)\<lparr>sched_time := entry_time (hd L), sched_queue := q\<rparr>,
           sim_tasks := sim_tasks s @ map group_task (runs L)\<rparr> \<and>
    step_to_next E fuel ub s =
      (case synchronize E (entry_time (hd L)) s1 of
         (s2, Some lag) \<Rightarrow> Done (s2, Inl (OutOfSync lag))
       | (s2, None) \<Rightarrow>
           (case sim_run E s2 of
              None \<Rightarrow> Panicked
            | Some (s3, Inl e) \<Rightarrow> Done (s3, Inl e)
            | Some (s3, Inr _) \<Rightarrow> Done (s3, Inr (Some (entry_time (hd L))))))"
  using step_to_next_effect [OF assms] .

abbreviation demo_sim :: "(nat, string, unit) simulation" where
  "demo_sim \<equiv> nat_sim [((3, 1), PeriodicAction ''p'' 4), ((3, 2), OnceAction ''x''), ((3, 1), OnceAction ''y'')]"

lemma demo_entries:
  "pq_entries (sched_queue (sim_sched demo_sim)) =
     [((3, 1), PeriodicAction ''p'' 4), ((3, 1), OnceAction ''y''), ((3, 2), OnceAction ''x'')]"
  "pq_inv (sched_queue (sim_sched demo_sim))"
  by (auto simp: nat_sim_def pq_entries_def pq_inv_def enumerate_eq_zip less_eq_prod_def u64_max_def)

theorem step_effect_witness:
  "\<exists>s3. step_to_next nat_env 5 None demo_sim = Done (s3, Inr (Some 3)) \<and>
     sched_time (sim_sched s3) = 3 \<and>
     pq_entries (sched_queue (sim_sched s3)) = [((7, 1), PeriodicAction ''p'' 4)]"
proof -
  let ?L = "[((3::nat, 1::nat), PeriodicAction ''p'' 4), ((3, 1), OnceAction ''y''), ((3, 2), OnceAction ''x'')]"
  have due: "?L = due (sched_flags (sim_sched demo_sim)) u64_max (pq_entries (sched_queue (sim_sched demo_sim)))"
    unfolding demo_entries by (simp add: due_def discard_def u64_max_def)
  have lat: "later (sched_flags (sim_sched demo_sim)) u64_max (pq_entries (sched_queue (sim_sched demo_sim))) = []"
    unfolding demo_entries by (simp add: later_def discard_def u64_max_def)
  have "fold (resched nat_add) ?L [] = [((7, 1), PeriodicAction ''p'' 4)]"
    by (simp add: resched_def nat_add_def)
  then have ds: "discard (sched_flags (sim_sched demo_sim)) u64_max (fold (resched nat_add) ?L []) =
      [((7, 1), PeriodicAction ''p'' 4)]"
    by (simp add: discard_def)
  have h: "\<not> sim_is_terminated demo_sim" "\<not> sched_halted (sim_sched demo_sim)"
      "u64_max = (case None of None \<Rightarrow> env_max nat_env | Some t \<Rightarrow> t)" "?L \<noteq> []" "length ?L \<le> 5"
      "length ?L \<le> pq_room (sched_queue (sim_sched demo_sim))" "\<forall>e \<in> set ?L. advances (env_add nat_env) e"
    by (simp_all add: nat_sim_def pq_room_def u64_max_def advances_def nat_add_def)
  have t3: "entry_time (hd ?L) = 3" by simp
  obtain q where q: "pq_entries q = [((7, 1), PeriodicAction ''p'' 4)]"
    and st: "step_to_next nat_env 5 None demo_sim =
      (case synchronize nat_env 3
          (demo_sim\<lparr>sim_sched := (sim_sched demo_sim)\<lparr>sched_time := 3, sched_queue := q\<rparr>,
             sim_tasks := sim_tasks demo_sim @ map group_task (runs ?L)\<rparr>) of
         (s2, Some lag) \<Rightarrow> Done (s2, Inl (OutOfSync lag))
       | (s2, None) \<Rightarrow>
           (case sim_run nat_env s2 of
              None \<Rightarrow> Panicked
            | Some (s3, Inl e) \<Rightarrow> Done (s3, Inl e)
            | Some (s3, Inr _) \<Rightarrow> Done (s3, Inr (Some 3))))"
    using step_effect [OF demo_entries(2) h(1-3) due h(4-7)] unfolding nat_env_simps lat ds t3 by blast
  show ?thesis
    unfolding st using q by (simp add: synchronize_def sim_run_def nat_env_def nat_sim_def)
qed





text \<open>
  A step that processes actions strictly advances the time, to a time within the
  bound it was given, and leaves no action pending at or before the new time.
\<close>

lemma step_advances_time:
  assumes "add_forward (env_add E)" "sched_inv (sim_sched s)"
    and "step_to_next E fuel ub s = Done (s', Inr (Some t))"
  shows "sched_time (sim_sched s) < t \<and> sched_time (sim_sched s') = t \<and> (\<forall>b. ub = Some b \<longrightarrow> t \<le> b) \<and>
    (\<forall>e \<in> set (pq_entries (sched_queue (sim_sched s'))). t < entry_time e)"
proof -
  have "sched_inv (sim_sched s')" using step_to_next_safe(1) [OF assms] .
  then show ?thesis using step_to_next_safe(3) [OF assms refl] by (auto simp: sched_inv_def)
qed

text \<open>
  C4. Stepping until a deadline that is not in the past: if it returns without error, the
  time is the deadline and every action scheduled up to it has been taken from the queue;
  a deadline in the past is reported and changes nothing.
\<close>

theorem step_until_reaches_deadline:
  assumes "add_forward (env_add E)" "sched_inv (sim_sched s)"
    and "into_time (env_add E) d (sched_time (sim_sched s)) = Some t"
    and "step_until E n fuel d s = Done (s', r)"
  shows "if t < sched_time (sim_sched s) then r = Inl (InvalidDeadline t) \<and> s' = s
    else r = Inr () \<longrightarrow> sched_time (sim_sched s') = t \<and>
      (\<forall>e \<in> set (pq_entries (sched_queue (sim_sched s'))). t < entry_time e)"
proof (cases "t < sched_time (sim_sched s)")
  case True
  then show ?thesis using assms(3,4) by (auto simp: step_until_def Let_def)
next
  case False
  then have "step_until_unchecked E n fuel (Some t) s = Done (s', r)"
    using assms(3,4) by (simp add: step_until_def Let_def)
  moreover have "\<forall>u. Some t = Some u \<longrightarrow> sched_time (sim_sched s) \<le> u" using False by simp
  ultimately have "sched_inv (sim_sched s')" "r = Inr () \<longrightarrow> sched_time (sim_sched s') = t"
    using step_until_unchecked_safe [OF assms(1,2)] by blast+
  then show ?thesis using False by (auto simp: sched_inv_def)
qed

theorem step_until_reaches_deadline_witness:
  "\<exists>s'. step_until nat_env 1 5 (After 6) (nat_sim []) = Done (s', Inr ()) \<and> sched_time (sim_sched s') = 6"
proof -
  have f: "(1::nat) = Suc 0" by simp
  obtain s' where st: "step_until nat_env 1 5 (After 6) (nat_sim []) = Done (s', Inr ())"
    unfolding f
    by (simp add: step_until_def step_to_next_def nat_env_def nat_add_def nat_sim_def peek_next_key.simps pq_peek_def
        finish_until_def synchronize_def)
  have "into_time (env_add nat_env) (After 6) (sched_time (sim_sched (nat_sim []))) = Some 6"
    by (simp add: nat_add_def nat_sim_def)
  from step_until_reaches_deadline [OF _ nat_sim_empty_inv this st] show ?thesis
    using st nat_add_forward by (auto simp: nat_sim_def)
qed



section \<open>Errors\<close>

text \<open>
  C12. Fatal errors are final: once a step or a run has failed, every later step and every
  later run reports that the simulation is terminated and changes nothing.
\<close>

theorem fatal_errors_are_final:
  assumes "step_to_next E fuel ub s = Done (s1, Inl e) \<or> sim_run E s = Some (s1, Inl e)"
  shows "step_to_next E fuel' ub' s1 = Done (s1, Inl Terminated) \<and> sim_run E s1 = Some (s1, Inl Terminated)"
  using assms step_to_next_error sim_run_error terminated_is_final by blast

theorem fatal_errors_are_final_witness:
  "step_to_next nat_env 1 None ((nat_sim [])\<lparr>sim_sched := (sim_sched (nat_sim []))\<lparr>sched_halted := True\<rparr>\<rparr>) =
     Done ((nat_sim [])\<lparr>sim_sched := (sim_sched (nat_sim []))\<lparr>sched_halted := True\<rparr>, sim_is_terminated := True\<rparr>, Inl Halted) \<and>
   sim_run nat_env ((nat_sim [])\<lparr>sim_sched := (sim_sched (nat_sim []))\<lparr>sched_halted := True\<rparr>, sim_is_terminated := True\<rparr>) =
     Some ((nat_sim [])\<lparr>sim_sched := (sim_sched (nat_sim []))\<lparr>sched_halted := True\<rparr>, sim_is_terminated := True\<rparr>, Inl Terminated)"
proof -
  let ?s = "(nat_sim [])\<lparr>sim_sched := (sim_sched (nat_sim []))\<lparr>sched_halted := True\<rparr>\<rparr>"
  have st: "step_to_next nat_env 1 None ?s = Done (?s\<lparr>sim_is_terminated := True\<rparr>, Inl Halted)"
    by (simp add: step_to_next_def nat_sim_def)
  show ?thesis using st fatal_errors_are_final [OF disjI1, OF st] by simp
qed



section \<open>Where the promises are not kept\<close>



text \<open>
  C15. The last write of \<open>step_until\<close> races with the scheduler: the queue is unlocked between
  the step that finds no more actions and the write of the target time. If another thread
  schedules an event in between, at a time after the current one and before the target,
  the request is accepted, the event is in the past once the target time is written, and
  the next step that processes actions moves the simulation time backwards.
\<close>

theorem step_until_race:
  fixes s :: "('t::linorder, 'a, 'w) simulation" and E :: "('t, 'a, 'w, 'p) env"
  assumes "sched_inv (sim_sched s)" "sched_time (sim_sched s) < u" "u < t" "u \<le> env_max E"
    and "0 < pq_room (sched_queue (sim_sched s))"
  shows "\<exists>g s2 r. schedule_event_from (env_add E) (At u) ev GLOBAL_SCHEDULER_ORIGIN_ID (sim_sched s) = Some (g, Inr ()) \<and>
    finish_until E (Some t) (s\<lparr>sim_sched := g\<rparr>) = (s2, r) \<and> sched_time (sim_sched s2) = t \<and>
    (\<exists>e \<in> set (pq_entries (sched_queue (sim_sched s2))). entry_time e < sched_time (sim_sched s2)) \<and>
    (\<forall>fuel s3 t'. step_to_next E fuel None s2 = Done (s3, Inr (Some t')) \<longrightarrow> t' < t)"
proof -
  have inv: "pq_inv (sched_queue (sim_sched s))" using assms(1) by (simp add: sched_inv_def)
  let ?k = "(u, GLOBAL_SCHEDULER_ORIGIN_ID)" and ?a = "OnceAction ev"
  obtain q where q: "pq_insert ?k ?a (sched_queue (sim_sched s)) = Some q" "pq_inv q"
      "pq_entries q = fifo_insert ?k ?a (pq_entries (sched_queue (sim_sched s)))"
    using pq.insert_law [OF inv assms(5), of ?k ?a] by blast
  let ?g = "(sim_sched s)\<lparr>sched_queue := q\<rparr>"
  have call: "schedule_event_from (env_add E) (At u) ev GLOBAL_SCHEDULER_ORIGIN_ID (sim_sched s) = Some (?g, Inr ())"
    using q(1) assms(2) by (simp add: schedule_event_from_def Let_def)
  obtain s2 r where fin: "finish_until E (Some t) (s\<lparr>sim_sched := ?g\<rparr>) = (s2, r)" by (metis prod.collapse)
  have s2: "sim_sched s2 = ?g\<lparr>sched_time := t\<rparr>"
    using fin synchronize_sched [of E t "s\<lparr>sim_sched := ?g\<lparr>sched_time := t\<rparr>\<rparr>"]
    by (auto simp: finish_until_def split: prod.splits option.splits)
  have mem: "(?k, ?a) \<in> set (pq_entries q)" using q(3) by simp
  have "t' \<le> u" if st: "step_to_next E fuel None s2 = Done (s3, Inr (Some t'))" for fuel s3 t'
  proof -
    obtain q' k where "peek_next_key (sched_flags (sim_sched s2)) (env_max E) q = (q', Some k)" and k: "t' = fst k"
      using step_to_next_time [OF st] s2 by auto
    note ps = peek_starts [OF q(2) this(1)]
    have "(?k, ?a) \<in> set (pq_entries q')"
      using live_not_discarded [OF mem, of "sched_flags (sim_sched s2)" "env_max E"] ps(4) by simp
    then show ?thesis using ps(1) k by (auto simp: after_peek_def)
  qed
  then have "\<forall>fuel s3 t'. step_to_next E fuel None s2 = Done (s3, Inr (Some t')) \<longrightarrow> t' < t"
    using assms(3) by (meson le_less_trans)
  moreover have "\<exists>e \<in> set (pq_entries (sched_queue (sim_sched s2))). entry_time e < sched_time (sim_sched s2)"
    using mem assms(3) s2 by (intro bexI [of _ "(?k, ?a)"]) auto
  ultimately show ?thesis using call fin s2 by auto
qed

theorem step_until_race_witness:
  "\<exists>g s2 r. schedule_event_from nat_add (At 4) ''late'' GLOBAL_SCHEDULER_ORIGIN_ID (sim_sched (nat_sim [])) = Some (g, Inr ()) \<and>
     finish_until nat_env (Some 9) ((nat_sim [])\<lparr>sim_sched := g\<rparr>) = (s2, r) \<and> sched_time (sim_sched s2) = 9 \<and>
     (\<exists>e \<in> set (pq_entries (sched_queue (sim_sched s2))). entry_time e < sched_time (sim_sched s2))"
proof -
  have h: "sched_time (sim_sched (nat_sim [])) < 4" "(4::nat) < 9" "4 \<le> env_max nat_env"
    "0 < pq_room (sched_queue (sim_sched (nat_sim [])))"
    by (simp_all add: nat_sim_def pq_room_def u64_max_def)
  from step_until_race [OF nat_sim_empty_inv h, of "''late''"] show ?thesis
    unfolding nat_env_simps by blast
qed

end
