(* ===== verification/Task_Word.thy ===== *)
theory Task_Word
  imports Nexo_Prelude
begin

text \<open>
  The state word of a task (\<open>executor/task.rs\<close>, lines 25 to 43, and
  \<open>executor/task/util.rs\<close>).  A task packs two flags, a reference count and
  a wake count in one 64-bit word; the constants are those of the source.

  The second half of the theory is the field view of the word: \<open>packed w r c p\<close> is
  the word with wake count \<open>w\<close>, reference count \<open>r\<close> and the two flags, and each
  bit operation of the source is computed on it.  The collection \<open>word_fields\<close>
  carries the proofs about the task's operations.
\<close>

unbundle bit_operations_syntax

definition POLLING :: u64 where "POLLING = 1"
definition CLOSED :: u64 where "CLOSED = push_bit 1 1"
definition REF_INC :: u64 where "REF_INC = push_bit 2 1"
definition WAKE_INC :: u64 where "WAKE_INC = push_bit 33 1"
definition REF_MASK :: u64 where "REF_MASK = NOT (REF_INC - 1) AND (WAKE_INC - 1)"
definition WAKE_MASK :: u64 where "WAKE_MASK = NOT (WAKE_INC - 1)"
definition REF_CRITICAL :: u64 where "REF_CRITICAL = (REF_MASK div 2) AND REF_MASK"
definition WAKE_CRITICAL :: u64 where "WAKE_CRITICAL = (WAKE_MASK div 2) AND WAKE_MASK"

text \<open>Whether a runnable exists, read from the state word.\<close>

definition runnable_exists :: "u64 \<Rightarrow> bool" where
  "runnable_exists state \<longleftrightarrow> state AND POLLING \<noteq> 0 \<and> state AND (WAKE_MASK OR CLOSED) \<noteq> 0"

lemmas task_consts = POLLING_def CLOSED_def REF_INC_def WAKE_INC_def

lemma task_const_values:
  "POLLING = 0x1" "CLOSED = 0x2" "REF_INC = 0x4" "WAKE_INC = 0x200000000"
  "REF_MASK = 0x1FFFFFFFC" "WAKE_MASK = 0xFFFFFFFE00000000"
  "REF_CRITICAL = 0xFFFFFFFC" "WAKE_CRITICAL = 0x7FFFFFFE00000000"
  by (simp_all add: task_consts REF_MASK_def WAKE_MASK_def REF_CRITICAL_def WAKE_CRITICAL_def)

section \<open>The field view of the state word\<close>

named_theorems word_fields "bit operations on a state word given by its fields"

definition packed :: "nat \<Rightarrow> nat \<Rightarrow> bool \<Rightarrow> bool \<Rightarrow> u64" where
  "packed w r c p = of_nat (2 ^ 33 * w + 4 * r + 2 * of_bool c + of_bool p)"

text \<open>A wake count in its position in the word.\<close>

definition wake_field :: "nat \<Rightarrow> u64" where
  "wake_field k = of_nat (2 ^ 33 * k)"

lemma bit_WAKE_MASK: "bit WAKE_MASK i \<longleftrightarrow> 33 \<le> i \<and> i < 64"
proof -
  have "WAKE_MASK = NOT (mask 33)"
    by (simp add: WAKE_MASK_def WAKE_INC_def mask_eq_exp_minus_1)
  then have "bit WAKE_MASK i \<longleftrightarrow> bit (NOT (mask 33) :: u64) i"
    by simp
  also have "\<dots> \<longleftrightarrow> 33 \<le> i \<and> i < 64"
    by (auto simp: bit_simps)
  finally show ?thesis .
qed

lemma bit_REF_MASK: "bit REF_MASK i \<longleftrightarrow> 2 \<le> i \<and> i < 33"
proof -
  have "REF_MASK = NOT (mask 2) AND mask 33"
    by (simp add: REF_MASK_def REF_INC_def WAKE_INC_def mask_eq_exp_minus_1)
  then have "bit REF_MASK i \<longleftrightarrow> bit (NOT (mask 2) AND mask 33 :: u64) i"
    by simp
  also have "\<dots> \<longleftrightarrow> 2 \<le> i \<and> i < 33"
    by (auto simp: bit_simps)
  finally show ?thesis .
qed

lemma bit_low_sum:
  fixes a b :: nat
  assumes "j < n"
  shows "bit (2 ^ n * a + b) j \<longleftrightarrow> bit b j"
proof -
  obtain m where n: "n = j + Suc m"
    using assms less_imp_Suc_add by auto
  have "2 ^ n * a + b = b + 2 ^ j * (2 ^ Suc m * a)"
    unfolding n power_add by (simp only: mult.assoc add.commute)
  then have "(2 ^ n * a + b) div 2 ^ j = b div 2 ^ j + 2 ^ Suc m * a"
    by (simp only: div_mult_self2 power_not_zero zero_neq_numeral [symmetric] not_False_eq_True add.commute)
  moreover have "even (2 ^ Suc m * a)"
    by simp
  ultimately show ?thesis
    unfolding bit_iff_odd by (simp only: even_add) simp
qed

lemma bit_high_sum:
  fixes a b :: nat
  assumes "n \<le> j" "b < 2 ^ n"
  shows "bit (2 ^ n * a + b) j \<longleftrightarrow> bit a (j - n)"
proof -
  have "2 ^ j = 2 ^ n * (2 ^ (j - n) :: nat)"
    using assms by (simp flip: power_add)
  then have "(2 ^ n * a + b) div 2 ^ j = ((2 ^ n * a + b) div 2 ^ n) div 2 ^ (j - n)"
    by (simp add: div_mult2_eq)
  also have "(2 ^ n * a + b) div 2 ^ n = a"
    using assms by simp
  finally show ?thesis
    by (simp add: bit_iff_odd)
qed

lemma fields_bit:
  assumes "i < 64"
  shows "bit (packed w r c p) i \<longleftrightarrow> bit (2 ^ 33 * w + 4 * r + 2 * of_bool c + of_bool p :: nat) i"
  using assms unfolding packed_def by (simp only: bit_of_nat_iff possible_bit_word) simp

lemma fields_and_POLLING [word_fields]:
  "packed w r c p AND POLLING = (if p then POLLING else 0)"
proof -
  have "packed w r c p AND 1 = of_bool (odd (packed w r c p))"
    by (simp add: and_one_eq mod_2_eq_odd)
  also have "odd (packed w r c p) \<longleftrightarrow> p"
    unfolding packed_def by (simp only: even_of_nat) simp
  finally show ?thesis
    by (simp add: POLLING_def)
qed

lemma fields_bit_1: "bit (packed w r c p) 1 \<longleftrightarrow> c"
proof -
  have "(2 ^ 33 * w + 4 * r + 2 * of_bool c + of_bool p :: nat) div 2 = 2 ^ 32 * w + 2 * r + of_bool c"
    by (cases c; cases p) simp_all
  moreover have "bit (packed w r c p) 1 \<longleftrightarrow> bit (2 ^ 33 * w + 4 * r + 2 * of_bool c + of_bool p :: nat) 1"
    by (rule fields_bit) simp
  ultimately show ?thesis
    by (simp add: bit_iff_odd)
qed

lemma fields_and_CLOSED [word_fields]:
  "packed w r c p AND CLOSED = (if c then CLOSED else 0)"
  by (rule bit_word_eqI) (auto simp: CLOSED_def bit_simps fields_bit_1 [simplified])

lemma fields_and_WAKE_MASK [word_fields]:
  assumes "r < 2 ^ 31"
  shows "packed w r c p AND WAKE_MASK = wake_field w"
proof (rule bit_word_eqI)
  fix i assume "i < LENGTH(64)"
  then have i: "i < 64" by simp
  have low: "4 * r + 2 * of_bool c + of_bool p < (2 ^ 33 :: nat)"
    using assms by (cases c; cases p) simp_all
  have R: "bit (wake_field w) i \<longleftrightarrow> bit (2 ^ 33 * w) i"
    using i unfolding wake_field_def by (simp only: bit_of_nat_iff possible_bit_word) simp
  show "bit (packed w r c p AND WAKE_MASK) i \<longleftrightarrow> bit (wake_field w) i"
  proof (cases "33 \<le> i")
    case True
    show ?thesis
      using bit_high_sum [OF True low, of w] bit_high_sum [OF True, of 0 w]
      unfolding bit_and_iff bit_WAKE_MASK R fields_bit [OF i] by (simp add: True i add.assoc)
  next
    case False
    then have "i < 33" by simp
    from bit_low_sum [OF this, of w 0] False show ?thesis
      unfolding bit_and_iff bit_WAKE_MASK R by simp
  qed
qed

lemma fields_and_REF_MASK:
  assumes "r < 2 ^ 31"
  shows "packed w r c p AND REF_MASK = of_nat (4 * r)"
proof (rule bit_word_eqI)
  fix i assume "i < LENGTH(64)"
  then have i: "i < 64" by simp
  have R: "bit (of_nat (4 * r) :: u64) i \<longleftrightarrow> bit (2 ^ 2 * r) i"
    using i by (simp only: bit_of_nat_iff possible_bit_word) simp
  have low: "2 * of_bool c + of_bool p < (2 ^ 2 :: nat)"
    by (cases c; cases p) simp_all
  consider "i < 2" | "2 \<le> i" "i < 33" | "33 \<le> i" by linarith
  then show "bit (packed w r c p AND REF_MASK) i \<longleftrightarrow> bit (of_nat (4 * r) :: u64) i"
  proof cases
    case 1
    from bit_low_sum [OF this, of r 0] 1 show ?thesis
      unfolding bit_and_iff bit_REF_MASK R by simp
  next
    case 2
    have "bit (2 ^ 33 * w + (2 ^ 2 * r + (2 * of_bool c + of_bool p)) :: nat) i \<longleftrightarrow> bit (2 ^ 2 * r) i"
      unfolding bit_low_sum [OF 2(2)] bit_high_sum [OF 2(1) low]
      using bit_high_sum [OF 2(1), of 0 r] by simp
    with 2 show ?thesis
      unfolding bit_and_iff bit_REF_MASK R fields_bit [OF i] by (simp add: add.assoc)
  next
    case 3
    have "2 ^ 2 * r < 2 ^ i"
      using assms power_increasing [OF 3, of "2 :: nat"] by simp
    then have "\<not> bit (2 ^ 2 * r) i"
      by (simp add: bit_iff_odd)
    with 3 show ?thesis
      unfolding bit_and_iff bit_REF_MASK R by simp
  qed
qed

text \<open>Counts below \<open>2 ^ 31\<close> are read back unambiguously.\<close>

lemma unat_u64: "n < 2 ^ 64 \<Longrightarrow> unat (of_nat n :: u64) = n"
  by (simp add: unat_of_nat)

lemma of_nat_field_less:
  assumes "x * n < 2 ^ 64" "x * m < 2 ^ 64" "0 < x"
  shows "(of_nat (x * n) :: u64) < of_nat (x * m) \<longleftrightarrow> n < m"
    and "(of_nat (x * n) :: u64) = of_nat (x * m) \<longleftrightarrow> n = m"
proof -
  have u: "unat (of_nat (x * n) :: u64) = x * n" "unat (of_nat (x * m) :: u64) = x * m"
    using assms by (intro unat_u64; simp)+
  show "(of_nat (x * n) :: u64) < of_nat (x * m) \<longleftrightarrow> n < m"
    unfolding word_less_nat_alt u using assms(3) by simp
  show "(of_nat (x * n) :: u64) = of_nat (x * m) \<longleftrightarrow> n = m"
    unfolding word_unat_eq_iff u using assms(3) by simp
qed

lemma wake_field_less [word_fields]:
  "n < 2 ^ 31 \<Longrightarrow> m < 2 ^ 31 \<Longrightarrow> wake_field n < wake_field m \<longleftrightarrow> n < m"
  unfolding wake_field_def by (rule of_nat_field_less) simp_all

lemma wake_field_eq [word_fields]:
  "n < 2 ^ 31 \<Longrightarrow> m < 2 ^ 31 \<Longrightarrow> wake_field n = wake_field m \<longleftrightarrow> n = m"
  unfolding wake_field_def by (rule of_nat_field_less) simp_all

lemma wake_field_le [word_fields]:
  "n < 2 ^ 31 \<Longrightarrow> m < 2 ^ 31 \<Longrightarrow> wake_field n \<le> wake_field m \<longleftrightarrow> n \<le> m"
  using wake_field_less [of m n] by (simp add: linorder_not_less [symmetric])

lemma wake_field_0: "wake_field 0 = 0"
  by (simp add: wake_field_def)

lemma wake_field_zero [word_fields]:
  "n < 2 ^ 31 \<Longrightarrow> wake_field n = 0 \<longleftrightarrow> n = 0"
  using wake_field_eq [of n 0] by (simp add: wake_field_0)

lemma wake_field_diff [word_fields]:
  "k \<le> w \<Longrightarrow> wake_field w - wake_field k = wake_field (w - k)"
  unfolding wake_field_def by (simp add: of_nat_diff right_diff_distrib)

lemma WAKE_CRITICAL_field: "WAKE_CRITICAL = wake_field (2 ^ 30 - 1)"
  by (simp add: task_const_values wake_field_def)

lemma wake_field_critical [word_fields]:
  "w < 2 ^ 31 \<Longrightarrow> WAKE_CRITICAL < wake_field w \<longleftrightarrow> 2 ^ 30 \<le> w"
  unfolding WAKE_CRITICAL_field by (subst wake_field_less) auto

lemma ref_field_less:
  "n < 2 ^ 31 \<Longrightarrow> m < 2 ^ 31 \<Longrightarrow> (of_nat (4 * n) :: u64) < of_nat (4 * m) \<longleftrightarrow> n < m"
  "n < 2 ^ 31 \<Longrightarrow> m < 2 ^ 31 \<Longrightarrow> (of_nat (4 * n) :: u64) = of_nat (4 * m) \<longleftrightarrow> n = m"
  by (rule of_nat_field_less; simp)+

lemma fields_ref_critical [word_fields]:
  assumes "r < 2 ^ 31"
  shows "REF_CRITICAL < packed w r c p AND REF_MASK \<longleftrightarrow> 2 ^ 30 \<le> r"
proof -
  have "REF_CRITICAL = of_nat (4 * (2 ^ 30 - 1))"
    by (simp add: task_const_values)
  then show ?thesis
    unfolding fields_and_REF_MASK [OF assms]
    using ref_field_less(1) [OF _ assms, of "2 ^ 30 - 1"] by auto
qed

lemma fields_last_ref [word_fields]:
  assumes "r < 2 ^ 31"
  shows "packed w r c p AND REF_MASK = REF_INC \<longleftrightarrow> r = 1"
    and "packed w r c p AND REF_MASK = 0 \<longleftrightarrow> r = 0"
proof -
  have "REF_INC = of_nat (4 * 1)" by (simp add: task_const_values)
  then show "packed w r c p AND REF_MASK = REF_INC \<longleftrightarrow> r = 1"
    unfolding fields_and_REF_MASK [OF assms]
    using ref_field_less(2) [OF assms, of 1] by simp
  show "packed w r c p AND REF_MASK = 0 \<longleftrightarrow> r = 0"
    unfolding fields_and_REF_MASK [OF assms]
    using ref_field_less(2) [OF assms, of 0] by simp
qed

lemma flags_nonzero [simp]: "CLOSED \<noteq> 0" "0 \<noteq> CLOSED" "POLLING \<noteq> 0" "0 \<noteq> POLLING"
  by (simp_all add: task_const_values)

lemma and_or_eq_split:
  fixes x a b k :: u64
  assumes "k AND a = k" "k AND b = 0" "a AND b = 0"
  shows "x AND (a OR b) = k \<longleftrightarrow> x AND a = k \<and> x AND b = 0"
proof
  assume eq: "x AND (a OR b) = k"
  have "x AND a = (x AND (a OR b)) AND a" "x AND b = (x AND (a OR b)) AND b"
    by (auto intro!: bit_word_eqI simp: bit_simps)
  then show "x AND a = k \<and> x AND b = 0"
    using assms unfolding eq by simp
next
  assume "x AND a = k \<and> x AND b = 0"
  then show "x AND (a OR b) = k"
    by (simp add: bit.conj_disj_distrib)
qed

lemma fields_no_wake [word_fields]:
  assumes "r < 2 ^ 31" "w < 2 ^ 31"
  shows "packed w r c p AND (WAKE_MASK OR CLOSED) = 0 \<longleftrightarrow> w = 0 \<and> \<not> c"
proof -
  have "packed w r c p AND (WAKE_MASK OR CLOSED) = 0
      \<longleftrightarrow> packed w r c p AND WAKE_MASK = 0 \<and> packed w r c p AND CLOSED = 0"
    by (rule and_or_eq_split) (simp_all add: task_const_values)
  then show ?thesis
    using assms by (simp add: fields_and_WAKE_MASK fields_and_CLOSED wake_field_zero)
qed

lemma fields_runnable_exists [word_fields]:
  assumes "r < 2 ^ 31" "w < 2 ^ 31"
  shows "runnable_exists (packed w r c p) \<longleftrightarrow> p \<and> (0 < w \<or> c)"
  using fields_no_wake [OF assms] by (auto simp: runnable_exists_def fields_and_POLLING)

lemma fields_idle [word_fields]:
  assumes "r < 2 ^ 31" "w < 2 ^ 31"
  shows "packed w r c p AND (WAKE_MASK OR CLOSED OR POLLING) = POLLING \<longleftrightarrow> w = 0 \<and> \<not> c \<and> p"
proof -
  have "packed w r c p AND (POLLING OR (WAKE_MASK OR CLOSED)) = POLLING
      \<longleftrightarrow> packed w r c p AND POLLING = POLLING \<and> packed w r c p AND (WAKE_MASK OR CLOSED) = 0"
    by (rule and_or_eq_split) (simp_all add: task_const_values)
  moreover have "POLLING OR (WAKE_MASK OR CLOSED) = WAKE_MASK OR CLOSED OR POLLING"
    by (simp add: task_const_values)
  ultimately show ?thesis
    using fields_no_wake [OF assms, of c p] by (auto simp: fields_and_POLLING)
qed

lemma fields_last_done [word_fields]:
  assumes "r < 2 ^ 31"
  shows "packed w r c p AND (REF_MASK OR POLLING) = REF_INC \<longleftrightarrow> r = 1 \<and> \<not> p"
proof -
  have "packed w r c p AND (REF_MASK OR POLLING) = REF_INC
      \<longleftrightarrow> packed w r c p AND REF_MASK = REF_INC \<and> packed w r c p AND POLLING = 0"
    by (rule and_or_eq_split) (simp_all add: task_const_values)
  then show ?thesis
    using fields_last_ref(1) [OF assms] by (simp add: fields_and_POLLING)
qed

lemma fields_completed [word_fields]:
  "packed w r c p AND (POLLING OR CLOSED) = 0 \<longleftrightarrow> \<not> p \<and> \<not> c"
proof -
  have "packed w r c p AND (POLLING OR CLOSED) = 0
      \<longleftrightarrow> packed w r c p AND POLLING = 0 \<and> packed w r c p AND CLOSED = 0"
    by (rule and_or_eq_split) (simp_all add: task_const_values)
  then show ?thesis
    by (simp add: fields_and_POLLING fields_and_CLOSED)
qed

text \<open>Arithmetic on the counts and updates of the flags.\<close>

lemma fields_add_ref [word_fields]: "packed w r c p + REF_INC = packed w (Suc r) c p"
  by (simp add: packed_def task_const_values)

lemma fields_sub_ref [word_fields]: "0 < r \<Longrightarrow> packed w r c p - REF_INC = packed w (r - 1) c p"
  using fields_add_ref [of w "r - 1" c p] by (simp add: algebra_simps)

lemma fields_add_wake [word_fields]: "packed w r c p + WAKE_INC = packed (Suc w) r c p"
  by (simp add: packed_def task_const_values)

lemma fields_wake_by_val [word_fields]:
  "0 < r \<Longrightarrow> packed w r c p + (WAKE_INC - REF_INC) = packed (Suc w) (r - 1) c p"
  using fields_sub_ref [of r "Suc w" c p] fields_add_wake [of w r c p] by (simp add: algebra_simps)

lemma fields_sub_wake [word_fields]:
  "k \<le> w \<Longrightarrow> packed w r c p - wake_field k = packed (w - k) r c p"
  by (simp add: packed_def wake_field_def of_nat_diff right_diff_distrib)

lemma fields_set_closed [word_fields]: "packed w r c p OR CLOSED = packed w r True p"
proof (cases c)
  case True
  have "packed w r True p OR CLOSED = packed w r True p"
    by (rule bit_word_eqI) (auto simp: CLOSED_def bit_simps fields_bit_1 [simplified])
  with True show ?thesis by simp
next
  case False
  have "packed w r False p + CLOSED = packed w r False p OR CLOSED"
    by (rule disjunctive_add) (auto simp: CLOSED_def bit_simps fields_bit_1 [simplified])
  moreover have "packed w r False p + CLOSED = packed w r True p"
    by (simp add: packed_def task_const_values)
  ultimately show ?thesis
    using False by simp
qed

lemma fields_clear_polling [word_fields]: "packed w r c p AND NOT POLLING = packed w r c False"
proof -
  have "packed w r c p = (packed w r c p AND NOT POLLING) OR (packed w r c p AND POLLING)"
    by (rule bit_word_eqI) (auto simp: bit_simps)
  also have "\<dots> = (packed w r c p AND NOT POLLING) + (packed w r c p AND POLLING)"
    by (rule disjunctive_add [symmetric]) (auto simp: bit_simps)
  also have "\<dots> = (packed w r c p AND NOT POLLING) + of_bool p"
    unfolding fields_and_POLLING by (simp add: POLLING_def)
  finally have "packed w r c p AND NOT POLLING = packed w r c p - of_bool p"
    by (simp add: algebra_simps)
  also have "\<dots> = packed w r c False"
    by (simp add: packed_def)
  finally show ?thesis .
qed

lemma fields_greater [word_fields]:
  assumes "r < 2 ^ 31" "w < 2 ^ 31" "k \<le> w"
  shows "wake_field k < packed w r c True"
proof -
  have "unat (wake_field k) = 2 ^ 33 * k"
    unfolding wake_field_def using assms by (intro unat_u64) simp
  moreover have "unat (packed w r c True) = 2 ^ 33 * w + 4 * r + 2 * of_bool c + 1"
    unfolding packed_def using assms by (subst unat_u64) (cases c; simp)+
  ultimately show ?thesis
    using assms(3) by (simp add: word_less_nat_alt)
qed

lemma fields_ge_ref [word_fields]:
  assumes "r < 2 ^ 31" "w < 2 ^ 31" "0 < r"
  shows "REF_INC \<le> packed w r c p"
proof -
  have "unat (packed w r c p) = 2 ^ 33 * w + 4 * r + 2 * of_bool c + of_bool p"
    unfolding packed_def using assms by (subst unat_u64) (cases c; cases p; simp)+
  then show ?thesis
    using assms by (simp add: word_le_nat_alt task_const_values)
qed

text \<open>The fields of a word.\<close>

definition wakes_of :: "u64 \<Rightarrow> nat" where "wakes_of s = unat (s AND WAKE_MASK) div 2 ^ 33"
definition refs_of :: "u64 \<Rightarrow> nat" where "refs_of s = unat (s AND REF_MASK) div 4"
definition closed_of :: "u64 \<Rightarrow> bool" where "closed_of s \<longleftrightarrow> s AND CLOSED \<noteq> 0"
definition polling_of :: "u64 \<Rightarrow> bool" where "polling_of s \<longleftrightarrow> s AND POLLING \<noteq> 0"

lemma fields_of [word_fields]:
  assumes "r < 2 ^ 31" "w < 2 ^ 31"
  shows "wakes_of (packed w r c p) = w" "refs_of (packed w r c p) = r"
    "closed_of (packed w r c p) = c" "polling_of (packed w r c p) = p"
proof -
  have "unat (wake_field w) = 2 ^ 33 * w"
    unfolding wake_field_def using assms by (intro unat_u64) simp
  then show "wakes_of (packed w r c p) = w"
    using assms by (simp add: wakes_of_def fields_and_WAKE_MASK)
  have "unat (of_nat (4 * r) :: u64) = 4 * r"
    using assms by (intro unat_u64) simp
  then show "refs_of (packed w r c p) = r"
    unfolding refs_of_def fields_and_REF_MASK [OF assms(1)] by simp
qed (simp_all add: closed_of_def polling_of_def fields_and_CLOSED fields_and_POLLING)

lemma fields_cases:
  obtains w r c p where "s = packed w r c p" "w < 2 ^ 31" "r < 2 ^ 31"
proof -
  let ?n = "unat s"
  define w r where "w = ?n div 2 ^ 33" and "r = ?n div 4 mod 2 ^ 31"
  have n: "?n < 2 ^ 64"
    using unsigned_less [of s] by simp
  have "?n = 2 ^ 33 * w + ?n mod 2 ^ 33"
    by (simp add: w_def)
  moreover have "?n mod (4 * 2 ^ 31) = 4 * (?n div 4 mod 2 ^ 31) + ?n mod 4"
    by (rule mod_mult2_eq)
  moreover have "?n mod (2 * 2) = 2 * (?n div 2 mod 2) + ?n mod 2"
    by (rule mod_mult2_eq)
  ultimately have "?n = 2 ^ 33 * w + 4 * r + 2 * of_bool (odd (?n div 2)) + of_bool (odd ?n)"
    by (simp add: r_def mod_2_eq_odd)
  then have "s = packed w r (odd (?n div 2)) (odd ?n)"
    unfolding packed_def by (metis of_nat_unat ucast_id)
  moreover have "w < 2 ^ 31" "r < 2 ^ 31"
    using n by (simp_all add: w_def r_def)
  ultimately show thesis
    by (rule that)
qed

end
