(* ===== verification/Task.thy ===== *)
theory Task
  imports Task_Word
begin

text \<open>
  Tasks of the executor (\<open>executor/task.rs\<close> and \<open>executor/task/*.rs\<close>).

  A task is a heap cell shared by a promise, a cancel token, any number of wakers and
  at most one runnable, without a lock: the state word says who owns the content.  The
  operations of the source are cut at their atomic accesses.  A handle that is between
  two accesses is in an intermediate state (a constructor of \<open>run_pc\<close>, \<open>promise_pc\<close>,
  \<open>token_pc\<close> or \<open>last_pc\<close>), and \<open>task_step\<close> interleaves the steps of all the handles
  and of the user's future in any order.  Atomics are sequentially consistent; the
  \<open>fetch_update\<close> loops are single atomic updates.

  What the unsafe code must not do raises \<open>tk_fault\<close>: an access to the cell after its
  deallocation, dropping or taking a content that is not there, deallocating a cell with
  a content, a second runnable, a failed assertion or an underflow.  Panics of the user's
  future, of the destructors of the future and of its output, of the clone of the tag
  and of the counters' overflow checks are steps of the model.
\<close>

section \<open>Data\<close>

text \<open>The union \<open>TaskCore\<close>, with the empty content made explicit.\<close>

datatype 'o task_core = Future | Output 'o | Empty

datatype 'o stage = Ready 'o | Pending | Cancelled

text \<open>The intermediate states of the runnable.\<close>

datatype 'o run_pc =
    NoRunnable
  | Created \<comment> \<open>before the scheduling function is called\<close>
  | Scheduled
  | Polling u64 \<comment> \<open>in \<open>Future::poll\<close>, with the local wake count\<close>
  | ReadyDrop 'o \<comment> \<open>about to drop the future and store the output\<close>
  | Publish
  | DropOutput
  | ClearPolling
  | ResetWake u64 \<comment> \<open>the future is pending\<close>
  | FinalDrop \<comment> \<open>no reference left: about to drop the future\<close>
  | CancelDrop \<comment> \<open>in \<open>cancel\<close>, about to drop the future\<close>
  | GuardClose \<comment> \<open>in a drop guard that enters the closed phase\<close>
  | RunDealloc

datatype promise_pc = NoPromise | PromiseIdle | PromiseTaking
datatype token_pc = NoToken | TokenIdle | TokenDropping | TokenRelease

text \<open>A handle that has released the last reference and has to free the cell.\<close>

datatype last_pc = LastFuture | LastOutput | LastDealloc

text \<open>
  The cell and its handles.  \<open>tk_lost_clones\<close> and \<open>tk_lost_wakes\<close> count the calls that
  panicked on an overflowing counter; \<open>tk_missed\<close> records that the task was woken since
  its last poll began, \<open>tk_produced\<close> the output of the future and \<open>tk_stages\<close> the
  answers of the promise, last one first.
\<close>

record 'o task_cell =
  tk_state :: u64
  tk_core :: "'o task_core"
  tk_live :: bool
  tk_fault :: bool
  tk_promise :: promise_pc
  tk_token :: token_pc
  tk_wakers :: nat
  tk_runnable :: "'o run_pc"
  tk_last :: "last_pc list"
  tk_lost_clones :: nat
  tk_lost_wakes :: nat
  tk_missed :: bool
  tk_produced :: "'o option"
  tk_stages :: "'o stage list"

section \<open>Accesses to the cell\<close>

definition check :: "bool \<Rightarrow> 'o task_cell \<Rightarrow> 'o task_cell" where
  "check b t = t\<lparr>tk_fault := tk_fault t \<or> \<not> b\<rparr>"

definition fetch_add :: "u64 \<Rightarrow> 'o task_cell \<Rightarrow> u64 \<times> 'o task_cell" where
  "fetch_add d t = (tk_state t, (check (tk_live t) t)\<lparr>tk_state := tk_state t + d\<rparr>)"

definition fetch_sub :: "u64 \<Rightarrow> 'o task_cell \<Rightarrow> u64 \<times> 'o task_cell" where
  "fetch_sub d t = (tk_state t, (check (tk_live t) t)\<lparr>tk_state := tk_state t - d\<rparr>)"

definition fetch_and :: "u64 \<Rightarrow> 'o task_cell \<Rightarrow> u64 \<times> 'o task_cell" where
  "fetch_and d t = (tk_state t, (check (tk_live t) t)\<lparr>tk_state := tk_state t AND d\<rparr>)"

text \<open>\<open>fetch_update\<close>: the old state in \<open>Inr\<close> if it was updated, in \<open>Inl\<close> if not.\<close>

definition fetch_update :: "(u64 \<Rightarrow> u64 option) \<Rightarrow> 'o task_cell \<Rightarrow> (u64 + u64) \<times> 'o task_cell" where
  "fetch_update f t = (case f (tk_state t) of
     None \<Rightarrow> (Inl (tk_state t), check (tk_live t) t)
   | Some s \<Rightarrow> (Inr (tk_state t), (check (tk_live t) t)\<lparr>tk_state := s\<rparr>))"

definition is_future :: "'o task_core \<Rightarrow> bool" where
  "is_future c \<longleftrightarrow> (case c of Future \<Rightarrow> True | _ \<Rightarrow> False)"

definition is_output :: "'o task_core \<Rightarrow> bool" where
  "is_output c \<longleftrightarrow> (case c of Output _ \<Rightarrow> True | _ \<Rightarrow> False)"

definition is_empty :: "'o task_core \<Rightarrow> bool" where
  "is_empty c \<longleftrightarrow> (case c of Empty \<Rightarrow> True | _ \<Rightarrow> False)"

text \<open>The destructors of the content, whether or not they panic, and the deallocation.\<close>

definition drop_future :: "'o task_cell \<Rightarrow> 'o task_cell" where
  "drop_future t = (check (tk_live t \<and> is_future (tk_core t)) t)\<lparr>tk_core := Empty\<rparr>"

definition drop_output :: "'o task_cell \<Rightarrow> 'o task_cell" where
  "drop_output t = (check (tk_live t \<and> is_output (tk_core t)) t)\<lparr>tk_core := Empty\<rparr>"

definition dealloc_task :: "'o task_cell \<Rightarrow> 'o task_cell" where
  "dealloc_task t = (check (tk_live t \<and> is_empty (tk_core t)) t)\<lparr>tk_live := False\<rparr>"

section \<open>Creation\<close>

definition spawn :: "'o task_cell" where
  "spawn = \<lparr>tk_state = (2 * REF_INC) OR WAKE_INC OR POLLING, tk_core = Future, tk_live = True,
     tk_fault = False, tk_promise = PromiseIdle, tk_token = TokenIdle, tk_wakers = 0,
     tk_runnable = Scheduled, tk_last = [], tk_lost_clones = 0, tk_lost_wakes = 0,
     tk_missed = False, tk_produced = None, tk_stages = []\<rparr>"

definition spawn_and_forget :: "'o task_cell" where
  "spawn_and_forget = \<lparr>tk_state = REF_INC OR WAKE_INC OR POLLING, tk_core = Future, tk_live = True,
     tk_fault = False, tk_promise = NoPromise, tk_token = TokenIdle, tk_wakers = 0,
     tk_runnable = Scheduled, tk_last = [], tk_lost_clones = 0, tk_lost_wakes = 0,
     tk_missed = False, tk_produced = None, tk_stages = []\<rparr>"

section \<open>Wakers\<close>

definition clone_waker :: "'o task_cell \<Rightarrow> 'o task_cell" where
  "clone_waker t = (let (state, t) = fetch_add REF_INC t;
     ref_count = state AND REF_MASK in
     if REF_CRITICAL < ref_count then t\<lparr>tk_lost_clones := Suc (tk_lost_clones t)\<rparr>
     else t\<lparr>tk_wakers := Suc (tk_wakers t)\<rparr>)"

text \<open>\<open>wake\<close> returns the old state, or \<open>None\<close> if it panics.\<close>

definition wake :: "u64 \<Rightarrow> 'o task_cell \<Rightarrow> u64 option \<times> 'o task_cell" where
  "wake state_delta t = (let (state, t) = fetch_add state_delta t; t = t\<lparr>tk_missed := True\<rparr> in
     if WAKE_CRITICAL < state AND WAKE_MASK
     then (None, t\<lparr>tk_lost_wakes := Suc (tk_lost_wakes t)\<rparr>)
     else if state AND (WAKE_MASK OR CLOSED OR POLLING) = POLLING
     then (Some state, (check (tk_runnable t = NoRunnable) t)\<lparr>tk_runnable := Created\<rparr>)
     else (Some state, t))"

text \<open>
  The end of the destructors of a waker, of a promise and of a token, given the state
  before the reference was released: the last handle frees the content and the cell.
\<close>

definition last_drop :: "u64 \<Rightarrow> 'o task_cell \<Rightarrow> 'o task_cell" where
  "last_drop state t =
     (if state AND REF_MASK = REF_INC \<and> \<not> runnable_exists state
      then t\<lparr>tk_last := (if state AND POLLING = POLLING then LastFuture
                         else if state AND CLOSED = 0 then LastOutput
                         else LastDealloc) # tk_last t\<rparr>
      else t)"

definition drop_waker :: "'o task_cell \<Rightarrow> 'o task_cell" where
  "drop_waker t = (let (state, t) = fetch_sub REF_INC t in
     last_drop state (t\<lparr>tk_wakers := tk_wakers t - 1\<rparr>))"

text \<open>\<open>zst\<close>: the scheduling function captures nothing (it is zero-sized).\<close>

definition wake_by_val :: "bool \<Rightarrow> 'o task_cell \<Rightarrow> 'o task_cell" where
  "wake_by_val zst t =
     (if \<not> zst then drop_waker t
      else (case wake (WAKE_INC - REF_INC) (t\<lparr>tk_wakers := tk_wakers t - 1\<rparr>) of
        (None, t) \<Rightarrow> t
      | (Some state, t) \<Rightarrow>
          if state AND (REF_MASK OR POLLING) = REF_INC
          then t\<lparr>tk_last := (if state AND CLOSED = 0 then LastOutput else LastDealloc) # tk_last t\<rparr>
          else t))"

definition wake_by_ref :: "'o task_cell \<Rightarrow> 'o task_cell" where
  "wake_by_ref t = snd (wake WAKE_INC t)"

text \<open>
  The call of the scheduling function, which first clones the tag out of the cell; if
  the clone panics, the runnable is dropped.
\<close>

definition call_schedule_fn :: "bool \<Rightarrow> 'o task_cell \<Rightarrow> 'o task_cell" where
  "call_schedule_fn ok t = (check (tk_live t) t)\<lparr>tk_runnable := (if ok then Scheduled else CancelDrop)\<rparr>"

text \<open>The two steps of a handle that frees the cell: the content, then the cell.\<close>

definition last_content :: "last_pc \<Rightarrow> 'o task_cell \<Rightarrow> 'o task_cell" where
  "last_content pc t = (case pc of
     LastFuture \<Rightarrow> drop_future t | LastOutput \<Rightarrow> drop_output t | LastDealloc \<Rightarrow> t)"

section \<open>Runnable\<close>

text \<open>The head of the loop of \<open>run\<close>.\<close>

definition run_loop :: "u64 \<Rightarrow> u64 \<Rightarrow> 'o task_cell \<Rightarrow> 'o task_cell" where
  "run_loop state wake_count t =
     (if state AND CLOSED = CLOSED then t\<lparr>tk_runnable := CancelDrop\<rparr>
      else (check (tk_live t \<and> is_future (tk_core t)) t)
             \<lparr>tk_runnable := Polling wake_count, tk_missed := False\<rparr>)"

definition run_enter :: "'o task_cell \<Rightarrow> 'o task_cell" where
  "run_enter t = (let t = check (tk_live t) t; state = tk_state t; wake_count = state AND WAKE_MASK in
     run_loop state wake_count (check (state AND POLLING = POLLING) t))"

text \<open>The three outcomes of polling the future.\<close>

definition run_pending :: "u64 \<Rightarrow> 'o task_cell \<Rightarrow> 'o task_cell" where
  "run_pending wake_count t = t\<lparr>tk_runnable := ResetWake wake_count\<rparr>"

definition run_ready :: "'o \<Rightarrow> 'o task_cell \<Rightarrow> 'o task_cell" where
  "run_ready out t = t\<lparr>tk_runnable := ReadyDrop out, tk_produced := Some out\<rparr>"

definition run_panic :: "'o task_cell \<Rightarrow> 'o task_cell" where
  "run_panic t = t\<lparr>tk_runnable := CancelDrop\<rparr>"

definition run_store :: "bool \<Rightarrow> 'o \<Rightarrow> 'o task_cell \<Rightarrow> 'o task_cell" where
  "run_store ok out t =
     (if ok then (drop_future t)\<lparr>tk_core := Output out, tk_runnable := Publish\<rparr>
      else (drop_future t)\<lparr>tk_runnable := GuardClose\<rparr>)"

definition run_publish :: "'o task_cell \<Rightarrow> 'o task_cell" where
  "run_publish t =
     (case fetch_update (\<lambda>s. if s AND CLOSED = CLOSED \<or> s AND REF_MASK = 0 then None
                              else Some (s AND NOT POLLING)) t of
        (Inr _, t) \<Rightarrow> t\<lparr>tk_runnable := NoRunnable\<rparr>
      | (Inl _, t) \<Rightarrow> t\<lparr>tk_runnable := DropOutput\<rparr>)"

definition run_drop_output :: "bool \<Rightarrow> 'o task_cell \<Rightarrow> 'o task_cell" where
  "run_drop_output ok t = (drop_output t)\<lparr>tk_runnable := (if ok then ClearPolling else GuardClose)\<rparr>"

definition run_clear :: "'o task_cell \<Rightarrow> 'o task_cell" where
  "run_clear t = (let (state, t) = fetch_and (NOT POLLING) t in
     t\<lparr>tk_runnable := (if state AND REF_MASK = 0 then RunDealloc else NoRunnable)\<rparr>)"

definition run_reset :: "u64 \<Rightarrow> 'o task_cell \<Rightarrow> 'o task_cell" where
  "run_reset wake_count t = (let (state, t) = fetch_sub wake_count t;
     t = check (wake_count < state \<and> wake_count \<le> state AND WAKE_MASK) t;
     wake_count = (state AND WAKE_MASK) - wake_count in
     if wake_count = 0 \<and> state AND CLOSED = 0
     then t\<lparr>tk_runnable := (if state AND REF_MASK = 0 then FinalDrop else NoRunnable)\<rparr>
     else run_loop state wake_count t)"

definition run_final_drop :: "'o task_cell \<Rightarrow> 'o task_cell" where
  "run_final_drop t = (drop_future t)\<lparr>tk_runnable := RunDealloc\<rparr>"

text \<open>\<open>cancel\<close> of the runnable: the future is dropped, then the guard closes the task.\<close>

definition cancel_drop :: "'o task_cell \<Rightarrow> 'o task_cell" where
  "cancel_drop t = (drop_future t)\<lparr>tk_runnable := GuardClose\<rparr>"

definition guard_close :: "'o task_cell \<Rightarrow> 'o task_cell" where
  "guard_close t = (case fetch_update (\<lambda>s. Some ((s OR CLOSED) AND NOT POLLING)) t of
      (Inl _, t) \<Rightarrow> check False t
    | (Inr state, t) \<Rightarrow> t\<lparr>tk_runnable := (if state AND REF_MASK = 0 then RunDealloc else NoRunnable)\<rparr>)"

definition run_dealloc :: "'o task_cell \<Rightarrow> 'o task_cell" where
  "run_dealloc t = (dealloc_task t)\<lparr>tk_runnable := NoRunnable\<rparr>"

definition runnable_drop :: "'o task_cell \<Rightarrow> 'o task_cell" where
  "runnable_drop t = t\<lparr>tk_runnable := CancelDrop\<rparr>"

section \<open>Promise\<close>

definition promise_poll :: "'o task_cell \<Rightarrow> 'o task_cell" where
  "promise_poll t =
     (case fetch_update (\<lambda>s. if s AND (POLLING OR CLOSED) = 0 then Some (s OR CLOSED) else None) t of
        (Inl s, t) \<Rightarrow>
          t\<lparr>tk_stages := (if s AND CLOSED = CLOSED then Cancelled else Pending) # tk_stages t\<rparr>
      | (Inr _, t) \<Rightarrow> t\<lparr>tk_promise := PromiseTaking\<rparr>)"

definition promise_take :: "'o task_cell \<Rightarrow> 'o task_cell" where
  "promise_take t = (case tk_core t of
      Output out \<Rightarrow> (check (tk_live t) t)
        \<lparr>tk_core := Empty, tk_promise := PromiseIdle, tk_stages := Ready out # tk_stages t\<rparr>
    | _ \<Rightarrow> check False t)"

definition promise_drop :: "'o task_cell \<Rightarrow> 'o task_cell" where
  "promise_drop t = (let (state, t) = fetch_sub REF_INC t in
     last_drop state (t\<lparr>tk_promise := NoPromise\<rparr>))"

section \<open>Cancel token\<close>

definition token_cancel :: "'o task_cell \<Rightarrow> 'o task_cell" where
  "token_cancel t =
     (case fetch_update (\<lambda>s.
         if s AND POLLING = 0 then Some (s - REF_INC)
         else if runnable_exists s then Some ((s OR CLOSED) - REF_INC)
         else Some ((s OR CLOSED) AND NOT POLLING)) (check (REF_INC \<le> tk_state t) t) of
       (Inl _, t) \<Rightarrow> check False t
     | (Inr state, t) \<Rightarrow>
         if runnable_exists state then t\<lparr>tk_token := NoToken\<rparr>
         else if state AND POLLING = 0 then
           (if state AND REF_MASK = REF_INC
            then t\<lparr>tk_token := NoToken,
                   tk_last := (if state AND CLOSED = 0 then LastOutput else LastDealloc) # tk_last t\<rparr>
            else t\<lparr>tk_token := NoToken\<rparr>)
         else t\<lparr>tk_token := TokenDropping\<rparr>)"

definition token_drop_future :: "'o task_cell \<Rightarrow> 'o task_cell" where
  "token_drop_future t = (drop_future t)\<lparr>tk_token := TokenRelease\<rparr>"

definition token_release :: "'o task_cell \<Rightarrow> 'o task_cell" where
  "token_release t = (let (state, t) = fetch_sub REF_INC t in
     if state AND REF_MASK = REF_INC
     then t\<lparr>tk_token := NoToken, tk_last := LastDealloc # tk_last t\<rparr>
     else t\<lparr>tk_token := NoToken\<rparr>)"

definition token_drop :: "'o task_cell \<Rightarrow> 'o task_cell" where
  "token_drop t = (let (state, t) = fetch_sub REF_INC t in
     last_drop state (t\<lparr>tk_token := NoToken\<rparr>))"

section \<open>Interleaving\<close>

text \<open>While the future is polled it can use the waker of its context, which is borrowed.\<close>

definition waker_available :: "'o task_cell \<Rightarrow> bool" where
  "waker_available t \<longleftrightarrow> 0 < tk_wakers t \<or> (case tk_runnable t of Polling _ \<Rightarrow> True | _ \<Rightarrow> False)"

inductive task_step :: "bool \<Rightarrow> 'o task_cell \<Rightarrow> 'o task_cell \<Rightarrow> bool" for zst where
  clone: "waker_available t \<Longrightarrow> task_step zst t (clone_waker t)"
| wake_ref: "waker_available t \<Longrightarrow> task_step zst t (wake_by_ref t)"
| wake_val: "0 < tk_wakers t \<Longrightarrow> task_step zst t (wake_by_val zst t)"
| waker: "0 < tk_wakers t \<Longrightarrow> task_step zst t (drop_waker t)"
| last_content: "tk_last t = xs @ pc # ys \<Longrightarrow> pc \<noteq> LastDealloc \<Longrightarrow>
    task_step zst t ((last_content pc t)\<lparr>tk_last := xs @ LastDealloc # ys\<rparr>)"
| last_dealloc: "tk_last t = xs @ LastDealloc # ys \<Longrightarrow>
    task_step zst t ((dealloc_task t)\<lparr>tk_last := xs @ ys\<rparr>)"
| schedule: "tk_runnable t = Created \<Longrightarrow> task_step zst t (call_schedule_fn ok t)"
| enter: "tk_runnable t = Scheduled \<Longrightarrow> task_step zst t (run_enter t)"
| unscheduled: "tk_runnable t = Scheduled \<Longrightarrow> task_step zst t (runnable_drop t)"
| pending: "tk_runnable t = Polling wc \<Longrightarrow> task_step zst t (run_pending wc t)"
| ready: "tk_runnable t = Polling wc \<Longrightarrow> task_step zst t (run_ready out t)"
| panic: "tk_runnable t = Polling wc \<Longrightarrow> task_step zst t (run_panic t)"
| store: "tk_runnable t = ReadyDrop out \<Longrightarrow> task_step zst t (run_store ok out t)"
| publish: "tk_runnable t = Publish \<Longrightarrow> task_step zst t (run_publish t)"
| drop_out: "tk_runnable t = DropOutput \<Longrightarrow> task_step zst t (run_drop_output ok t)"
| clear: "tk_runnable t = ClearPolling \<Longrightarrow> task_step zst t (run_clear t)"
| reset: "tk_runnable t = ResetWake wc \<Longrightarrow> task_step zst t (run_reset wc t)"
| final: "tk_runnable t = FinalDrop \<Longrightarrow> task_step zst t (run_final_drop t)"
| cancel: "tk_runnable t = CancelDrop \<Longrightarrow> task_step zst t (cancel_drop t)"
| guard: "tk_runnable t = GuardClose \<Longrightarrow> task_step zst t (guard_close t)"
| dealloc: "tk_runnable t = RunDealloc \<Longrightarrow> task_step zst t (run_dealloc t)"
| poll: "tk_promise t = PromiseIdle \<Longrightarrow> task_step zst t (promise_poll t)"
| take: "tk_promise t = PromiseTaking \<Longrightarrow> task_step zst t (promise_take t)"
| promise: "tk_promise t = PromiseIdle \<Longrightarrow> task_step zst t (promise_drop t)"
| token_cancel: "tk_token t = TokenIdle \<Longrightarrow> task_step zst t (token_cancel t)"
| token_future: "tk_token t = TokenDropping \<Longrightarrow> task_step zst t (token_drop_future t)"
| token_release: "tk_token t = TokenRelease \<Longrightarrow> task_step zst t (token_release t)"
| token: "tk_token t = TokenIdle \<Longrightarrow> task_step zst t (token_drop t)"

text \<open>The states of a task from its creation on.\<close>

inductive task_reach :: "bool \<Rightarrow> 'o task_cell \<Rightarrow> bool" for zst where
  spawned: "task_reach zst spawn"
| forgotten: "task_reach zst spawn_and_forget"
| stepped: "task_reach zst t \<Longrightarrow> task_step zst t t' \<Longrightarrow> task_reach zst t'"

end
