(* ===== verification/Task_Safety.thy ===== *)
theory Task_Safety
  imports Task
begin

text \<open>
  The invariant of a task and that every step keeps it, for every interleaving of the
  handles: \<open>task_at w r c p t\<close> says that the word of a live cell has these fields and what
  they say of the handles and of the content, \<open>task_dead\<close> describes a freed cell.
\<close>

section \<open>The invariant\<close>

fun handles :: "promise_pc \<Rightarrow> token_pc \<Rightarrow> nat \<Rightarrow> nat \<Rightarrow> nat" where
  "handles q k n l = of_bool (q \<noteq> NoPromise) + of_bool (k \<noteq> NoToken) + n + l"

definition refs :: "'o task_cell \<Rightarrow> nat" where
  "refs t = handles (tk_promise t) (tk_token t) (tk_wakers t) (tk_lost_clones t)"

text \<open>What each state of the runnable says of the fields of the word and of the content.\<close>

fun run_ok :: "'o run_pc \<Rightarrow> nat \<Rightarrow> nat \<Rightarrow> bool \<Rightarrow> bool \<Rightarrow> bool \<Rightarrow> 'o option \<Rightarrow> 'o task_core \<Rightarrow> bool" where
  "run_ok NoRunnable w r c p m out k = True"
| "run_ok Created w r c p m out k \<longleftrightarrow> p \<and> 0 < w \<and> k = Future"
| "run_ok Scheduled w r c p m out k \<longleftrightarrow> p \<and> 0 < w \<and> k = Future"
| "run_ok (Polling wc) w r c p m out k \<longleftrightarrow> p \<and> k = Future
     \<and> (\<exists>j. wc = wake_field j \<and> 0 < j \<and> j \<le> w \<and> (m \<longrightarrow> j < w))"
| "run_ok (ResetWake wc) w r c p m out k \<longleftrightarrow> p \<and> k = Future
     \<and> (\<exists>j. wc = wake_field j \<and> 0 < j \<and> j \<le> w \<and> (m \<longrightarrow> j < w))"
| "run_ok (ReadyDrop x) w r c p m out k \<longleftrightarrow> p \<and> 0 < w \<and> k = Future \<and> out = Some x"
| "run_ok Publish w r c p m out k \<longleftrightarrow> p \<and> 0 < w \<and> is_output k"
| "run_ok DropOutput w r c p m out k \<longleftrightarrow> p \<and> 0 < w \<and> (c \<or> r = 0) \<and> is_output k"
| "run_ok ClearPolling w r c p m out k \<longleftrightarrow> p \<and> 0 < w \<and> (c \<or> r = 0) \<and> k = Empty"
| "run_ok FinalDrop w r c p m out k \<longleftrightarrow> p \<and> w = 0 \<and> \<not> c \<and> r = 0 \<and> k = Future"
| "run_ok CancelDrop w r c p m out k \<longleftrightarrow> p \<and> (0 < w \<or> c) \<and> k = Future"
| "run_ok GuardClose w r c p m out k \<longleftrightarrow> p \<and> (0 < w \<or> c) \<and> k = Empty"
| "run_ok RunDealloc w r c p m out k \<longleftrightarrow> r = 0 \<and> k = Empty"

text \<open>What a handle that frees the cell says of the content.\<close>

fun last_ok :: "last_pc \<Rightarrow> 'o task_core \<Rightarrow> bool" where
  "last_ok LastFuture k \<longleftrightarrow> k = Future"
| "last_ok LastOutput k \<longleftrightarrow> is_output k"
| "last_ok LastDealloc k \<longleftrightarrow> k = Empty"

definition live_ok :: "nat \<Rightarrow> nat \<Rightarrow> bool \<Rightarrow> bool \<Rightarrow> 'o task_cell \<Rightarrow> bool" where
  "live_ok w r c p t \<longleftrightarrow>
     run_ok (tk_runnable t) w r c p (tk_missed t) (tk_produced t) (tk_core t)
   \<and> (tk_promise t = PromiseTaking \<longrightarrow> \<not> p \<and> c \<and> is_output (tk_core t))
   \<and> (tk_token t = TokenDropping \<longrightarrow> \<not> p \<and> c \<and> tk_core t = Future)
   \<and> (tk_token t = TokenRelease \<longrightarrow> \<not> p \<and> c \<and> tk_core t = Empty)
   \<and> (tk_last t = [] \<or> tk_runnable t = NoRunnable \<and> r = 0 \<and> (\<exists>pc. tk_last t = [pc] \<and> last_ok pc (tk_core t)))
   \<and> (tk_last t = [] \<longrightarrow> tk_runnable t = NoRunnable \<longrightarrow>
        (r = 0 \<longrightarrow> 0 < tk_lost_wakes t)
      \<and> (p \<longrightarrow> w = 0 \<and> \<not> c \<and> tk_core t = Future \<and> \<not> tk_missed t)
      \<and> (\<not> p \<longrightarrow> \<not> c \<longrightarrow> is_output (tk_core t))
      \<and> (\<not> p \<longrightarrow> c \<longrightarrow> tk_promise t \<noteq> PromiseTaking \<longrightarrow> tk_token t \<noteq> TokenDropping
           \<longrightarrow> tk_core t = Empty))"

definition task_at :: "nat \<Rightarrow> nat \<Rightarrow> bool \<Rightarrow> bool \<Rightarrow> 'o task_cell \<Rightarrow> bool" where
  "task_at w r c p t \<longleftrightarrow> tk_state t = packed w r c p \<and> tk_live t \<and> \<not> tk_fault t
   \<and> r = handles (tk_promise t) (tk_token t) (tk_wakers t) (tk_lost_clones t)
   \<and> w \<le> 2 ^ 30 + tk_lost_wakes t \<and> r \<le> 2 ^ 30 + tk_lost_clones t
   \<and> live_ok w r c p t"

definition task_dead :: "'o task_cell \<Rightarrow> bool" where
  "task_dead t \<longleftrightarrow> \<not> tk_live t \<and> \<not> tk_fault t \<and> tk_runnable t = NoRunnable \<and> tk_last t = []
   \<and> tk_core t = Empty \<and> tk_promise t = NoPromise \<and> tk_token t = NoToken \<and> tk_wakers t = 0"

definition task_inv :: "'o task_cell \<Rightarrow> bool" where
  "task_inv t \<longleftrightarrow> task_dead t \<or> (\<exists>w r c p. task_at w r c p t)"

text \<open>What a step leads to: no step reopens a closed task or polls a completed one.\<close>

definition task_from :: "bool \<Rightarrow> bool \<Rightarrow> 'o task_cell \<Rightarrow> bool" where
  "task_from c p t \<longleftrightarrow> task_dead t
     \<or> (\<exists>w' r' c' p'. task_at w' r' c' p' t \<and> (c \<longrightarrow> c') \<and> (p' \<longrightarrow> p))"

text \<open>The counters overflow after \<open>2 ^ 30\<close> calls that panicked.\<close>

definition few_lost :: "'o task_cell \<Rightarrow> bool" where
  "few_lost t \<longleftrightarrow> tk_lost_clones t < 2 ^ 30 \<and> tk_lost_wakes t < 2 ^ 30"

lemmas task_accesses = check_def fetch_add_def fetch_sub_def fetch_and_def fetch_update_def
  drop_future_def drop_output_def dealloc_task_def Let_def

lemma content_simps [simp]:
  "is_future k \<longleftrightarrow> k = Future" "is_empty k \<longleftrightarrow> k = Empty"
  "is_output (Output x)" "\<not> is_output Future" "\<not> is_output Empty"
  by (cases k; simp add: is_future_def is_empty_def is_output_def)+

declare handles.simps [simp del]

lemma handles_simps [simp]:
  "handles q k n l = 0 \<longleftrightarrow> q = NoPromise \<and> k = NoToken \<and> n = 0 \<and> l = 0"
  "handles NoPromise NoToken 0 0 = 0"
  "handles q k (Suc n) l = Suc (handles q k n l)"
  "handles q k n (Suc l) = Suc (handles q k n l)"
  "0 < n \<Longrightarrow> handles q k (n - Suc 0) l = handles q k n l - 1"
  "handles PromiseTaking k n l = handles PromiseIdle k n l"
  "handles PromiseIdle k n l = Suc (handles NoPromise k n l)"
  "handles q TokenDropping n l = handles q TokenIdle n l"
  "handles q TokenRelease n l = handles q TokenIdle n l"
  "handles q TokenIdle n l = Suc (handles q NoToken n l)"
  by (auto simp: handles.simps)

lemmas task_at_simps = task_at_def live_ok_def task_accesses word_fields

lemma clone_waker_at:
  assumes "task_at w r c p t" "waker_available t" "few_lost (clone_waker t)"
  shows "task_at w (Suc r) c p (clone_waker t)"
  using assms
  by (cases "tk_runnable t")
    (auto simp: task_at_simps clone_waker_def waker_available_def few_lost_def split: if_splits)

lemma wake_by_ref_at:
  assumes "task_at w r c p t" "waker_available t" "few_lost (wake_by_ref t)"
  shows "task_at (Suc w) r c p (wake_by_ref t)"
  using assms
  by (cases "tk_runnable t")
    (auto simp: task_at_simps wake_by_ref_def wake_def waker_available_def few_lost_def split: if_splits)

lemma drop_waker_at:
  assumes "task_at w (Suc r) c p t" "tk_wakers t = Suc n" "few_lost t"
  shows "task_at w r c p (drop_waker t)"
  using assms
  by (cases "tk_runnable t")
    (auto simp: task_at_simps drop_waker_def last_drop_def few_lost_def split: if_splits)

lemma wake_by_val_at:
  assumes "task_at w (Suc r) c p t" "tk_wakers t = Suc n" "few_lost (wake_by_val True t)"
  shows "task_at (Suc w) r c p (wake_by_val True t)"
  using assms
  by (cases "tk_runnable t"; cases p; cases c)
    (auto simp: task_at_simps wake_by_val_def wake_def few_lost_def split: if_splits)

lemma promise_poll_at:
  assumes "task_at w r c p t" "tk_promise t = PromiseIdle" "few_lost t"
  shows "task_at w r (c \<or> \<not> p) p (promise_poll t)"
  using assms
  by (cases "tk_runnable t")
    (auto simp: task_at_simps promise_poll_def few_lost_def split: if_splits)

lemma promise_take_at:
  assumes "task_at w r c p t" "tk_promise t = PromiseTaking" "few_lost t"
  shows "task_at w r c p (promise_take t)"
  using assms
  by (cases "tk_runnable t")
    (auto simp: task_at_simps promise_take_def is_output_def few_lost_def split: if_splits task_core.splits)

lemma promise_drop_at:
  assumes "task_at w (Suc r) c p t" "tk_promise t = PromiseIdle" "few_lost t"
  shows "task_at w r c p (promise_drop t)"
  using assms
  by (cases "tk_runnable t")
    (auto simp: task_at_simps promise_drop_def last_drop_def few_lost_def split: if_splits)

lemma token_drop_at:
  assumes "task_at w (Suc r) c p t" "tk_token t = TokenIdle" "few_lost t"
  shows "task_at w r c p (token_drop t)"
  using assms
  by (cases "tk_runnable t")
    (auto simp: task_at_simps token_drop_def last_drop_def few_lost_def split: if_splits)

lemma token_cancel_running:
  assumes "task_at w (Suc r) c p t" "tk_token t = TokenIdle" "p" "0 < w \<or> c" "few_lost t"
  shows "task_at w r True p (token_cancel t)"
  using assms
  by (cases "tk_runnable t")
    (auto simp: task_at_simps token_cancel_def few_lost_def split: if_splits)

lemma token_cancel_done:
  assumes "task_at w (Suc r) c False t" "tk_token t = TokenIdle" "few_lost t"
  shows "task_at w r c False (token_cancel t)"
  using assms
  by (cases "tk_runnable t")
    (auto simp: task_at_simps token_cancel_def few_lost_def split: if_splits)

lemma token_cancel_idle:
  assumes "task_at 0 (Suc r) False True t" "tk_token t = TokenIdle" "few_lost t"
  shows "task_at 0 (Suc r) True False (token_cancel t)"
  using assms
  by (cases "tk_runnable t")
    (auto simp: task_at_simps token_cancel_def few_lost_def split: if_splits)

lemma token_drop_future_at:
  assumes "task_at w r c p t" "tk_token t = TokenDropping" "few_lost t"
  shows "task_at w r c p (token_drop_future t)"
  using assms
  by (cases "tk_runnable t")
    (auto simp: task_at_simps token_drop_future_def few_lost_def split: if_splits)

lemma token_release_at:
  assumes "task_at w (Suc r) c p t" "tk_token t = TokenRelease" "few_lost t"
  shows "task_at w r c p (token_release t)"
  using assms
  by (cases "tk_runnable t")
    (auto simp: task_at_simps token_release_def few_lost_def split: if_splits)

lemma call_schedule_fn_at:
  assumes "task_at w r c p t" "tk_runnable t = Created" "few_lost t"
  shows "task_at w r c p (call_schedule_fn ok t)"
  using assms
  by (auto simp: task_at_simps call_schedule_fn_def few_lost_def split: if_splits)

lemma run_enter_at:
  assumes "task_at w r c p t" "tk_runnable t = Scheduled" "few_lost t"
  shows "task_at w r c p (run_enter t)"
  using assms
  by (auto simp: task_at_simps run_enter_def run_loop_def few_lost_def split: if_splits)

lemma runnable_drop_at:
  assumes "task_at w r c p t" "tk_runnable t = Scheduled" "few_lost t"
  shows "task_at w r c p (runnable_drop t)"
  using assms
  by (auto simp: task_at_simps runnable_drop_def few_lost_def split: if_splits)

lemma run_pending_at:
  assumes "task_at w r c p t" "tk_runnable t = Polling wc" "few_lost t"
  shows "task_at w r c p (run_pending wc t)"
  using assms
  by (auto simp: task_at_simps run_pending_def few_lost_def split: if_splits)

lemma run_ready_at:
  assumes "task_at w r c p t" "tk_runnable t = Polling wc" "few_lost t"
  shows "task_at w r c p (run_ready out t)"
  using assms
  by (auto simp: task_at_simps run_ready_def few_lost_def split: if_splits)

lemma run_panic_at:
  assumes "task_at w r c p t" "tk_runnable t = Polling wc" "few_lost t"
  shows "task_at w r c p (run_panic t)"
  using assms
  by (auto simp: task_at_simps run_panic_def few_lost_def split: if_splits)

lemma run_store_at:
  assumes "task_at w r c p t" "tk_runnable t = ReadyDrop out" "few_lost t"
  shows "task_at w r c p (run_store ok out t)"
  using assms
  by (auto simp: task_at_simps run_store_def few_lost_def split: if_splits)

lemma run_publish_at:
  assumes "task_at w r c p t" "tk_runnable t = Publish" "few_lost t"
  shows "task_at w r c (p \<and> (c \<or> r = 0)) (run_publish t)"
  using assms
  by (auto simp: task_at_simps run_publish_def few_lost_def split: if_splits)

lemma run_drop_output_at:
  assumes "task_at w r c p t" "tk_runnable t = DropOutput" "few_lost t"
  shows "task_at w r c p (run_drop_output ok t)"
  using assms
  by (auto simp: task_at_simps run_drop_output_def few_lost_def split: if_splits)

lemma run_clear_at:
  assumes "task_at w r c p t" "tk_runnable t = ClearPolling" "few_lost t"
  shows "task_at w r c False (run_clear t)"
  using assms
  by (auto simp: task_at_simps run_clear_def few_lost_def split: if_splits)

lemma run_reset_at:
  assumes "task_at w r c p t" "tk_runnable t = ResetWake (wake_field j)" "0 < j" "j \<le> w" "tk_missed t \<Longrightarrow> j < w" "few_lost t"
  shows "task_at (w - j) r c p (run_reset (wake_field j) t)"
  using assms
  by (auto simp: task_at_simps run_reset_def run_loop_def few_lost_def split: if_splits)

lemma run_final_drop_at:
  assumes "task_at w r c p t" "tk_runnable t = FinalDrop" "few_lost t"
  shows "task_at w r c p (run_final_drop t)"
  using assms
  by (auto simp: task_at_simps run_final_drop_def few_lost_def split: if_splits)

lemma cancel_drop_at:
  assumes "task_at w r c p t" "tk_runnable t = CancelDrop" "few_lost t"
  shows "task_at w r c p (cancel_drop t)"
  using assms
  by (auto simp: task_at_simps cancel_drop_def few_lost_def split: if_splits)

lemma guard_close_at:
  assumes "task_at w r c p t" "tk_runnable t = GuardClose" "few_lost t"
  shows "task_at w r True False (guard_close t)"
  using assms
  by (auto simp: task_at_simps guard_close_def few_lost_def split: if_splits)

lemma last_content_at:
  assumes "task_at w r c p t" "tk_last t = xs @ pc # ys" "pc \<noteq> LastDealloc" "few_lost t"
  shows "task_at w r c p ((last_content pc t)\<lparr>tk_last := xs @ LastDealloc # ys\<rparr>)"
  using assms
  by (cases pc)
    (auto simp: task_at_simps last_content_def few_lost_def append_eq_Cons_conv Cons_eq_append_conv)

lemma last_dealloc_dead:
  assumes "task_at w r c p t" "tk_last t = xs @ LastDealloc # ys" "few_lost t"
  shows "task_dead ((dealloc_task t)\<lparr>tk_last := xs @ ys\<rparr>)"
  using assms
  by (auto simp: task_at_simps task_dead_def few_lost_def append_eq_Cons_conv Cons_eq_append_conv)

lemma run_dealloc_dead:
  assumes "task_at w r c p t" "tk_runnable t = RunDealloc" "few_lost t"
  shows "task_dead (run_dealloc t)"
  using assms by (auto simp: task_at_simps task_dead_def run_dealloc_def few_lost_def)

section \<open>Every step keeps the invariant\<close>

lemmas task_ops = clone_waker_def wake_by_ref_def wake_by_val_def wake_def drop_waker_def last_drop_def
  last_content_def call_schedule_fn_def run_enter_def run_loop_def runnable_drop_def run_pending_def
  run_ready_def run_panic_def run_store_def run_publish_def run_drop_output_def run_clear_def
  run_reset_def run_final_drop_def cancel_drop_def guard_close_def run_dealloc_def promise_poll_def
  promise_take_def promise_drop_def token_cancel_def token_drop_future_def token_release_def token_drop_def

lemma few_lost_before:
  assumes "task_step zst t t'" "few_lost t'"
  shows "few_lost t"
  using assms
  by (induction rule: task_step.induct)
    (auto simp: few_lost_def task_ops task_accesses split: if_splits option.splits last_pc.splits task_core.splits)

lemma task_at_refs:
  assumes "task_at w r c p t"
  shows "tk_wakers t = Suc n \<Longrightarrow> \<exists>r'. r = Suc r'"
    and "tk_promise t = PromiseIdle \<Longrightarrow> \<exists>r'. r = Suc r'"
    and "tk_token t = TokenIdle \<Longrightarrow> \<exists>r'. r = Suc r'"
    and "tk_token t = TokenRelease \<Longrightarrow> \<exists>r'. r = Suc r'"
  using assms by (auto simp: task_at_def)

lemma token_cancel_inv:
  assumes "task_at w r c p t" "tk_token t = TokenIdle" "few_lost t"
  shows "task_from c p (token_cancel t)"
proof -
  obtain r' where r: "r = Suc r'"
    using task_at_refs(3) [OF assms(1,2)] by blast
  consider "p" "0 < w \<or> c" | "\<not> p" | "p" "w = 0" "\<not> c" by blast
  then show ?thesis
  proof cases
    case 1
    from token_cancel_running [OF assms(1) [unfolded r] assms(2) 1 assms(3)]
    show ?thesis unfolding task_from_def by blast
  next
    case 2
    then have "p = False" by simp
    from token_cancel_done [OF assms(1) [unfolded r this] assms(2,3)]
    show ?thesis unfolding task_from_def by blast
  next
    case 3
    then have "p = True" "w = 0" "c = False" by simp_all
    from token_cancel_idle [OF assms(1) [unfolded r this] assms(2,3)]
    show ?thesis unfolding task_from_def by blast
  qed
qed

lemma run_reset_inv:
  assumes "task_at w r c p t" "tk_runnable t = ResetWake wc" "few_lost t"
  shows "task_from c p (run_reset wc t)"
proof -
  from assms(1,2) obtain j where wc: "wc = wake_field j" and j: "0 < j" "j \<le> w" "tk_missed t \<Longrightarrow> j < w"
    by (auto simp: task_at_def live_ok_def)
  from run_reset_at [OF assms(1) assms(2) [unfolded wc] j assms(3)]
  show ?thesis unfolding wc task_from_def by blast
qed

lemma released_inv:
  assumes "task_at w r c p t" "few_lost t"
  shows "0 < tk_wakers t \<Longrightarrow> task_from c p (drop_waker t)"
    and "0 < tk_wakers t \<Longrightarrow> few_lost (wake_by_val zst t) \<Longrightarrow> task_from c p (wake_by_val zst t)"
    and "tk_promise t = PromiseIdle \<Longrightarrow> task_from c p (promise_drop t)"
    and "tk_token t = TokenIdle \<Longrightarrow> task_from c p (token_drop t)"
    and "tk_token t = TokenRelease \<Longrightarrow> task_from c p (token_release t)"
proof -
  show D: "task_from c p (drop_waker t)" if "0 < tk_wakers t"
    using that task_at_refs(1) [OF assms(1)] drop_waker_at assms unfolding task_from_def
    by (metis gr0_conv_Suc)
  show "task_from c p (wake_by_val zst t)" if "0 < tk_wakers t" "few_lost (wake_by_val zst t)"
  proof (cases zst)
    case True
    with that task_at_refs(1) [OF assms(1)] wake_by_val_at assms show ?thesis
      unfolding task_from_def by (metis gr0_conv_Suc)
  next
    case False
    with D [OF that(1)] show ?thesis by (simp add: wake_by_val_def)
  qed
  show "task_from c p (promise_drop t)" if "tk_promise t = PromiseIdle"
    using that task_at_refs(2) [OF assms(1)] promise_drop_at assms unfolding task_from_def by metis
  show "task_from c p (token_drop t)" if "tk_token t = TokenIdle"
    using that task_at_refs(3) [OF assms(1)] token_drop_at assms unfolding task_from_def by metis
  show "task_from c p (token_release t)" if "tk_token t = TokenRelease"
    using that task_at_refs(4) [OF assms(1)] token_release_at assms unfolding task_from_def by metis
qed

lemma dead_no_step:
  assumes "task_dead t"
  shows "\<not> task_step zst t t'"
  using assms by (auto simp: task_dead_def waker_available_def elim!: task_step.cases)

lemma task_step_from:
  assumes "task_step zst t t'" and at: "task_at w r c p t" and "few_lost t'"
  shows "task_from c p t'"
proof -
  note few = few_lost_before [OF assms(1,3)]
  have I: "task_at w1 r1 c1 p1 u \<Longrightarrow> (c \<longrightarrow> c1) \<Longrightarrow> (p1 \<longrightarrow> p) \<Longrightarrow> task_from c p u"
    for w1 r1 c1 p1 and u :: "'a task_cell"
    unfolding task_from_def by blast
  have D: "task_dead u \<Longrightarrow> task_from c p u" for u :: "'a task_cell"
    unfolding task_from_def by blast
  from assms(1) show ?thesis
  proof cases
    case clone
    with at assms(3) show ?thesis by (metis I clone_waker_at)
  next
    case wake_ref
    with at assms(3) show ?thesis by (metis I wake_by_ref_at)
  next
    case (last_content xs pc ys)
    with I last_content_at [OF at _ _ few] show ?thesis by blast
  next
    case (last_dealloc xs ys)
    with D last_dealloc_dead [OF at _ few] show ?thesis by blast
  next
    case dealloc
    with D run_dealloc_dead [OF at _ few] show ?thesis by blast
  qed (use at few assms(3) released_inv [OF at few] token_cancel_inv [OF at _ few] run_reset_inv [OF at _ few]
      in \<open>auto intro: I call_schedule_fn_at run_enter_at runnable_drop_at run_pending_at run_ready_at
        run_panic_at run_store_at run_publish_at run_drop_output_at run_clear_at run_final_drop_at
        cancel_drop_at guard_close_at promise_poll_at promise_take_at token_drop_future_at\<close>)
qed

lemma task_step_inv:
  assumes "task_step zst t t'" "task_inv t" "few_lost t'"
  shows "task_inv t'"
proof -
  obtain w r c p where "task_at w r c p t"
    using assms(1,2) dead_no_step unfolding task_inv_def by blast
  from task_step_from [OF assms(1) this assms(3)] show ?thesis
    unfolding task_from_def task_inv_def by blast
qed

lemma task_init_inv: "task_inv spawn" "task_inv spawn_and_forget"
proof -
  have "task_at 1 2 False True spawn" "task_at 1 1 False True spawn_and_forget"
    by (simp_all add: task_at_def live_ok_def spawn_def spawn_and_forget_def packed_def handles.simps
        task_const_values)
  then show "task_inv spawn" "task_inv spawn_and_forget"
    unfolding task_inv_def by blast+
qed

lemma task_reach_inv: "task_reach zst t \<Longrightarrow> few_lost t \<Longrightarrow> task_inv t"
  by (induction rule: task_reach.induct)
    (auto intro: task_init_inv task_step_inv few_lost_before)

end
