(* ===== verification/Task_Properties.thy ===== *)
theory Task_Properties
  imports Task_Safety
begin

text \<open>
  What the invariant of a task gives for every interleaving of its handles: the memory
  safety of the cell, the table of phases in the documentation of \<open>Task\<close>, no lost
  wake-up, no leak, and the answers of the promise.
\<close>

text \<open>The handles that are in a stretch of code that accesses the content of the cell.\<close>

definition core_users :: "'o task_cell \<Rightarrow> nat" where
  "core_users t =
     (case tk_runnable t of Polling _ \<Rightarrow> 1 | ReadyDrop _ \<Rightarrow> 1 | DropOutput \<Rightarrow> 1 | FinalDrop \<Rightarrow> 1
       | CancelDrop \<Rightarrow> 1 | _ \<Rightarrow> 0)
   + of_bool (tk_promise t = PromiseTaking) + of_bool (tk_token t = TokenDropping)
   + length (filter (\<lambda>pc. pc \<noteq> LastDealloc) (tk_last t))"

text \<open>The answers of the promise: pending, then at most one output, then cancelled.\<close>

fun stages_ok :: "'o option \<Rightarrow> 'o stage list \<Rightarrow> bool" where
  "stages_ok out [] \<longleftrightarrow> True"
| "stages_ok out (Cancelled # xs) \<longleftrightarrow> stages_ok out xs"
| "stages_ok out (Pending # xs) \<longleftrightarrow> set xs \<subseteq> {Pending}"
| "stages_ok out (Ready x # xs) \<longleftrightarrow> out = Some x \<and> set xs \<subseteq> {Pending}"

definition task_vals :: "'o task_cell \<Rightarrow> bool" where
  "task_vals t \<longleftrightarrow> (\<forall>x. tk_core t = Output x \<longrightarrow> tk_produced t = Some x)
   \<and> stages_ok (tk_produced t) (tk_stages t)
   \<and> (\<forall>x. Ready x \<in> set (tk_stages t) \<longrightarrow> tk_core t = Empty)
   \<and> (\<not> closed_of (tk_state t) \<or> tk_promise t = PromiseTaking \<longrightarrow> set (tk_stages t) \<subseteq> {Pending})"

text \<open>The steps other than those that produce, store or deliver the output.\<close>

definition vals_frame :: "'o task_cell \<Rightarrow> 'o task_cell \<Rightarrow> bool" where
  "vals_frame t t' \<longleftrightarrow> (tk_core t' = tk_core t \<or> tk_core t' = Empty) \<and> tk_produced t' = tk_produced t
     \<and> tk_stages t' = tk_stages t \<and> (tk_promise t' = PromiseTaking \<longrightarrow> tk_promise t = PromiseTaking)"

lemma stages_ok_pending: "set xs \<subseteq> {Pending} \<Longrightarrow> stages_ok out xs"
  by (induction xs) auto

lemma stages_ok_change:
  "\<forall>x. Ready x \<notin> set xs \<Longrightarrow> stages_ok out xs \<Longrightarrow> stages_ok out' xs"
  by (induction out xs rule: stages_ok.induct) auto

lemma stages_shape:
  "stages_ok out xs \<Longrightarrow> \<exists>m mid n. xs = replicate m Cancelled @ mid @ replicate n Pending
     \<and> (mid = [] \<or> (\<exists>x. mid = [Ready x] \<and> out = Some x))"
proof (induction out xs rule: stages_ok.induct)
  case (1 out)
  show ?case by (rule exI [of _ 0]) auto
next
  case (2 out xs)
  then obtain m mid n where "xs = replicate m Cancelled @ mid @ replicate n Pending"
    "mid = [] \<or> (\<exists>x. mid = [Ready x] \<and> out = Some x)"
    by auto
  then show ?case
    by (intro exI [of _ "Suc m"] exI [of _ mid] exI [of _ n]) simp
next
  case (3 out xs)
  then have "xs = replicate (length xs) Pending"
    by (auto intro!: replicate_eqI)
  then show ?case
    by (intro exI [of _ 0] exI [of _ "[]"] exI [of _ "Suc (length xs)"]) simp
next
  case (4 out x xs)
  then have "xs = replicate (length xs) Pending"
    by (auto intro!: replicate_eqI)
  with 4 show ?case
    by (intro exI [of _ 0] exI [of _ "[Ready x]"] exI [of _ "length xs"]) simp
qed

lemma vals_frame_step:
  assumes "task_step zst t t'"
  shows "vals_frame t t' \<or> (\<exists>wc out. tk_runnable t = Polling wc \<and> t' = run_ready out t)
     \<or> (\<exists>out. tk_runnable t = ReadyDrop out \<and> t' = run_store True out t)
     \<or> tk_promise t = PromiseIdle \<and> t' = promise_poll t
     \<or> tk_promise t = PromiseTaking \<and> t' = promise_take t"
  using assms
proof cases
  case (ready wc out)
  then show ?thesis by blast
next
  case (store out ok)
  then show ?thesis
    by (cases ok) (auto simp: vals_frame_def run_store_def task_accesses)
next
  case poll
  then show ?thesis by blast
next
  case take
  then show ?thesis by blast
qed (auto simp: vals_frame_def task_ops task_accesses split: if_splits last_pc.splits)

lemma task_vals_frame:
  assumes "vals_frame t t'" "task_vals t" "closed_of (tk_state t) \<Longrightarrow> closed_of (tk_state t')"
  shows "task_vals t'"
  using assms unfolding task_vals_def vals_frame_def by (auto 0 3)

lemma task_closed_mono:
  assumes "task_step zst t t'" "task_at w r c p t" "few_lost t'" "closed_of (tk_state t)"
  shows "closed_of (tk_state t')"
proof -
  have c: "c"
    using assms(2,4) few_lost_before [OF assms(1,3)] by (auto simp: task_at_def few_lost_def word_fields)
  from task_step_from [OF assms(1-3)] consider "task_dead t'" | w' r' p' where "task_at w' r' True p' t'"
    using c unfolding task_from_def by auto
  then show ?thesis
  proof cases
    case 1
    from assms(1) 1 assms(2,4) show ?thesis
      by cases (auto simp: task_dead_def task_at_def task_ops task_accesses split: if_splits last_pc.splits task_core.splits)
  next
    case 2
    with assms(3) show ?thesis
      by (auto simp: task_at_def few_lost_def word_fields)
  qed
qed

lemma task_step_vals:
  assumes "task_step zst t t'" and at: "task_at w r c p t" and "few_lost t'" and vals: "task_vals t"
  shows "task_vals t'"
proof -
  note few = few_lost_before [OF assms(1,3)]
  from vals_frame_step [OF assms(1)]
  consider "vals_frame t t'" | wc out where "tk_runnable t = Polling wc" "t' = run_ready out t"
    | out where "tk_runnable t = ReadyDrop out" "t' = run_store True out t"
    | "tk_promise t = PromiseIdle" "t' = promise_poll t"
    | "tk_promise t = PromiseTaking" "t' = promise_take t"
    by blast
  then show ?thesis
  proof cases
    case 1
    from task_vals_frame [OF 1 vals] task_closed_mono [OF assms(1-3)] show ?thesis by blast
  next
    case 2
    with at vals show ?thesis
      by (auto simp: task_vals_def task_at_def live_ok_def run_ready_def intro: stages_ok_change)
  next
    case 3
    with at vals show ?thesis
      by (auto simp: task_vals_def task_at_def live_ok_def run_store_def task_accesses)
  next
    case 4
    with at vals few show ?thesis
      by (auto simp: task_vals_def task_at_simps promise_poll_def few_lost_def split: if_splits)
  next
    case 5
    with at vals few show ?thesis
      by (auto simp: task_vals_def task_at_simps promise_take_def few_lost_def is_output_def split: task_core.splits)
  qed
qed

lemma task_reach_vals: "task_reach zst t \<Longrightarrow> few_lost t \<Longrightarrow> task_vals t"
proof (induction rule: task_reach.induct)
  case (stepped t t')
  note few = few_lost_before [OF stepped(2,4)]
  obtain w r c p where "task_at w r c p t"
    using task_reach_inv [OF stepped(1) few] stepped(2) dead_no_step unfolding task_inv_def by blast
  from task_step_vals [OF stepped(2) this stepped(4) stepped(3) [OF few]] show ?case .
qed (simp_all add: task_vals_def spawn_def spawn_and_forget_def)

section \<open>Properties\<close>

lemma reach_live:
  assumes "task_reach zst t" "few_lost t" "tk_live t"
  obtains w r c p where "task_at w r c p t" "w < 2 ^ 31" "r < 2 ^ 31" "r = refs t"
proof -
  from task_reach_inv [OF assms(1,2)] assms(3) obtain w r c p where at: "task_at w r c p t"
    unfolding task_inv_def task_dead_def by blast
  moreover from at assms(2) have "w < 2 ^ 31" "r < 2 ^ 31" "r = refs t"
    by (auto simp: task_at_def few_lost_def refs_def)
  ultimately show thesis by (rule that)
qed

text \<open>A run of a task used by the examples: it is polled and woken while polled.\<close>

definition woken_task :: "nat task_cell" where
  "woken_task = wake_by_ref (run_enter spawn)"

definition completed_task :: "nat task_cell" where
  "completed_task = promise_poll (promise_take (promise_poll
     (run_publish (run_store True 7 (run_ready 7 (run_enter (promise_poll spawn)))))))"

definition unused_task :: "nat task_cell" where
  "unused_task = token_drop (promise_drop (run_reset WAKE_INC (run_pending WAKE_INC (run_enter spawn))))"

definition freed_task :: "nat task_cell" where
  "freed_task =
     (dealloc_task ((last_content LastFuture unused_task)\<lparr>tk_last := [LastDealloc]\<rparr>))\<lparr>tk_last := []\<rparr>"

lemmas task_run_simps = task_ops task_accesses spawn_def runnable_exists_def task_const_values
  waker_available_def

lemma woken_task_reach: "task_reach True woken_task"
  unfolding woken_task_def
  by (intro task_reach.stepped [OF _ task_step.wake_ref] task_reach.stepped [OF _ task_step.enter]
      task_reach.spawned) (simp_all add: task_run_simps)

lemma completed_task_reach: "task_reach True completed_task"
  unfolding completed_task_def
  by (intro task_reach.stepped [OF _ task_step.poll] task_reach.stepped [OF _ task_step.take]
      task_reach.stepped [OF _ task_step.publish] task_reach.stepped [OF _ task_step.store]
      task_reach.stepped [OF _ task_step.ready [where wc = WAKE_INC]] task_reach.stepped [OF _ task_step.enter]
      task_reach.spawned) (simp_all add: task_run_simps)

lemma unused_task_reach: "task_reach True unused_task"
  unfolding unused_task_def
  by (intro task_reach.stepped [OF _ task_step.token] task_reach.stepped [OF _ task_step.promise]
      task_reach.stepped [OF _ task_step.reset] task_reach.stepped [OF _ task_step.pending]
      task_reach.stepped [OF _ task_step.enter] task_reach.spawned) (simp_all add: task_run_simps)

lemma freed_task_reach: "task_reach True freed_task"
proof -
  let ?t = "(last_content LastFuture unused_task)\<lparr>tk_last := [] @ LastDealloc # []\<rparr>"
  have "tk_last unused_task = [] @ LastFuture # []"
    by (simp add: unused_task_def task_run_simps)
  then have "task_step True unused_task ?t"
    by (rule task_step.last_content) simp
  with unused_task_reach have "task_reach True ?t"
    by (rule task_reach.stepped)
  moreover have "task_step True ?t ((dealloc_task ?t)\<lparr>tk_last := [] @ []\<rparr>)"
    by (rule task_step.last_dealloc) simp
  ultimately have "task_reach True ((dealloc_task ?t)\<lparr>tk_last := [] @ []\<rparr>)"
    by (rule task_reach.stepped)
  then show ?thesis
    unfolding freed_task_def append_Nil .
qed

text \<open>
  C19. Memory safety of tasks: however the handles of a task are interleaved, whatever panics,
  the cell is never accessed after its deallocation nor deallocated twice, the future and the
  output are each dropped or taken exactly once, there is at most one runnable, no assertion
  fails, and at most one handle accesses the content at any time.
\<close>
theorem task_memory_safe:
  assumes "task_reach zst t" "few_lost t"
  shows "\<not> tk_fault t \<and> core_users t \<le> 1"
proof (cases "tk_live t")
  case True
  obtain w r c p where "task_at w r c p t"
    by (rule reach_live [OF assms True])
  then show ?thesis
    by (cases "tk_runnable t") (auto simp: task_at_def live_ok_def core_users_def)
next
  case False
  with task_reach_inv [OF assms] have "task_dead t"
    by (auto simp: task_inv_def task_at_def)
  then show ?thesis
    by (auto simp: task_dead_def core_users_def)
qed

theorem task_memory_safe_witness:
  "task_reach True woken_task \<and> few_lost woken_task \<and> \<not> tk_fault woken_task \<and> core_users woken_task \<le> 1"
proof -
  have "few_lost woken_task"
    by (simp add: few_lost_def woken_task_def task_run_simps)
  with task_memory_safe [OF woken_task_reach this] woken_task_reach show ?thesis by blast
qed

text \<open>
  C21. The table of phases: as long as the cell is not being freed, the reference count is the
  number of promises, tokens and wakers (and of clones that panicked), a runnable exists exactly
  when the flags and the wake count say so, and when no handle is in the middle of an
  operation the content is the future in the polling phase, the output in the completed phase and
  nothing in the closed phase.
\<close>
theorem task_phase_table:
  assumes "task_reach zst t" "few_lost t" "tk_live t" "tk_last t = []"
    and "tk_runnable t \<noteq> FinalDrop" "tk_runnable t \<noteq> RunDealloc"
  shows "refs_of (tk_state t) = refs t
    \<and> (tk_runnable t \<noteq> NoRunnable \<longleftrightarrow> runnable_exists (tk_state t))
    \<and> (tk_runnable t = NoRunnable \<and> tk_promise t \<noteq> PromiseTaking \<and> tk_token t \<noteq> TokenDropping \<longrightarrow>
         (if polling_of (tk_state t) then tk_core t = Future
          else if closed_of (tk_state t) then tk_core t = Empty
          else is_output (tk_core t)))"
proof -
  obtain w r c p
    where at: "task_at w r c p t" and b: "w < 2 ^ 31" "r < 2 ^ 31" and r: "r = refs t"
    by (rule reach_live [OF assms(1-3)])
  have s: "tk_state t = packed w r c p"
    using at by (simp add: task_at_def)
  from at assms(4-6) have ok: "(tk_runnable t \<noteq> NoRunnable \<longleftrightarrow> p \<and> (0 < w \<or> c))
    \<and> (tk_runnable t = NoRunnable \<and> tk_promise t \<noteq> PromiseTaking \<and> tk_token t \<noteq> TokenDropping \<longrightarrow>
         (if p then tk_core t = Future else if c then tk_core t = Empty else is_output (tk_core t)))"
    by (cases "tk_runnable t") (auto simp: task_at_def live_ok_def)
  show ?thesis
    unfolding s using b ok r by (simp add: word_fields)
qed

theorem task_phase_table_witness:
  "refs_of (tk_state completed_task) = refs completed_task \<and> \<not> runnable_exists (tk_state completed_task)
   \<and> tk_core completed_task = Empty"
proof -
  have *: "few_lost completed_task" "tk_live completed_task" "tk_last completed_task = []"
    "tk_runnable completed_task = NoRunnable" "tk_promise completed_task = PromiseIdle"
    "tk_token completed_task = TokenIdle" "tk_core completed_task = Empty"
    by (simp_all add: few_lost_def completed_task_def task_run_simps)
  from task_phase_table [OF completed_task_reach *(1-3)] * show ?thesis by auto
qed

text \<open>
  C20. No wake-up is lost: if a task in the polling phase has been woken since its last poll began,
  then a runnable exists, and a runnable that finds its future pending polls it again instead of
  going idle.
\<close>
theorem task_no_lost_wake:
  assumes "task_reach zst t" "few_lost t" "tk_live t" "tk_last t = []"
    and "polling_of (tk_state t)" "\<not> closed_of (tk_state t)" "tk_missed t"
  shows "tk_runnable t \<noteq> NoRunnable
    \<and> (\<forall>wc. tk_runnable t = ResetWake wc \<longrightarrow> (\<exists>wc'. tk_runnable (run_reset wc t) = Polling wc'))"
proof -
  obtain w r c p
    where at: "task_at w r c p t" and b: "w < 2 ^ 31" "r < 2 ^ 31" and r: "r = refs t"
    by (rule reach_live [OF assms(1-3)])
  have s: "tk_state t = packed w r c p"
    using at by (simp add: task_at_def)
  have cp: "\<not> c" "p"
    using assms(5,6) b unfolding s by (simp_all add: word_fields)
  have "\<exists>wc'. tk_runnable (run_reset wc t) = Polling wc'" if pc: "tk_runnable t = ResetWake wc" for wc
  proof -
    from at pc assms(7) obtain j where "wc = wake_field j" "0 < j" "j < w"
      by (auto simp: task_at_def live_ok_def)
    with b cp show ?thesis
      by (simp add: run_reset_def run_loop_def task_accesses s word_fields)
  qed
  moreover have "tk_runnable t \<noteq> NoRunnable"
    using at assms(4,7) cp by (auto simp: task_at_def live_ok_def)
  ultimately show ?thesis by blast
qed

theorem task_no_lost_wake_witness:
  "tk_missed woken_task \<and> tk_runnable woken_task \<noteq> NoRunnable"
proof -
  have "few_lost woken_task" "tk_live woken_task" "tk_last woken_task = []" "tk_missed woken_task"
    "polling_of (tk_state woken_task)" "\<not> closed_of (tk_state woken_task)"
    by (simp_all add: few_lost_def polling_of_def closed_of_def woken_task_def task_run_simps)
  with task_no_lost_wake [OF woken_task_reach] show ?thesis by blast
qed

text \<open>
  C22. No leak: when all the handles of a task are gone, its content has been dropped or taken and its
  cell has been deallocated, unless a counter has overflowed.
\<close>
theorem task_freed:
  assumes "task_reach zst t" "few_lost t" "refs t = 0" "tk_runnable t = NoRunnable" "tk_last t = []"
    and "tk_lost_wakes t = 0"
  shows "\<not> tk_live t \<and> tk_core t = Empty"
proof -
  have "\<not> task_at w r c p t" for w r c p
    using assms(3-6) by (auto simp: task_at_def live_ok_def refs_def)
  with task_reach_inv [OF assms(1,2)] show ?thesis
    by (auto simp: task_inv_def task_dead_def)
qed

theorem task_freed_witness:
  "task_reach True freed_task \<and> refs freed_task = 0 \<and> \<not> tk_live freed_task \<and> tk_core freed_task = Empty"
proof -
  have "few_lost freed_task" "refs freed_task = 0" "tk_runnable freed_task = NoRunnable"
    "tk_last freed_task = []" "tk_lost_wakes freed_task = 0"
    by (simp_all add: few_lost_def refs_def handles.simps freed_task_def unused_task_def task_run_simps)
  with task_freed [OF freed_task_reach] freed_task_reach show ?thesis by blast
qed

text \<open>
  C23. The answers of a promise: it is pending for some polls, then ready at most once, with the value
  the future returned, and cancelled from then on.
\<close>
theorem promise_answers:
  assumes "task_reach zst t" "few_lost t"
  shows "\<exists>n answer m. rev (tk_stages t) = replicate n Pending @ answer @ replicate m Cancelled
    \<and> (answer = [] \<or> (\<exists>x. answer = [Ready x] \<and> tk_produced t = Some x))"
proof -
  from task_reach_vals [OF assms] have "stages_ok (tk_produced t) (tk_stages t)"
    by (simp add: task_vals_def)
  from stages_shape [OF this] obtain m mid n where xs: "tk_stages t = replicate m Cancelled @ mid @ replicate n Pending"
    and mid: "mid = [] \<or> (\<exists>x. mid = [Ready x] \<and> tk_produced t = Some x)" by blast
  have "rev (tk_stages t) = replicate n Pending @ rev mid @ replicate m Cancelled"
    unfolding xs by simp
  with mid show ?thesis
    by (metis rev_singleton_conv rev.simps(1))
qed

theorem promise_answers_witness:
  "rev (tk_stages completed_task) = [Pending, Ready 7, Cancelled] \<and> tk_produced completed_task = Some 7
   \<and> (\<exists>n answer m. rev (tk_stages completed_task) = replicate n Pending @ answer @ replicate m Cancelled)"
proof -
  have "few_lost completed_task"
    by (simp add: few_lost_def completed_task_def task_run_simps)
  from promise_answers [OF completed_task_reach this] show ?thesis
    by (auto simp: completed_task_def task_run_simps)
qed

text \<open>
  The phases of a task only advance: no step sets the polling flag again or clears the closed flag,
  so that the completed phase and the wind-down phase lead only to the closed phase, and the closed
  phase to none.
\<close>
lemma task_phases_advance:
  assumes "task_reach zst t" "task_step zst t t'" "few_lost t'" "tk_live t'"
  shows "(closed_of (tk_state t) \<longrightarrow> closed_of (tk_state t'))
    \<and> (polling_of (tk_state t') \<longrightarrow> polling_of (tk_state t))"
proof -
  note few = few_lost_before [OF assms(2,3)]
  obtain w r c p where at: "task_at w r c p t"
    using task_reach_inv [OF assms(1) few] assms(2) dead_no_step unfolding task_inv_def by blast
  from task_step_from [OF assms(2) at assms(3)] assms(4) obtain w' r' c' p'
    where at': "task_at w' r' c' p' t'" and mono: "c \<longrightarrow> c'" "p' \<longrightarrow> p"
    unfolding task_from_def task_dead_def by blast
  from at few have "closed_of (tk_state t) = c" "polling_of (tk_state t) = p"
    by (auto simp: task_at_def few_lost_def word_fields)
  moreover from at' assms(3) have "closed_of (tk_state t') = c'" "polling_of (tk_state t') = p'"
    by (auto simp: task_at_def few_lost_def word_fields)
  ultimately show ?thesis
    using mono by simp
qed

end
