(* ===== verification/Mpsc_Queue.thy ===== *)
theory Mpsc_Queue
  imports Nexo_Prelude
begin

text \<open>
  The bounded multi-producer single-consumer queue of the channels
  (\<open>channel/queue.rs\<close>), with its positions and stamps as 64-bit words.

  The operations are cut at their atomic accesses: a producer between two accesses of
  \<open>push\<close> is in a state of type \<open>producer\<close>, the consumer in one of type \<open>consumer\<close>, and
  a message borrowed from the queue is an element of \<open>borrows\<close>.  \<open>mq_step\<close> interleaves
  any number of producers, the consumer, the release of borrowed messages and calls of
  \<open>close\<close>; its label is what a call returned.  Atomics are sequentially consistent, and a
  \<open>compare_exchange_weak\<close> may fail spuriously.

  The consumer pops only when it has dropped the message it had borrowed, as \<open>Receiver::recv\<close>
  does (the borrow of \<open>Consumer::pop\<close> enforces it): with a borrowed message, the slot of the
  next position may still carry the stamp of the previous one.

  A panic of the source (an index out of range, \<open>unreachable!\<close>, a failed assertion, an
  overflow) sets \<open>fault\<close>.  The ghost fields \<open>claimed\<close> (the messages in the order in which
  their positions were claimed), \<open>popped\<close> and \<open>dequeued\<close> (the messages returned and the
  number of positions dequeued) and \<open>number\<close> (the number of the message each slot holds or
  waits for) are only written.
\<close>

unbundle bit_operations_syntax

section \<open>Data\<close>

datatype 'm message_box = Populated 'm | Vacated | NoBox

record 'm slot =
  slot_stamp :: u64
  slot_message :: "'m message_box"

record 'm queue =
  enqueue_pos :: u64
  dequeue_pos :: u64
  buffer :: "'m slot list"
  right_mask :: u64
  closed_channel_mask :: u64

text \<open>\<open>usize::next_power_of_two\<close>.\<close>

function pow2_from :: "nat \<Rightarrow> nat \<Rightarrow> nat" where
  "pow2_from n p = (if n \<le> p \<or> p = 0 then p else pow2_from n (2 * p))"
  by pat_completeness auto
termination by (relation "measure (\<lambda>(n, p). n - p)") auto

declare pow2_from.simps [simp del]

definition next_power_of_two :: "nat \<Rightarrow> nat" where
  "next_power_of_two n = pow2_from n 1"

text \<open>\<open>Queue::new\<close>: \<open>None\<close> if one of the assertions fails.\<close>

definition queue_new :: "nat \<Rightarrow> 'm queue option" where
  "queue_new capacity =
     (if capacity \<ge> 1 \<and> capacity \<le> 2 ^ 63 then
        (let mask = of_nat (next_power_of_two capacity) in
         Some \<lparr>enqueue_pos = 0, dequeue_pos = 0,
           buffer = map (\<lambda>i. \<lparr>slot_stamp = of_nat i, slot_message = Vacated\<rparr>) [0 ..< capacity],
           right_mask = push_bit 1 mask - 1, closed_channel_mask = mask\<rparr>)
      else None)"

text \<open>\<open>next_queue_pos\<close>: \<open>None\<close> if the assertion fails or an addition overflows.\<close>

definition next_queue_pos :: "'m queue \<Rightarrow> u64 \<Rightarrow> u64 option" where
  "next_queue_pos q queue_pos =
     (if queue_pos AND closed_channel_mask q \<noteq> 0 \<or> queue_pos = - 1 then None
      else (let new_queue_pos = queue_pos + 1; new_index = new_queue_pos AND right_mask q in
        if unat new_index < length (buffer q) then Some new_queue_pos
        else if right_mask q = - 1 then None
        else (let sequence_increment = right_mask q + 1;
                  sequence_count = queue_pos AND NOT (right_mask q) in
              Some (sequence_count + sequence_increment))))"

definition close_queue :: "'m queue \<Rightarrow> 'm queue" where
  "close_queue q = q\<lparr>enqueue_pos := enqueue_pos q OR closed_channel_mask q\<rparr>"

definition is_closed :: "'m queue \<Rightarrow> bool" where
  "is_closed q \<longleftrightarrow> enqueue_pos q AND closed_channel_mask q \<noteq> 0"

definition queue_len :: "'m queue \<Rightarrow> u64" where
  "queue_len q =
     (let enqueue_idx = enqueue_pos q AND drop_bit 1 (right_mask q);
          dequeue_idx = dequeue_pos q AND drop_bit 1 (right_mask q);
          carry_flag = (enqueue_pos q AND NOT (right_mask q)) \<noteq> (dequeue_pos q AND NOT (right_mask q))
      in (enqueue_idx + of_bool carry_flag * of_nat (length (buffer q))) - dequeue_idx)"

section \<open>Producers and consumer\<close>

datatype 'm producer =
    PIdle
  | PLoaded 'm u64 \<comment> \<open>an enqueue position has been loaded\<close>
  | PReload 'm \<comment> \<open>the stamp was ahead\<close>
  | PStamp 'm u64 u64 \<comment> \<open>the stamp matches the position\<close>
  | PWrite 'm u64 u64 \<comment> \<open>the position has been claimed\<close>
  | PStore u64 u64 \<comment> \<open>the message has been written\<close>

datatype consumer =
    CIdle
  | CPop u64 u64 \<comment> \<open>the stamp differs from the dequeue position\<close>
  | CTake nat u64 \<comment> \<open>the dequeue position has been incremented\<close>
  | CCheck u64 \<comment> \<open>the stamp is the dequeue position\<close>

text \<open>
  A borrowed message: the index of its slot, the stamp to store when it is dropped, and
  whether the box has been given back.
\<close>

record borrow =
  b_index :: nat
  b_stamp :: u64
  b_vacated :: bool

datatype 'm label =
    Tau | PushOk nat | PushFull nat 'm | PushClosed nat
  | PopOk 'm | PopEmpty | PopClosed

record 'm qsys =
  sys_queue :: "'m queue"
  producers :: "nat \<Rightarrow> 'm producer"
  consumer :: consumer
  borrows :: "borrow list"
  fault :: bool
  claimed :: "'m list"
  dequeued :: nat
  popped :: "'m list"
  number :: "nat \<Rightarrow> nat"

definition qsys_new :: "'m queue \<Rightarrow> 'm qsys" where
  "qsys_new q = \<lparr>sys_queue = q, producers = (\<lambda>_. PIdle), consumer = CIdle, borrows = [], fault = False,
     claimed = [], dequeued = 0, popped = [], number = id\<rparr>"

definition update_producer :: "nat \<Rightarrow> 'm producer \<Rightarrow> 'm qsys \<Rightarrow> 'm qsys" where
  "update_producer i p s = s\<lparr>producers := (producers s)(i := p)\<rparr>"

definition update_slot :: "nat \<Rightarrow> 'm slot \<Rightarrow> 'm qsys \<Rightarrow> 'm qsys" where
  "update_slot i x s = s\<lparr>sys_queue := (sys_queue s)\<lparr>buffer := (buffer (sys_queue s))[i := x]\<rparr>\<rparr>"

definition slot_index :: "'m queue \<Rightarrow> u64 \<Rightarrow> nat" where
  "slot_index q pos = unat (pos AND right_mask q)"

section \<open>Push\<close>

definition push_load :: "nat \<Rightarrow> 'm \<Rightarrow> 'm qsys \<Rightarrow> 'm qsys" where
  "push_load i m s = update_producer i (PLoaded m (enqueue_pos (sys_queue s))) s"

definition push_check :: "nat \<Rightarrow> 'm \<Rightarrow> u64 \<Rightarrow> 'm qsys \<Rightarrow> 'm label \<times> 'm qsys" where
  "push_check i m pos s =
     (let q = sys_queue s in
      if pos AND closed_channel_mask q \<noteq> 0 then (PushClosed i, update_producer i PIdle s)
      else (case vec_get (buffer q) (slot_index q pos) of
          None \<Rightarrow> (Tau, s\<lparr>fault := True\<rparr>)
        | Some slot \<Rightarrow>
            (let stamp = slot_stamp slot; stamp_delta = sint (stamp - pos) in
             case cmp stamp_delta 0 of
               Equal \<Rightarrow> (Tau, update_producer i (PStamp m pos stamp) s)
             | Less \<Rightarrow> (PushFull i m, update_producer i PIdle s)
             | Greater \<Rightarrow> (Tau, update_producer i (PReload m) s))))"

text \<open>The compare-and-exchange of the enqueue position; \<open>weak\<close> makes it fail spuriously.\<close>

definition push_claim :: "bool \<Rightarrow> nat \<Rightarrow> 'm \<Rightarrow> u64 \<Rightarrow> u64 \<Rightarrow> 'm qsys \<Rightarrow> 'm qsys" where
  "push_claim weak i m pos stamp s =
     (let q = sys_queue s in
      case next_queue_pos q pos of
        None \<Rightarrow> s\<lparr>fault := True\<rparr>
      | Some pos' \<Rightarrow>
          if enqueue_pos q = pos \<and> \<not> weak
          then update_producer i (PWrite m pos stamp)
            (s\<lparr>sys_queue := q\<lparr>enqueue_pos := pos'\<rparr>, claimed := claimed s @ [m]\<rparr>)
          else update_producer i (PLoaded m (enqueue_pos q)) s)"

definition push_write :: "nat \<Rightarrow> 'm \<Rightarrow> u64 \<Rightarrow> u64 \<Rightarrow> 'm qsys \<Rightarrow> 'm qsys" where
  "push_write i m pos stamp s =
     (let q = sys_queue s; idx = slot_index q pos in
      case vec_get (buffer q) idx of
        None \<Rightarrow> s\<lparr>fault := True\<rparr>
      | Some slot \<Rightarrow>
          (case slot_message slot of
             Vacated \<Rightarrow> update_producer i (PStore pos stamp) (update_slot idx (slot\<lparr>slot_message := Populated m\<rparr>) s)
           | _ \<Rightarrow> s\<lparr>fault := True\<rparr>))"

definition push_store :: "nat \<Rightarrow> u64 \<Rightarrow> u64 \<Rightarrow> 'm qsys \<Rightarrow> 'm qsys" where
  "push_store i pos stamp s =
     (let q = sys_queue s; idx = slot_index q pos in
      case vec_get (buffer q) idx of
        None \<Rightarrow> s\<lparr>fault := True\<rparr>
      | Some slot \<Rightarrow> update_producer i PIdle (update_slot idx (slot\<lparr>slot_stamp := stamp + 1\<rparr>) s))"

section \<open>Pop\<close>

definition pop_load :: "'m qsys \<Rightarrow> 'm qsys" where
  "pop_load s =
     (let q = sys_queue s; pos = dequeue_pos q; idx = slot_index q pos in
      case vec_get (buffer q) idx of
        None \<Rightarrow> s\<lparr>fault := True\<rparr>
      | Some slot \<Rightarrow>
          (let stamp = slot_stamp slot in
           if pos \<noteq> stamp
           then s\<lparr>consumer := CPop pos stamp, fault := fault s \<or> pos = - 1 \<or> stamp \<noteq> pos + 1\<rparr>
           else s\<lparr>consumer := CCheck pos\<rparr>))"

definition pop_store :: "u64 \<Rightarrow> u64 \<Rightarrow> 'm qsys \<Rightarrow> 'm qsys" where
  "pop_store pos stamp s =
     (let q = sys_queue s in
      case next_queue_pos q pos of
        None \<Rightarrow> s\<lparr>fault := True\<rparr>
      | Some pos' \<Rightarrow> s\<lparr>sys_queue := q\<lparr>dequeue_pos := pos'\<rparr>, consumer := CTake (slot_index q pos) stamp,
                      dequeued := Suc (dequeued s)\<rparr>)"

definition pop_take :: "nat \<Rightarrow> u64 \<Rightarrow> 'm qsys \<Rightarrow> 'm label \<times> 'm qsys" where
  "pop_take idx stamp s =
     (let q = sys_queue s in
      case vec_get (buffer q) idx of
        None \<Rightarrow> (Tau, s\<lparr>fault := True\<rparr>)
      | Some slot \<Rightarrow>
          (case slot_message slot of
             Populated m \<Rightarrow> (PopOk m, (update_slot idx (slot\<lparr>slot_message := NoBox\<rparr>) s)
               \<lparr>consumer := CIdle, popped := popped s @ [m],
                borrows := \<lparr>b_index = idx, b_stamp = stamp + right_mask q, b_vacated = False\<rparr> # borrows s\<rparr>)
           | _ \<Rightarrow> (Tau, s\<lparr>fault := True\<rparr>)))"

definition pop_check :: "u64 \<Rightarrow> 'm qsys \<Rightarrow> 'm label \<times> 'm qsys" where
  "pop_check pos s =
     (let q = sys_queue s in
      (if enqueue_pos q = (pos OR closed_channel_mask q) then PopClosed else PopEmpty, s\<lparr>consumer := CIdle\<rparr>))"

text \<open>The two steps of dropping a borrowed message.\<close>

definition borrow_vacate :: "borrow list \<Rightarrow> borrow \<Rightarrow> borrow list \<Rightarrow> 'm qsys \<Rightarrow> 'm qsys" where
  "borrow_vacate xs b ys s =
     (case vec_get (buffer (sys_queue s)) (b_index b) of
        None \<Rightarrow> s\<lparr>fault := True\<rparr>
      | Some slot \<Rightarrow> (update_slot (b_index b) (slot\<lparr>slot_message := Vacated\<rparr>) s)
                      \<lparr>borrows := xs @ b\<lparr>b_vacated := True\<rparr> # ys\<rparr>)"

definition borrow_release :: "borrow list \<Rightarrow> borrow \<Rightarrow> borrow list \<Rightarrow> 'm qsys \<Rightarrow> 'm qsys" where
  "borrow_release xs b ys s =
     (case vec_get (buffer (sys_queue s)) (b_index b) of
        None \<Rightarrow> s\<lparr>fault := True\<rparr>
      | Some slot \<Rightarrow> (update_slot (b_index b) (slot\<lparr>slot_stamp := b_stamp b\<rparr>) s)
          \<lparr>borrows := xs @ ys,
           number := (number s)(b_index b := number s (b_index b) + length (buffer (sys_queue s)))\<rparr>)"

section \<open>Interleaving\<close>

inductive mq_step :: "'m qsys \<Rightarrow> 'm label \<Rightarrow> 'm qsys \<Rightarrow> bool" where
  push: "producers s i = PIdle \<Longrightarrow> mq_step s Tau (push_load i m s)"
| check: "producers s i = PLoaded m pos \<Longrightarrow> push_check i m pos s = (l, s') \<Longrightarrow> mq_step s l s'"
| reload: "producers s i = PReload m \<Longrightarrow> mq_step s Tau (push_load i m s)"
| claim: "producers s i = PStamp m pos stamp \<Longrightarrow> mq_step s Tau (push_claim weak i m pos stamp s)"
| put: "producers s i = PWrite m pos stamp \<Longrightarrow> mq_step s Tau (push_write i m pos stamp s)"
| store: "producers s i = PStore pos stamp \<Longrightarrow> mq_step s (PushOk i) (push_store i pos stamp s)"
| pop: "consumer s = CIdle \<Longrightarrow> borrows s = [] \<Longrightarrow> mq_step s Tau (pop_load s)"
| pop_store: "consumer s = CPop pos stamp \<Longrightarrow> mq_step s Tau (pop_store pos stamp s)"
| pop_take: "consumer s = CTake idx stamp \<Longrightarrow> pop_take idx stamp s = (l, s') \<Longrightarrow> mq_step s l s'"
| pop_check: "consumer s = CCheck pos \<Longrightarrow> pop_check pos s = (l, s') \<Longrightarrow> mq_step s l s'"
| vacate: "borrows s = xs @ b # ys \<Longrightarrow> \<not> b_vacated b \<Longrightarrow> mq_step s Tau (borrow_vacate xs b ys s)"
| release: "borrows s = xs @ b # ys \<Longrightarrow> b_vacated b \<Longrightarrow> mq_step s Tau (borrow_release xs b ys s)"
| close: "mq_step s Tau (s\<lparr>sys_queue := close_queue (sys_queue s)\<rparr>)"

text \<open>The states of a queue of the given capacity.\<close>

inductive mq_reach :: "nat \<Rightarrow> 'm qsys \<Rightarrow> bool" for capacity where
  created: "queue_new capacity = Some q \<Longrightarrow> mq_reach capacity (qsys_new q)"
| stepped: "mq_reach capacity s \<Longrightarrow> mq_step s l s' \<Longrightarrow> mq_reach capacity s'"

end
