(* ===== verification/Mpsc_Layout.thy ===== *)
theory Mpsc_Layout
  imports Mpsc_Queue
begin

text \<open>
  The layout of the positions of the queue: \<open>seq_pos cap k n\<close> is the position of the
  \<open>n\<close>-th message of a queue of capacity \<open>cap\<close> whose flag is bit \<open>k\<close>, and the
  operations on positions are computed on it.  Positions stay below \<open>2 ^ 63\<close>, so that
  comparing them by the sign of their difference is exact.
\<close>

definition seq_pos :: "nat \<Rightarrow> nat \<Rightarrow> nat \<Rightarrow> nat" where
  "seq_pos cap k n = n div cap * 2 ^ Suc k + n mod cap"

definition layout :: "nat \<Rightarrow> nat \<Rightarrow> 'm queue \<Rightarrow> bool" where
  "layout cap k q \<longleftrightarrow> 0 < cap \<and> cap \<le> 2 ^ k \<and> k < 62 \<and> length (buffer q) = cap
     \<and> right_mask q = mask (Suc k) \<and> closed_channel_mask q = 2 ^ k"

lemma seq_pos_bounds:
  fixes cap :: nat
  assumes "0 < cap" "cap \<le> 2 ^ k"
  shows "n mod cap < 2 ^ k" "n mod cap < 2 ^ Suc k"
proof -
  have "n mod cap < cap"
    using assms(1) by simp
  with assms(2) show "n mod cap < 2 ^ k" "n mod cap < 2 ^ Suc k"
    by (auto intro: order.strict_trans2)
qed

lemma seq_pos_mod: "0 < cap \<Longrightarrow> cap \<le> 2 ^ k \<Longrightarrow> seq_pos cap k n mod 2 ^ Suc k = n mod cap"
  using seq_pos_bounds(2) [of cap k n] by (simp add: seq_pos_def)

lemma seq_pos_div: "0 < cap \<Longrightarrow> cap \<le> 2 ^ k \<Longrightarrow> seq_pos cap k n div 2 ^ Suc k = n div cap"
  using seq_pos_bounds(2) [of cap k n] by (simp add: seq_pos_def)

lemma seq_pos_add_cap: "0 < cap \<Longrightarrow> seq_pos cap k (n + cap) = seq_pos cap k n + 2 ^ Suc k"
  by (simp add: seq_pos_def div_add_self2 add_mult_distrib)

lemma seq_pos_Suc:
  assumes "0 < cap"
  shows "seq_pos cap k (Suc n) =
    (if Suc (n mod cap) < cap then Suc (seq_pos cap k n) else Suc (n div cap) * 2 ^ Suc k)"
  using assms mod_less_divisor [OF assms, of n]
  by (auto simp: seq_pos_def mod_Suc div_Suc)

lemma seq_pos_mono:
  assumes "0 < cap" "cap \<le> 2 ^ k"
  shows "n < m \<Longrightarrow> seq_pos cap k n < seq_pos cap k m"
proof (induction m)
  case (Suc m)
  have "seq_pos cap k m < seq_pos cap k (Suc m)"
    using seq_pos_bounds(2) [OF assms, of m] unfolding seq_pos_Suc [OF assms(1)]
    by (simp add: seq_pos_def)
  with Suc show ?case
    by (cases "n = m") auto
qed simp

lemma seq_pos_le:
  assumes "0 < cap" "cap \<le> 2 ^ k"
  shows "seq_pos cap k n \<le> seq_pos cap k m \<longleftrightarrow> n \<le> m"
  using seq_pos_mono [OF assms] by (metis less_imp_le linorder_not_less order_refl le_less)

lemma seq_pos_less:
  assumes "0 < cap" "cap \<le> 2 ^ k"
  shows "seq_pos cap k n < seq_pos cap k m \<longleftrightarrow> n < m"
  using seq_pos_le [OF assms, of m n] by (simp add: linorder_not_le [symmetric])

lemma seq_pos_inj:
  assumes "0 < cap" "cap \<le> 2 ^ k"
  shows "seq_pos cap k n = seq_pos cap k m \<longleftrightarrow> n = m"
  using seq_pos_le [OF assms] by (metis antisym order_refl)

text \<open>Positions of the same slot are at least two apart.\<close>

lemma seq_pos_same_slot:
  assumes "0 < cap" "cap \<le> 2 ^ k" "n mod cap = m mod cap" "n < m"
  shows "n + cap \<le> m" "seq_pos cap k n + 2 ^ Suc k \<le> seq_pos cap k m"
proof -
  have "cap dvd m - n"
    using assms(3,4) mod_eq_dvd_iff_nat [of n m cap] by simp
  then show le: "n + cap \<le> m"
    using assms(4) dvd_imp_le [of cap "m - n"] by simp
  show "seq_pos cap k n + 2 ^ Suc k \<le> seq_pos cap k m"
    using seq_pos_le [OF assms(1,2), of "n + cap" m] le seq_pos_add_cap [OF assms(1), of k n] by simp
qed

section \<open>Words\<close>

lemma index_of_pos:
  assumes "layout cap k q"
  shows "slot_index q (of_nat (seq_pos cap k n)) = n mod cap"
    and "slot_index q (of_nat (Suc (seq_pos cap k n))) = Suc (n mod cap)"
proof -
  have L: "0 < cap" "cap \<le> 2 ^ k" "k < 62" and R: "right_mask q = mask (Suc k)"
    using assms by (auto simp: layout_def)
  have gen: "slot_index q (of_nat a) = a mod 2 ^ Suc k" for a
  proof -
    have lt: "a mod 2 ^ Suc k < 2 ^ 64"
    proof -
      have "a mod 2 ^ Suc k < 2 ^ Suc k" by simp
      also have "\<dots> \<le> 2 ^ 64" using L(3) by (intro power_increasing) auto
      finally show ?thesis .
    qed
    have "(of_nat a :: u64) AND mask (Suc k) = of_nat (a mod 2 ^ Suc k)"
      unfolding take_bit_eq_mask [symmetric] take_bit_of_nat by (simp only: take_bit_eq_mod)
    then show ?thesis
      unfolding slot_index_def R using unat_word_of_nat [OF lt] by simp
  qed
  show "slot_index q (of_nat (seq_pos cap k n)) = n mod cap"
    unfolding gen by (rule seq_pos_mod [OF L(1,2)])
  have "Suc (n mod cap) < 2 ^ Suc k"
    using seq_pos_bounds(1) [OF L(1,2), of n] by simp
  then have "Suc (seq_pos cap k n) mod 2 ^ Suc k = Suc (n mod cap)"
    unfolding seq_pos_def by simp
  then show "slot_index q (of_nat (Suc (seq_pos cap k n))) = Suc (n mod cap)"
    unfolding gen .
qed

lemma flag_of_pos:
  assumes "layout cap k q"
  shows "(of_nat (seq_pos cap k n) :: u64) AND closed_channel_mask q = 0"
    and "(of_nat (seq_pos cap k n) OR closed_channel_mask q) AND closed_channel_mask q \<noteq> 0"
    and "(of_nat (seq_pos cap k n) OR closed_channel_mask q :: u64) = of_nat (seq_pos cap k n + 2 ^ k)"
proof -
  have L: "0 < cap" "cap \<le> 2 ^ k" "k < 62" and C: "closed_channel_mask q = 2 ^ k"
    using assms by (auto simp: layout_def)
  have "seq_pos cap k n = 2 ^ k * (2 * (n div cap)) + n mod cap"
    by (simp add: seq_pos_def)
  then have "seq_pos cap k n div 2 ^ k = 2 * (n div cap)"
    using seq_pos_bounds(1) [OF L(1,2), of n] by simp
  then have nb: "\<not> bit (of_nat (seq_pos cap k n) :: u64) k"
    using L(3) by (simp only: bit_of_nat_iff possible_bit_word) (simp add: bit_iff_odd)
  then show "(of_nat (seq_pos cap k n) :: u64) AND closed_channel_mask q = 0"
    unfolding C by (simp add: and_exp_eq_0_iff_not_bit)
  have "bit (of_nat (seq_pos cap k n) OR (2 ^ k :: u64)) k"
    using L(3) by (simp add: bit_simps)
  then show "(of_nat (seq_pos cap k n) OR closed_channel_mask q) AND closed_channel_mask q \<noteq> 0"
    unfolding C using L(3) by (simp add: and_exp_eq_0_iff_not_bit)
  have "of_nat (seq_pos cap k n) + (2 ^ k :: u64) = of_nat (seq_pos cap k n) OR 2 ^ k"
    using nb by (intro disjunctive_add) (auto simp: bit_simps)
  then show "(of_nat (seq_pos cap k n) OR closed_channel_mask q :: u64) = of_nat (seq_pos cap k n + 2 ^ k)"
    unfolding C by simp
qed

lemma seq_of_pos:
  assumes "layout cap k q"
  shows "(of_nat (seq_pos cap k n) :: u64) AND NOT (right_mask q) = of_nat (n div cap * 2 ^ Suc k)"
    and "(of_nat (seq_pos cap k n + 2 ^ k) :: u64) AND NOT (right_mask q) = of_nat (n div cap * 2 ^ Suc k)"
    and "(of_nat (seq_pos cap k n) :: u64) AND drop_bit 1 (right_mask q) = of_nat (n mod cap)"
    and "(of_nat (seq_pos cap k n + 2 ^ k) :: u64) AND drop_bit 1 (right_mask q) = of_nat (n mod cap)"
proof -
  have L: "0 < cap" "cap \<le> 2 ^ k" "k < 62" and R: "right_mask q = mask (Suc k)"
    using assms by (auto simp: layout_def)
  have split: "x AND NOT (mask j) = x - (x AND mask j)" for x :: u64 and j
  proof -
    have "(x AND NOT (mask j)) + (x AND mask j) = (x AND NOT (mask j)) OR (x AND mask j)"
      by (rule disjunctive_add) (auto simp: bit_simps)
    also have "\<dots> = x"
      by (rule bit_word_eqI) (auto simp: bit_simps)
    finally show ?thesis by (simp add: algebra_simps)
  qed
  have low: "(of_nat a :: u64) AND mask j = of_nat (a mod 2 ^ j)" for a j
    unfolding take_bit_eq_mask [symmetric] take_bit_of_nat by (simp only: take_bit_eq_mod)
  have D: "drop_bit 1 (mask (Suc k)) = (mask k :: u64)"
    using L(3) by (intro bit_word_eqI) (auto simp: bit_simps)
  note m = seq_pos_bounds [OF L(1,2), of n]
  have "seq_pos cap k n + 2 ^ k = n mod cap + 2 ^ k + 2 ^ Suc k * (n div cap)"
    by (simp add: seq_pos_def)
  then have m1: "seq_pos cap k n mod 2 ^ Suc k = n mod cap" "(seq_pos cap k n + 2 ^ k) mod 2 ^ Suc k = n mod cap + 2 ^ k"
    using m seq_pos_mod [OF L(1,2)] by (simp_all only: mod_mult_self2) simp
  have e: "seq_pos cap k n = n mod cap + 2 ^ k * (2 * (n div cap))"
    by (simp add: seq_pos_def)
  have "n mod cap + 2 ^ k * (2 * (n div cap)) + 2 ^ k = n mod cap + 2 ^ k * (2 * (n div cap) + 1)"
    by (simp only: distrib_left mult_1_right add.assoc)
  then have m2: "seq_pos cap k n mod 2 ^ k = n mod cap" "(seq_pos cap k n + 2 ^ k) mod 2 ^ k = n mod cap"
    unfolding e using m(1) by (simp_all only: mod_mult_self2 mod_less)
  show "(of_nat (seq_pos cap k n) :: u64) AND NOT (right_mask q) = of_nat (n div cap * 2 ^ Suc k)"
    "(of_nat (seq_pos cap k n + 2 ^ k) :: u64) AND NOT (right_mask q) = of_nat (n div cap * 2 ^ Suc k)"
    unfolding R split low m1 by (simp_all add: seq_pos_def)
  show "(of_nat (seq_pos cap k n) :: u64) AND drop_bit 1 (right_mask q) = of_nat (n mod cap)"
    "(of_nat (seq_pos cap k n + 2 ^ k) :: u64) AND drop_bit 1 (right_mask q) = of_nat (n mod cap)"
    unfolding R D low m2 by simp_all
qed

lemma next_of_pos:
  assumes "layout cap k q" "seq_pos cap k n < 2 ^ 63"
  shows "next_queue_pos q (of_nat (seq_pos cap k n)) = Some (of_nat (seq_pos cap k (Suc n)))"
proof -
  have L: "0 < cap" "cap \<le> 2 ^ k" "k < 62" "length (buffer q) = cap" and R: "right_mask q = mask (Suc k)"
    using assms by (auto simp: layout_def)
  have "unat (- 1 :: u64) = 2 ^ 64 - 1"
    by (simp add: unsigned_minus_1_eq_mask mask_eq_exp_minus_1)
  then have "unat (of_nat (seq_pos cap k n) :: u64) \<noteq> unat (- 1 :: u64)"
    using assms(2) by (subst unat_word_of_nat) auto
  then have ne: "(of_nat (seq_pos cap k n) :: u64) \<noteq> - 1"
    by metis
  have top: "bit (- 1 :: u64) 63"
    by simp
  have "\<not> bit (mask (Suc k) :: u64) 63"
    using L(3) by (simp add: bit_mask_iff)
  then have rm: "right_mask q \<noteq> - 1"
    unfolding R using top by metis
  have idx: "unat ((of_nat (seq_pos cap k n) + 1) AND right_mask q) = Suc (n mod cap)"
    using index_of_pos(2) [OF assms(1), of n] by (simp add: slot_index_def add.commute)
  have inc: "right_mask q + 1 = (of_nat (2 ^ Suc k) :: u64)"
    unfolding R by (simp add: mask_eq_exp_minus_1)
  show ?thesis
    unfolding next_queue_pos_def Let_def idx L(4) inc seq_of_pos(1) [OF assms(1)]
    using ne rm flag_of_pos(1) [OF assms(1), of n]
    by (auto simp: seq_pos_Suc [OF L(1)] algebra_simps)
qed

section \<open>Creation\<close>

lemma pow2_from_pow2:
  "p = 2 ^ j \<Longrightarrow> \<exists>k. pow2_from n p = 2 ^ k \<and> j \<le> k"
proof (induction n p arbitrary: j rule: pow2_from.induct)
  case (1 n p)
  show ?case
  proof (cases "n \<le> p \<or> p = 0")
    case True
    with 1(2) show ?thesis by (subst pow2_from.simps) auto
  next
    case False
    from 1(1) [OF False, of "Suc j"] 1(2) obtain k where "pow2_from n (2 * p) = 2 ^ k" "j \<le> k"
      by auto
    with False show ?thesis by (subst pow2_from.simps) auto
  qed
qed

lemma pow2_from_ge: "0 < p \<Longrightarrow> n \<le> pow2_from n p"
  by (induction n p rule: pow2_from.induct) (subst pow2_from.simps, auto)

lemma pow2_from_le: "0 < p \<Longrightarrow> p \<le> 2 ^ b \<Longrightarrow> n \<le> 2 ^ b \<Longrightarrow> p = 2 ^ j \<Longrightarrow> pow2_from n p \<le> 2 ^ b"
proof (induction n p arbitrary: j rule: pow2_from.induct)
  case (1 n p)
  show ?case
  proof (cases "n \<le> p \<or> p = 0")
    case True
    with 1 show ?thesis by (subst pow2_from.simps) auto
  next
    case False
    then have "p < 2 ^ b"
      using 1(4) by (auto intro: order.strict_trans2 [of p n])
    then have "2 ^ j < (2 ^ b :: nat)"
      using 1(5) by simp
    then have "j < b" by simp
    then have "(2 :: nat) ^ Suc j \<le> 2 ^ b"
      by (intro power_increasing) auto
    with 1(1) [OF False _ _ 1(4), of "Suc j"] 1(2,5) have "pow2_from n (2 * p) \<le> 2 ^ b" by simp
    with False show ?thesis by (subst pow2_from.simps) auto
  qed
qed

lemma next_power_of_two_spec:
  obtains k where "next_power_of_two n = 2 ^ k" "n \<le> 2 ^ k" "n \<le> 2 ^ b \<longrightarrow> k \<le> b"
proof -
  from pow2_from_pow2 [of 1 0 n] obtain k where k: "next_power_of_two n = 2 ^ k"
    unfolding next_power_of_two_def by auto
  moreover have "n \<le> 2 ^ k"
    using pow2_from_ge [of 1 n] k by (simp add: next_power_of_two_def)
  moreover have "n \<le> 2 ^ b \<longrightarrow> k \<le> b"
  proof
    assume "n \<le> 2 ^ b"
    then have "2 ^ k \<le> (2 ^ b :: nat)"
      using pow2_from_le [of 1 b n 0] k by (simp add: next_power_of_two_def)
    then show "k \<le> b" by simp
  qed
  ultimately show thesis by (rule that)
qed

lemma queue_new_layout:
  assumes "queue_new cap = Some q" "cap \<le> 2 ^ 61"
  obtains k where "layout cap k q" "next_power_of_two cap = 2 ^ k" "enqueue_pos q = 0" "dequeue_pos q = 0"
    "buffer q = map (\<lambda>i. \<lparr>slot_stamp = of_nat i, slot_message = Vacated\<rparr>) [0 ..< cap]"
proof -
  obtain k where k: "next_power_of_two cap = 2 ^ k" "cap \<le> 2 ^ k" "cap \<le> 2 ^ 61 \<longrightarrow> k \<le> 61"
    by (rule next_power_of_two_spec [of cap 61])
  from assms(1) have cap: "1 \<le> cap" "cap \<le> 2 ^ 63"
    and q: "q = \<lparr>enqueue_pos = 0, dequeue_pos = 0,
      buffer = map (\<lambda>i. \<lparr>slot_stamp = of_nat i, slot_message = Vacated\<rparr>) [0 ..< cap],
      right_mask = push_bit 1 (of_nat (2 ^ k)) - 1, closed_channel_mask = of_nat (2 ^ k)\<rparr>"
    unfolding queue_new_def Let_def k(1) by (auto split: if_splits)
  have "push_bit 1 (of_nat (2 ^ k)) - 1 = (mask (Suc k) :: u64)"
    by (simp add: mask_eq_exp_minus_1 push_bit_eq_mult)
  with k cap assms(2) have "layout cap k q"
    by (simp add: layout_def q)
  then show thesis
    using k(1) by (rule that) (simp_all add: q)
qed

end
