(* ===== verification/Mpsc_Safety.thy ===== *)
theory Mpsc_Safety
  imports Mpsc_Layout
begin

text \<open>
  The invariant of the queue and that every step of a producer, of the consumer and of
  the owner of a borrowed message keeps it.  With \<open>E\<close> the number of positions claimed and
  \<open>D\<close> the number of messages popped, a slot with number \<open>n\<close> is free for the \<open>n\<close>-th message
  if \<open>E \<le> n\<close>, holds it or waits for its producer if \<open>D \<le> n < E\<close>, and is borrowed if
  \<open>n < D\<close>.
\<close>

section \<open>The invariant\<close>

definition wpos :: "nat \<Rightarrow> nat \<Rightarrow> nat \<Rightarrow> u64" where
  "wpos cap k n = of_nat (seq_pos cap k n)"

text \<open>The positions in use do not reach \<open>2 ^ 63\<close>.\<close>

definition mq_room :: "nat \<Rightarrow> nat \<Rightarrow> 'm qsys \<Rightarrow> bool" where
  "mq_room cap k s \<longleftrightarrow> seq_pos cap k (length (claimed s) + 2 * cap) < 2 ^ 63"

definition stamp_at :: "'m qsys \<Rightarrow> nat \<Rightarrow> u64" where
  "stamp_at s i = slot_stamp (buffer (sys_queue s) ! i)"

definition message_at :: "'m qsys \<Rightarrow> nat \<Rightarrow> 'm message_box" where
  "message_at s i = slot_message (buffer (sys_queue s) ! i)"

text \<open>The position a producer has claimed and not yet published.\<close>

fun claim_of :: "'m producer \<Rightarrow> u64 option" where
  "claim_of (PWrite m pos stamp) = Some pos"
| "claim_of (PStore pos stamp) = Some pos"
| "claim_of _ = None"

text \<open>The number of messages returned by \<open>pop\<close>.\<close>

fun returns :: "consumer \<Rightarrow> nat \<Rightarrow> nat" where
  "returns (CTake _ _) d = d - 1"
| "returns _ d = d"

definition returned :: "'m qsys \<Rightarrow> nat" where
  "returned s = returns (consumer s) (dequeued s)"

definition is_claimed :: "'m qsys \<Rightarrow> u64 \<Rightarrow> bool" where
  "is_claimed s p \<longleftrightarrow> (\<exists>t. claim_of (producers s t) = Some p)"

definition base_ok :: "nat \<Rightarrow> nat \<Rightarrow> 'm qsys \<Rightarrow> bool" where
  "base_ok cap k s \<longleftrightarrow> layout cap k (sys_queue s) \<and> \<not> fault s
     \<and> (enqueue_pos (sys_queue s) = wpos cap k (length (claimed s))
        \<or> enqueue_pos (sys_queue s) = wpos cap k (length (claimed s)) OR closed_channel_mask (sys_queue s))
     \<and> dequeue_pos (sys_queue s) = wpos cap k (dequeued s)
     \<and> dequeued s \<le> length (claimed s)
     \<and> popped s = take (returned s) (claimed s)"

definition slot_ok :: "nat \<Rightarrow> nat \<Rightarrow> 'm qsys \<Rightarrow> nat \<Rightarrow> bool" where
  "slot_ok cap k s i \<longleftrightarrow> (let n = number s i; E = length (claimed s) in
       n mod cap = i \<and> E \<le> n + cap \<and> n < returned s + cap
     \<and> (E \<le> n \<longrightarrow> stamp_at s i = wpos cap k n \<and> message_at s i = Vacated)
     \<and> (returned s \<le> n \<and> n < E \<longrightarrow>
          stamp_at s i = wpos cap k n \<and> is_claimed s (wpos cap k n)
        \<or> stamp_at s i = wpos cap k n + 1 \<and> message_at s i = Populated (claimed s ! n))
     \<and> (n < returned s \<longrightarrow> stamp_at s i = wpos cap k n + 1 \<and> (\<exists>b \<in> set (borrows s). b_index b = i)))"

definition slots_ok :: "nat \<Rightarrow> nat \<Rightarrow> 'm qsys \<Rightarrow> bool" where
  "slots_ok cap k s \<longleftrightarrow> (\<forall>i < cap. slot_ok cap k s i)"

text \<open>A claimed and unpublished position \<open>n\<close>.\<close>

definition pending_at :: "nat \<Rightarrow> nat \<Rightarrow> 'm qsys \<Rightarrow> nat \<Rightarrow> bool" where
  "pending_at cap k s n \<longleftrightarrow> returned s \<le> n \<and> n < length (claimed s)
     \<and> number s (n mod cap) = n \<and> stamp_at s (n mod cap) = wpos cap k n"

fun producer_ok :: "nat \<Rightarrow> nat \<Rightarrow> 'm qsys \<Rightarrow> 'm producer \<Rightarrow> bool" where
  "producer_ok cap k s PIdle \<longleftrightarrow> True"
| "producer_ok cap k s (PReload m) \<longleftrightarrow> True"
| "producer_ok cap k s (PLoaded m pos) \<longleftrightarrow> (\<exists>e \<le> length (claimed s). pos = wpos cap k e
     \<or> pos = wpos cap k e OR closed_channel_mask (sys_queue s))"
| "producer_ok cap k s (PStamp m pos stamp) \<longleftrightarrow> stamp = pos \<and> (\<exists>e \<le> length (claimed s). pos = wpos cap k e
     \<and> (e = length (claimed s) \<longrightarrow> number s (e mod cap) = e))"
| "producer_ok cap k s (PWrite m pos stamp) \<longleftrightarrow> stamp = pos \<and> (\<exists>n. pos = wpos cap k n
     \<and> pending_at cap k s n \<and> message_at s (n mod cap) = Vacated \<and> claimed s ! n = m)"
| "producer_ok cap k s (PStore pos stamp) \<longleftrightarrow> stamp = pos \<and> (\<exists>n. pos = wpos cap k n
     \<and> pending_at cap k s n \<and> message_at s (n mod cap) = Populated (claimed s ! n))"

definition producers_ok :: "nat \<Rightarrow> nat \<Rightarrow> 'm qsys \<Rightarrow> bool" where
  "producers_ok cap k s \<longleftrightarrow> (\<forall>t. producer_ok cap k s (producers s t))
     \<and> (\<forall>t u p. claim_of (producers s t) = Some p \<longrightarrow> claim_of (producers s u) = Some p \<longrightarrow> t = u)"

fun consumer_ok :: "nat \<Rightarrow> nat \<Rightarrow> 'm qsys \<Rightarrow> consumer \<Rightarrow> bool" where
  "consumer_ok cap k s CIdle \<longleftrightarrow> True"
| "consumer_ok cap k s (CCheck pos) \<longleftrightarrow> pos = wpos cap k (dequeued s)"
| "consumer_ok cap k s (CPop pos stamp) \<longleftrightarrow> pos = wpos cap k (dequeued s) \<and> stamp = pos + 1
     \<and> dequeued s < length (claimed s) \<and> number s (dequeued s mod cap) = dequeued s
     \<and> stamp_at s (dequeued s mod cap) = stamp"
| "consumer_ok cap k s (CTake idx stamp) \<longleftrightarrow> (\<exists>d. dequeued s = Suc d \<and> idx = d mod cap
     \<and> stamp = wpos cap k d + 1 \<and> number s idx = d \<and> stamp_at s idx = stamp)"

definition borrow_ok :: "nat \<Rightarrow> nat \<Rightarrow> 'm qsys \<Rightarrow> borrow \<Rightarrow> bool" where
  "borrow_ok cap k s b \<longleftrightarrow> b_index b < cap \<and> number s (b_index b) < returned s
     \<and> b_stamp b = wpos cap k (number s (b_index b) + cap)
     \<and> (b_vacated b \<longrightarrow> message_at s (b_index b) = Vacated)"

definition borrows_ok :: "nat \<Rightarrow> nat \<Rightarrow> 'm qsys \<Rightarrow> bool" where
  "borrows_ok cap k s \<longleftrightarrow> (\<forall>b \<in> set (borrows s). borrow_ok cap k s b) \<and> distinct (map b_index (borrows s))"

definition mq_inv :: "nat \<Rightarrow> nat \<Rightarrow> 'm qsys \<Rightarrow> bool" where
  "mq_inv cap k s \<longleftrightarrow> base_ok cap k s \<and> slots_ok cap k s \<and> producers_ok cap k s
     \<and> consumer_ok cap k s (consumer s) \<and> borrows_ok cap k s"

section \<open>Positions as words\<close>

lemma wpos_bound:
  assumes "mq_room cap k s" "layout cap k q" "n \<le> length (claimed s) + 2 * cap"
  shows "seq_pos cap k n < 2 ^ 63"
proof -
  have "seq_pos cap k n \<le> seq_pos cap k (length (claimed s) + 2 * cap)"
    using assms(2,3) by (subst seq_pos_le) (auto simp: layout_def)
  with assms(1) show ?thesis
    by (simp add: mq_room_def)
qed

lemma wpos_eq:
  assumes "mq_room cap k s" "layout cap k q"
    and "n \<le> length (claimed s) + 2 * cap" "m \<le> length (claimed s) + 2 * cap"
  shows "wpos cap k n = wpos cap k m \<longleftrightarrow> n = m"
  using wpos_bound [OF assms(1-3)] wpos_bound [OF assms(1,2,4)] assms(2)
  unfolding wpos_def by (subst word_of_nat_eq) (auto simp: layout_def seq_pos_inj)

lemma wpos_Suc_neq:
  assumes "mq_room cap k s" "layout cap k q" "n mod cap = m mod cap"
    and "n \<le> length (claimed s) + 2 * cap" "m \<le> length (claimed s) + 2 * cap"
  shows "wpos cap k n + 1 \<noteq> wpos cap k m"
proof -
  have L: "0 < cap" "cap \<le> 2 ^ k"
    using assms(2) by (auto simp: layout_def)
  have "Suc (seq_pos cap k n) \<noteq> seq_pos cap k m"
  proof
    assume eq: "Suc (seq_pos cap k n) = seq_pos cap k m"
    then have "seq_pos cap k n < seq_pos cap k m" by simp
    then have "n < m" unfolding seq_pos_less [OF L] .
    from seq_pos_same_slot(2) [OF L assms(3) this] eq have "2 * 2 ^ k \<le> (1 :: nat)" by simp
    moreover have "(0 :: nat) < 2 ^ k" by simp
    ultimately show False by linarith
  qed
  moreover have "wpos cap k n + 1 = of_nat (Suc (seq_pos cap k n))"
    by (simp add: wpos_def)
  ultimately show ?thesis
    using wpos_bound [OF assms(1,2,4)] wpos_bound [OF assms(1,2,5)]
    unfolding wpos_def by (subst \<open>wpos cap k n + 1 = _\<close> [unfolded wpos_def]) (subst word_of_nat_eq, auto)
qed

lemma wpos_delta:
  assumes "mq_room cap k s" "layout cap k q"
    and "n \<le> length (claimed s) + 2 * cap" "m \<le> length (claimed s) + 2 * cap"
  shows "sint (wpos cap k n - wpos cap k m) = int (seq_pos cap k n) - int (seq_pos cap k m)"
  unfolding wpos_def using wpos_bound [OF assms(1-3)] wpos_bound [OF assms(1,2,4)] by (rule sint_diff)

lemma wpos_index: "layout cap k q \<Longrightarrow> slot_index q (wpos cap k n) = n mod cap"
  unfolding wpos_def by (rule index_of_pos)

lemma wpos_next:
  assumes "mq_room cap k s" "layout cap k q" "n \<le> length (claimed s) + 2 * cap"
  shows "next_queue_pos q (wpos cap k n) = Some (wpos cap k (Suc n))"
  unfolding wpos_def using assms(2) wpos_bound [OF assms] by (rule next_of_pos)

lemma wpos_open: "layout cap k q \<Longrightarrow> wpos cap k n AND closed_channel_mask q = 0"
  unfolding wpos_def by (rule flag_of_pos)

lemma wpos_closed: "layout cap k q \<Longrightarrow> (wpos cap k n OR closed_channel_mask q) AND closed_channel_mask q \<noteq> 0"
  unfolding wpos_def by (rule flag_of_pos)

lemma wpos_not_closed:
  "layout cap k q \<Longrightarrow> wpos cap k n \<noteq> wpos cap k m OR closed_channel_mask q"
  by (metis wpos_open wpos_closed)

lemma wpos_add_cap:
  "layout cap k q \<Longrightarrow> wpos cap k n + 1 + right_mask q = wpos cap k (n + cap)"
  by (simp add: wpos_def layout_def seq_pos_add_cap mask_eq_exp_minus_1)

lemma wpos_not_max:
  assumes "mq_room cap k s" "layout cap k q" "n \<le> length (claimed s) + 2 * cap"
  shows "wpos cap k n \<noteq> - 1"
proof -
  have "unat (wpos cap k n) < 2 ^ 63"
    using wpos_bound [OF assms] by (simp add: wpos_def unat_word_of_nat)
  moreover have "unat (- 1 :: u64) = 2 ^ 64 - 1"
    by (simp add: unsigned_minus_1_eq_mask mask_eq_exp_minus_1)
  ultimately have "unat (wpos cap k n) \<noteq> unat (- 1 :: u64)"
    by simp
  then show ?thesis by metis
qed

section \<open>Steps\<close>

lemma update_producer_simps [simp]:
  "sys_queue (update_producer i p s) = sys_queue s" "consumer (update_producer i p s) = consumer s"
  "borrows (update_producer i p s) = borrows s" "fault (update_producer i p s) = fault s"
  "claimed (update_producer i p s) = claimed s" "dequeued (update_producer i p s) = dequeued s"
  "popped (update_producer i p s) = popped s" "number (update_producer i p s) = number s"
  "producers (update_producer i p s) = (producers s)(i := p)"
  "stamp_at (update_producer i p s) = stamp_at s" "message_at (update_producer i p s) = message_at s"
  "returned (update_producer i p s) = returned s"
  by (auto simp: update_producer_def stamp_at_def message_at_def returned_def fun_eq_iff)

lemma update_slot_simps [simp]:
  "consumer (update_slot i x s) = consumer s" "producers (update_slot i x s) = producers s"
  "borrows (update_slot i x s) = borrows s" "fault (update_slot i x s) = fault s"
  "claimed (update_slot i x s) = claimed s" "dequeued (update_slot i x s) = dequeued s"
  "popped (update_slot i x s) = popped s" "number (update_slot i x s) = number s"
  "enqueue_pos (sys_queue (update_slot i x s)) = enqueue_pos (sys_queue s)"
  "dequeue_pos (sys_queue (update_slot i x s)) = dequeue_pos (sys_queue s)"
  "right_mask (sys_queue (update_slot i x s)) = right_mask (sys_queue s)"
  "closed_channel_mask (sys_queue (update_slot i x s)) = closed_channel_mask (sys_queue s)"
  "length (buffer (sys_queue (update_slot i x s))) = length (buffer (sys_queue s))"
  "layout cap k (sys_queue (update_slot i x s)) = layout cap k (sys_queue s)"
  "returned (update_slot i x s) = returned s"
  by (auto simp: update_slot_def layout_def returned_def)

lemma at_update_slot:
  "i < length (buffer (sys_queue s)) \<Longrightarrow> stamp_at (update_slot i x s) j = (if j = i then slot_stamp x else stamp_at s j)"
  "i < length (buffer (sys_queue s)) \<Longrightarrow> message_at (update_slot i x s) j = (if j = i then slot_message x else message_at s j)"
  by (auto simp: update_slot_def stamp_at_def message_at_def)

lemma producer_ok_update_producer [simp]:
  "producer_ok cap k (update_producer i p s) x = producer_ok cap k s x"
  by (cases x) (auto simp: pending_at_def)

lemma consumer_ok_update_producer [simp]:
  "consumer_ok cap k (update_producer i p s) x = consumer_ok cap k s x"
  by (cases x) auto

text \<open>A step of a producer that neither claims nor publishes a position.\<close>

lemma inv_update_producer:
  assumes "mq_inv cap k s" "claim_of (producers s i) = None" "claim_of p = None" "producer_ok cap k s p"
  shows "mq_inv cap k (update_producer i p s)"
proof -
  have "slot_ok cap k (update_producer i p s) j" if "slot_ok cap k s j" for j
  proof -
    have "is_claimed (update_producer i p s) x" if "is_claimed s x" for x
      using that assms(2) unfolding is_claimed_def
      by (metis update_producer_simps(9) fun_upd_other option.distinct(1))
    with that show ?thesis
      unfolding slot_ok_def Let_def by auto
  qed
  moreover have "producers_ok cap k (update_producer i p s)"
    using assms unfolding mq_inv_def producers_ok_def by (auto split: if_splits)
  moreover have "base_ok cap k (update_producer i p s)" "borrows_ok cap k (update_producer i p s)"
    using assms(1) by (simp_all add: mq_inv_def base_ok_def borrows_ok_def borrow_ok_def)
  ultimately show ?thesis
    using assms(1) by (simp add: mq_inv_def slots_ok_def)
qed

lemma push_load_inv:
  assumes "mq_inv cap k s" "claim_of (producers s i) = None"
  shows "mq_inv cap k (push_load i m s)"
  unfolding push_load_def using assms
  by (intro inv_update_producer) (auto simp: mq_inv_def base_ok_def)

lemma slot_at: "i < length (buffer q) \<Longrightarrow> vec_get (buffer q) i = Some (buffer q ! i)"
  by (simp add: vec_get_def)

lemma mq_inv_cap: "mq_inv cap k s \<Longrightarrow> 0 < cap \<and> length (buffer (sys_queue s)) = cap \<and> layout cap k (sys_queue s)"
  by (simp add: mq_inv_def base_ok_def layout_def)

lemma returned_le: "d \<le> n \<Longrightarrow> returns c d \<le> n"
  by (cases c) auto

text \<open>What the stamp of a slot says.\<close>

lemma stamp_cases:
  assumes "mq_inv cap k s" "i < cap"
  obtains "stamp_at s i = wpos cap k (number s i)" "returned s \<le> number s i" | "stamp_at s i = wpos cap k (number s i) + 1" "number s i < length (claimed s)"
proof -
  from assms have ok: "slot_ok cap k s i" and ret: "returned s \<le> length (claimed s)"
    by (auto simp: mq_inv_def slots_ok_def base_ok_def returned_def returned_le)
  consider "length (claimed s) \<le> number s i" | "returned s \<le> number s i" "number s i < length (claimed s)"
    | "number s i < returned s"
    by linarith
  then show thesis
    using that ok ret unfolding slot_ok_def Let_def by cases auto
qed

lemma number_bounds:
  assumes "mq_inv cap k s" "i < cap"
  shows "number s i mod cap = i" "length (claimed s) \<le> number s i + cap" "number s i < returned s + cap"
    "number s i < length (claimed s) + cap" "returned s \<le> length (claimed s)"
proof -
  from assms have ok: "slot_ok cap k s i" and ret: "returned s \<le> length (claimed s)"
    by (auto simp: mq_inv_def slots_ok_def base_ok_def returned_def returned_le)
  show "number s i mod cap = i" "length (claimed s) \<le> number s i + cap" "number s i < returned s + cap"
    "returned s \<le> length (claimed s)"
    using ok ret by (simp_all add: slot_ok_def Let_def)
  with ret show "number s i < length (claimed s) + cap" by simp
qed

lemma stamp_number:
  assumes inv: "mq_inv cap k s" and room: "mq_room cap k s"
    and e: "e \<le> length (claimed s) + cap" and st: "stamp_at s (e mod cap) = wpos cap k e"
  shows "number s (e mod cap) = e"
proof -
  have lay: "layout cap k (sys_queue s)" and c0: "0 < cap"
    using mq_inv_cap [OF inv] by auto
  then have idx: "e mod cap < cap" by simp
  note n = number_bounds [OF inv idx]
  from inv idx show ?thesis
  proof (cases rule: stamp_cases)
    case 1
    then have "wpos cap k (number s (e mod cap)) = wpos cap k e"
      using st by simp
    with wpos_eq [OF room lay] n e show ?thesis by simp
  next
    case 2
    with wpos_Suc_neq [OF room lay, of "number s (e mod cap)" e] n e st show ?thesis by simp
  qed
qed

lemma push_check_inv:
  assumes inv: "mq_inv cap k s" and room: "mq_room cap k s" and pc: "producers s i = PLoaded m pos"
    and step: "push_check i m pos s = (l, s')"
  shows "mq_inv cap k s'"
proof -
  have cl: "claim_of (producers s i) = None" using pc by simp
  have lay: "layout cap k (sys_queue s)" and len: "length (buffer (sys_queue s)) = cap" and c0: "0 < cap"
    using mq_inv_cap [OF inv] by auto
  have "producer_ok cap k s (PLoaded m pos)"
    using inv pc unfolding mq_inv_def producers_ok_def by metis
  then obtain e where e: "e \<le> length (claimed s)"
    and pos: "pos = wpos cap k e \<or> pos = wpos cap k e OR closed_channel_mask (sys_queue s)"
    by auto
  show ?thesis
  proof (cases "pos AND closed_channel_mask (sys_queue s) = 0")
    case False
    then have "s' = update_producer i PIdle s"
      using step by (simp add: push_check_def)
    with inv_update_producer [OF inv cl] show ?thesis by simp
  next
    case True
    then have pos: "pos = wpos cap k e"
      using pos wpos_closed [OF lay] by auto
    have idx: "slot_index (sys_queue s) pos = e mod cap" "e mod cap < cap"
      using wpos_index [OF lay] c0 by (simp_all add: pos)
    have get: "vec_get (buffer (sys_queue s)) (slot_index (sys_queue s) pos) = Some (buffer (sys_queue s) ! (e mod cap))"
      unfolding idx using idx(2) len by (simp add: slot_at)
    let ?st = "stamp_at s (e mod cap)"
    have step: "(l, s') = (case cmp (sint (?st - pos)) 0 of
               Equal \<Rightarrow> (Tau, update_producer i (PStamp m pos ?st) s)
             | Less \<Rightarrow> (PushFull i m, update_producer i PIdle s)
             | Greater \<Rightarrow> (Tau, update_producer i (PReload m) s))"
      using step True unfolding push_check_def Let_def get stamp_at_def by simp
    show ?thesis
    proof (cases "cmp (sint (?st - pos)) 0")
      case Equal
      then have "sint (?st - pos) = 0"
        by (auto simp: cmp_def split: if_splits)
      then have "?st - pos = 0"
        by (simp only: signed_eq_0_iff)
      then have st: "?st = pos"
        by simp
      have "producer_ok cap k s (PStamp m pos ?st)"
      proof -
        have "number s (e mod cap) = e"
          using stamp_number [OF inv room] e st pos by simp
        with e pos st show ?thesis by auto
      qed
      moreover have "s' = update_producer i (PStamp m pos ?st) s"
        using step unfolding Equal by simp
      ultimately show ?thesis
        using inv_update_producer [OF inv cl] by simp
    next
      case Less
      have "s' = update_producer i PIdle s"
        using step unfolding Less by simp
      then show ?thesis
        using inv_update_producer [OF inv cl] by simp
    next
      case Greater
      have "s' = update_producer i (PReload m) s"
        using step unfolding Greater by simp
      then show ?thesis
        using inv_update_producer [OF inv cl] by simp
    qed
  qed
qed

lemma number_inj:
  assumes "mq_inv cap k s" "i < cap" "j < cap" "number s i = number s j"
  shows "i = j"
  using number_bounds(1) [OF assms(1,2)] number_bounds(1) [OF assms(1,3)] assms(4) by metis

lemma room_mono:
  assumes "mq_room cap k s'" "layout cap k q" "length (claimed s) \<le> length (claimed s')"
  shows "mq_room cap k s"
  unfolding mq_room_def using assms(3) wpos_bound [OF assms(1,2), of "length (claimed s) + 2 * cap"] by simp

lemma producer_inv: "mq_inv cap k s \<Longrightarrow> producer_ok cap k s (producers s t)"
  by (simp add: mq_inv_def producers_ok_def)

lemma push_claim_inv:
  assumes inv: "mq_inv cap k s" and room: "mq_room cap k (push_claim weak i m pos stamp s)"
    and pc: "producers s i = PStamp m pos stamp"
  shows "mq_inv cap k (push_claim weak i m pos stamp s)"
proof -
  let ?E = "length (claimed s)" and ?s' = "push_claim weak i m pos stamp s"
  have cl: "claim_of (producers s i) = None" using pc by simp
  have lay: "layout cap k (sys_queue s)" and len: "length (buffer (sys_queue s)) = cap" and c0: "0 < cap"
    using mq_inv_cap [OF inv] by auto
  have "length (claimed s) \<le> length (claimed ?s')"
    by (auto simp: push_claim_def Let_def split: option.splits)
  with room lay have room0: "mq_room cap k s" by (rule room_mono)
  from producer_inv [OF inv, of i] pc obtain e where e: "e \<le> ?E" and pos: "pos = wpos cap k e" "stamp = pos"
    and num: "e = ?E \<longrightarrow> number s (e mod cap) = e" by auto
  have nxt: "next_queue_pos (sys_queue s) pos = Some (wpos cap k (Suc e))"
    unfolding pos using wpos_next [OF room0 lay] e by simp
  have enq: "enqueue_pos (sys_queue s) = wpos cap k ?E
      \<or> enqueue_pos (sys_queue s) = wpos cap k ?E OR closed_channel_mask (sys_queue s)"
    using inv by (simp add: mq_inv_def base_ok_def)
  show ?thesis
  proof (cases "enqueue_pos (sys_queue s) = pos \<and> \<not> weak")
    case False
    then have "?s' = push_load i m s"
      using nxt by (auto simp: push_claim_def push_load_def Let_def)
    with push_load_inv [OF inv cl] show ?thesis by simp
  next
    case True
    with enq pos wpos_not_closed [OF lay] have "wpos cap k e = wpos cap k ?E" by metis
    with wpos_eq [OF room0 lay, of e ?E] e have eE: "e = ?E" by simp
    with num have num: "number s (?E mod cap) = ?E" by simp
    have s': "?s' = update_producer i (PWrite m (wpos cap k ?E) (wpos cap k ?E))
        (s\<lparr>sys_queue := (sys_queue s)\<lparr>enqueue_pos := wpos cap k (Suc ?E)\<rparr>, claimed := claimed s @ [m]\<rparr>)"
      using nxt True pos eE by (simp add: push_claim_def Let_def)
    have idx: "?E mod cap < cap" using c0 by simp
    have ret: "returned ?s' = returned s" "returned s \<le> ?E"
      using number_bounds [OF inv idx] by (simp_all add: s' returned_def)
    have free: "stamp_at s (?E mod cap) = wpos cap k ?E" "message_at s (?E mod cap) = Vacated"
      using inv idx num unfolding mq_inv_def slots_ok_def slot_ok_def Let_def by (metis order_refl)+
    have at: "stamp_at ?s' = stamp_at s" "message_at ?s' = message_at s" "number ?s' = number s"
      by (simp_all add: s' stamp_at_def message_at_def fun_eq_iff)
    have cl': "claimed ?s' = claimed s @ [m]"
      by (simp add: s')
    have claims: "is_claimed ?s' p \<longleftrightarrow> is_claimed s p \<or> p = wpos cap k ?E" for p
      using cl unfolding is_claimed_def s' by auto (metis option.distinct(1))+
    have slots: "slot_ok cap k ?s' j" if j: "j < cap" for j
    proof (cases "j = ?E mod cap")
      case True
      then show ?thesis
        using num idx ret free c0 number_bounds(3) [OF inv idx] unfolding slot_ok_def Let_def at claims ret(1)
        by (simp add: s')
    next
      case False
      note n = number_bounds [OF inv j]
      from False n(1) have "number s j \<noteq> ?E" "number s j + cap \<noteq> ?E"
        by (metis, metis mod_add_self2)
      moreover have "slot_ok cap k s j"
        using inv j by (simp add: mq_inv_def slots_ok_def)
      ultimately show ?thesis
        using n unfolding slot_ok_def Let_def at claims ret(1) by (auto simp: s' nth_append)
    qed
    have prods: "producer_ok cap k ?s' x" if "producer_ok cap k s x" for x
    proof (cases x)
      case (PLoaded m' pos')
      with that obtain f where "f \<le> ?E" "pos' = wpos cap k f \<or> pos' = wpos cap k f OR closed_channel_mask (sys_queue s)"
        by auto
      then show ?thesis
        unfolding PLoaded producer_ok.simps by (intro exI [of _ f]) (simp add: s')
    next
      case (PStamp m' pos' stamp')
      with that obtain f where "stamp' = pos'" "f \<le> ?E" "pos' = wpos cap k f" by auto
      then show ?thesis
        unfolding PStamp producer_ok.simps by (intro conjI exI [of _ f]) (simp_all add: s')
    next
      case (PWrite m' pos' stamp')
      with that show ?thesis
        by (simp add: pending_at_def at ret(1)) (auto simp: s' nth_append)
    next
      case (PStore pos' stamp')
      with that show ?thesis
        by (simp add: pending_at_def at ret(1)) (auto simp: s' nth_append)
    qed simp_all
    have new: "producer_ok cap k ?s' (PWrite m (wpos cap k ?E) (wpos cap k ?E))"
      using num free ret unfolding producer_ok.simps pending_at_def at cl'
      by (intro conjI refl exI [of _ ?E]) simp_all
    have old: "claim_of (producers s u) \<noteq> Some (wpos cap k ?E)" for u
    proof
      assume "claim_of (producers s u) = Some (wpos cap k ?E)"
      with producer_inv [OF inv, of u] obtain n where "n < ?E" "wpos cap k n = wpos cap k ?E"
        by (cases "producers s u") (auto simp: pending_at_def)
      with wpos_eq [OF room0 lay, of n ?E] show False by simp
    qed
    have "producers_ok cap k ?s'"
      unfolding producers_ok_def
    proof (intro conjI allI impI)
      fix t
      show "producer_ok cap k ?s' (producers ?s' t)"
        using prods [OF producer_inv [OF inv]] new by (cases "t = i") (simp_all add: s')
    next
      fix t u p
      assume "claim_of (producers ?s' t) = Some p" "claim_of (producers ?s' u) = Some p"
      with inv old show "t = u"
        unfolding mq_inv_def producers_ok_def s' by (auto split: if_splits)
    qed
    moreover have "consumer_ok cap k ?s' (consumer ?s')"
    proof -
      have "consumer_ok cap k s (consumer s)" using inv by (simp add: mq_inv_def)
      then show ?thesis
        by (cases "consumer s") (auto simp: s' stamp_at_def)
    qed
    moreover have "borrows_ok cap k ?s'"
      using inv ret(1) unfolding mq_inv_def borrows_ok_def borrow_ok_def at by (auto simp: s')
    moreover have "base_ok cap k ?s'"
      using inv ret unfolding mq_inv_def base_ok_def by (auto simp: s' layout_def)
    ultimately show ?thesis
      using slots by (simp add: mq_inv_def slots_ok_def)
  qed
qed

end
