(* ===== verification/Mpsc_Steps.thy ===== *)
theory Mpsc_Steps
  imports Mpsc_Safety
begin

text \<open>
  The remaining steps keep the invariant of the queue: publishing a message, the steps of
  \<open>pop\<close>, and the release of a borrowed message.
\<close>

lemma producer_ok_frame:
  assumes "producer_ok cap k s x" "claimed s' = claimed s"
    and "closed_channel_mask (sys_queue s') = closed_channel_mask (sys_queue s)"
    and "number s (length (claimed s) mod cap) = length (claimed s) \<Longrightarrow>
      number s' (length (claimed s) mod cap) = length (claimed s)"
    and "\<And>n. claim_of x = Some (wpos cap k n) \<Longrightarrow> pending_at cap k s n \<Longrightarrow>
      pending_at cap k s' n \<and> message_at s' (n mod cap) = message_at s (n mod cap)"
  shows "producer_ok cap k s' x"
proof (cases x)
  case (PLoaded m pos)
  with assms(1) show ?thesis
    unfolding PLoaded producer_ok.simps assms(2,3) by simp
next
  case (PStamp m pos stamp)
  with assms(1) obtain e where "stamp = pos" "e \<le> length (claimed s)" "pos = wpos cap k e"
    "e = length (claimed s) \<longrightarrow> number s (e mod cap) = e" by auto
  with assms(4) show ?thesis
    unfolding PStamp producer_ok.simps assms(2) by (intro conjI exI [of _ e]) auto
next
  case (PWrite m pos stamp)
  with assms(1) obtain n where n: "stamp = pos" "pos = wpos cap k n" "pending_at cap k s n"
    "message_at s (n mod cap) = Vacated" "claimed s ! n = m" by auto
  with assms(5) [of n] PWrite show ?thesis
    unfolding PWrite producer_ok.simps assms(2) by (intro conjI exI [of _ n]) auto
next
  case (PStore pos stamp)
  with assms(1) obtain n where n: "stamp = pos" "pos = wpos cap k n" "pending_at cap k s n"
    "message_at s (n mod cap) = Populated (claimed s ! n)" by auto
  with assms(5) [of n] PStore show ?thesis
    unfolding PStore producer_ok.simps assms(2) by (intro conjI exI [of _ n]) auto
qed simp_all

lemma consumer_ok_frame:
  assumes "consumer_ok cap k s c" "claimed s' = claimed s" "dequeued s' = dequeued s"
    and "\<And>j. stamp_at s j = wpos cap k (number s j) + 1 \<Longrightarrow> returns c (dequeued s) \<le> number s j \<Longrightarrow>
      stamp_at s' j = stamp_at s j \<and> number s' j = number s j"
  shows "consumer_ok cap k s' c"
proof (cases c)
  case (CPop pos stamp)
  with assms(1) have "pos = wpos cap k (dequeued s)" "stamp = pos + 1" "dequeued s < length (claimed s)"
    "number s (dequeued s mod cap) = dequeued s" "stamp_at s (dequeued s mod cap) = stamp" by auto
  with assms(4) [of "dequeued s mod cap"] CPop show ?thesis
    unfolding CPop consumer_ok.simps assms(2,3) by simp
next
  case (CTake idx stamp)
  with assms(1) obtain d where "dequeued s = Suc d" "idx = d mod cap" "stamp = wpos cap k d + 1"
    "number s idx = d" "stamp_at s idx = stamp" by auto
  with assms(4) [of idx] CTake show ?thesis
    unfolding CTake consumer_ok.simps assms(2,3) by (intro exI [of _ d]) simp
qed (use assms in simp_all)

text \<open>Different claimed positions are in different slots.\<close>

lemma other_claim:
  assumes inv: "mq_inv cap k s" and t: "claim_of (producers s t) = Some (wpos cap k n)" "pending_at cap k s n"
    and u: "claim_of (producers s u) = Some (wpos cap k m)" "pending_at cap k s m" and "u \<noteq> t"
  shows "m mod cap \<noteq> n mod cap"
proof
  assume "m mod cap = n mod cap"
  with t(2) u(2) have "m = n"
    by (simp add: pending_at_def)
  with inv t(1) u(1) have "t = u"
    unfolding mq_inv_def producers_ok_def by metis
  with assms(6) show False by simp
qed

text \<open>The slot of a claimed position is not borrowed.\<close>

lemma claim_slot:
  assumes inv: "mq_inv cap k s" and p: "pending_at cap k s n"
  shows "n mod cap < cap" "b \<in> set (borrows s) \<Longrightarrow> b_index b \<noteq> n mod cap"
proof -
  show "n mod cap < cap"
    using mq_inv_cap [OF inv] by simp
  show "b_index b \<noteq> n mod cap" if "b \<in> set (borrows s)"
    using inv that p unfolding mq_inv_def borrows_ok_def borrow_ok_def pending_at_def by (metis not_less)
qed

lemma push_write_inv:
  assumes inv: "mq_inv cap k s" and room: "mq_room cap k s" and pc: "producers s i = PWrite m pos stamp"
  shows "mq_inv cap k (push_write i m pos stamp s)"
proof -
  let ?s' = "push_write i m pos stamp s"
  have lay: "layout cap k (sys_queue s)" and len: "length (buffer (sys_queue s)) = cap" and c0: "0 < cap"
    using mq_inv_cap [OF inv] by auto
  from producer_inv [OF inv, of i] pc obtain n where pos: "stamp = pos" "pos = wpos cap k n"
    and pend: "pending_at cap k s n" and msg: "message_at s (n mod cap) = Vacated" and m: "claimed s ! n = m" by auto
  let ?i = "n mod cap"
  have idx: "slot_index (sys_queue s) pos = ?i" "?i < cap"
    using wpos_index [OF lay] c0 by (simp_all add: pos)
  have cl: "claim_of (producers s i) = Some (wpos cap k n)"
    using pc pos by simp
  have s': "?s' = update_producer i (PStore pos stamp)
      (update_slot ?i ((buffer (sys_queue s) ! ?i)\<lparr>slot_message := Populated m\<rparr>) s)"
    using msg idx len by (simp add: push_write_def idx slot_at Let_def message_at_def)
  have at: "stamp_at ?s' j = stamp_at s j"
    "message_at ?s' j = (if j = ?i then Populated m else message_at s j)"
    and same: "number ?s' = number s" "claimed ?s' = claimed s" "returned ?s' = returned s"
    "borrows ?s' = borrows s" "dequeued ?s' = dequeued s" for j
    using idx(2) len by (simp_all add: s' at_update_slot) (simp add: stamp_at_def)
  have pr: "producers ?s' = (producers s)(i := PStore pos stamp)"
    by (simp add: s')
  have claims: "is_claimed ?s' p \<longleftrightarrow> is_claimed s p" for p
    using cl pos unfolding is_claimed_def s' by (auto split: if_splits) (metis option.inject)+
  have slots: "slot_ok cap k ?s' j" if "slot_ok cap k s j" for j
  proof (cases "j = ?i")
    case True
    with that pend m show ?thesis
      unfolding slot_ok_def Let_def at same claims pending_at_def by auto
  next
    case False
    with that show ?thesis
      unfolding slot_ok_def Let_def at same claims by simp
  qed
  have pend': "pending_at cap k ?s' j \<longleftrightarrow> pending_at cap k s j" for j
    unfolding pending_at_def at same ..
  have "producers_ok cap k ?s'"
    unfolding producers_ok_def
  proof (intro conjI allI impI)
    fix t
    show "producer_ok cap k ?s' (producers ?s' t)"
    proof (cases "t = i")
      case True
      have "producer_ok cap k ?s' (PStore pos stamp)"
        unfolding producer_ok.simps pend' at same using pos pend m by (intro conjI exI [of _ n]) simp_all
      with True show ?thesis unfolding pr by (simp only: fun_upd_same)
    next
      case False
      have "producer_ok cap k ?s' (producers s t)"
      proof (rule producer_ok_frame [OF producer_inv [OF inv, of t]])
        fix n' assume "claim_of (producers s t) = Some (wpos cap k n')" "pending_at cap k s n'"
        with other_claim [OF inv cl pend] False
        show "pending_at cap k ?s' n' \<and> message_at ?s' (n' mod cap) = message_at s (n' mod cap)"
          unfolding pend' at by auto
      qed (simp_all add: s')
      with False show ?thesis unfolding pr by simp
    qed
  next
    fix t u p
    assume "claim_of (producers ?s' t) = Some p" "claim_of (producers ?s' u) = Some p"
    moreover have "claim_of (producers ?s' t) = claim_of (producers s t)" for t
      unfolding pr using cl pos by simp
    ultimately show "t = u"
      using inv unfolding mq_inv_def producers_ok_def by metis
  qed
  moreover have "consumer_ok cap k ?s' (consumer ?s')"
  proof -
    have "consumer_ok cap k s (consumer s)" using inv by (simp add: mq_inv_def)
    moreover have "consumer ?s' = consumer s" by (simp add: s')
    ultimately show ?thesis
      by (cases "consumer s") (simp_all add: at same)
  qed
  moreover have "borrows_ok cap k ?s'"
    using inv claim_slot(2) [OF inv pend]
    unfolding mq_inv_def borrows_ok_def borrow_ok_def at same by auto
  moreover have "base_ok cap k ?s'"
    using inv unfolding mq_inv_def base_ok_def same by (simp add: s')
  ultimately show ?thesis
    using slots inv by (simp add: mq_inv_def slots_ok_def)
qed

lemma push_store_inv:
  assumes inv: "mq_inv cap k s" and room: "mq_room cap k s" and pc: "producers s i = PStore pos stamp"
  shows "mq_inv cap k (push_store i pos stamp s)"
proof -
  let ?s' = "push_store i pos stamp s"
  have lay: "layout cap k (sys_queue s)" and len: "length (buffer (sys_queue s)) = cap" and c0: "0 < cap"
    using mq_inv_cap [OF inv] by auto
  from producer_inv [OF inv, of i] pc obtain n where pos: "stamp = pos" "pos = wpos cap k n"
    and pend: "pending_at cap k s n" and msg: "message_at s (n mod cap) = Populated (claimed s ! n)" by auto
  let ?i = "n mod cap"
  have idx: "slot_index (sys_queue s) pos = ?i" "?i < cap"
    using wpos_index [OF lay] c0 by (simp_all add: pos)
  have cl: "claim_of (producers s i) = Some (wpos cap k n)"
    using pc pos by simp
  have s': "?s' = update_producer i PIdle
      (update_slot ?i ((buffer (sys_queue s) ! ?i)\<lparr>slot_stamp := wpos cap k n + 1\<rparr>) s)"
    using idx len pos by (simp add: push_store_def idx slot_at Let_def)
  have at: "stamp_at ?s' j = (if j = ?i then wpos cap k n + 1 else stamp_at s j)"
    "message_at ?s' j = message_at s j"
    and same: "number ?s' = number s" "claimed ?s' = claimed s" "returned ?s' = returned s"
    "borrows ?s' = borrows s" "dequeued ?s' = dequeued s" for j
    using idx(2) len by (simp_all add: s' at_update_slot) (simp add: message_at_def)
  have pr: "producers ?s' = (producers s)(i := PIdle)"
    by (simp add: s')
  have claims: "is_claimed ?s' p \<longleftrightarrow> is_claimed s p \<and> p \<noteq> wpos cap k n" for p
  proof -
    have only: "\<forall>t. claim_of (producers s t) = Some (wpos cap k n) \<longleftrightarrow> t = i"
      using inv cl unfolding mq_inv_def producers_ok_def by metis
    have "is_claimed ?s' p \<longleftrightarrow> (\<exists>t. t \<noteq> i \<and> claim_of (producers s t) = Some p)"
      unfolding is_claimed_def pr by (auto split: if_splits)
    with only cl show ?thesis
      unfolding is_claimed_def by (metis option.inject)
  qed
  have ret: "returned s \<le> n" "n < length (claimed s)" "number s ?i = n"
    using pend by (simp_all add: pending_at_def)
  have slots: "slot_ok cap k ?s' j" if j: "j < cap" for j
  proof -
    have ok: "slot_ok cap k s j"
      using inv j by (simp add: mq_inv_def slots_ok_def)
    show ?thesis
    proof (cases "j = ?i")
      case True
      with ok ret msg show ?thesis
        unfolding slot_ok_def Let_def at same claims by auto
    next
      case False
      have "number s j \<noteq> n"
        using number_bounds(1) [OF inv j] False by auto
      then have "wpos cap k (number s j) \<noteq> wpos cap k n"
        using wpos_eq [OF room lay, of "number s j" n] number_bounds [OF inv j] ret by simp
      with ok False show ?thesis
        unfolding slot_ok_def Let_def at same claims by auto
    qed
  qed
  have "producers_ok cap k ?s'"
    unfolding producers_ok_def
  proof (intro conjI allI impI)
    fix t
    show "producer_ok cap k ?s' (producers ?s' t)"
    proof (cases "t = i")
      case True
      then show ?thesis by (simp add: s')
    next
      case False
      have "producer_ok cap k ?s' (producers s t)"
      proof (rule producer_ok_frame [OF producer_inv [OF inv, of t]])
        fix n' assume "claim_of (producers s t) = Some (wpos cap k n')" and p': "pending_at cap k s n'"
        with other_claim [OF inv cl pend] False have "n' mod cap \<noteq> ?i" by blast
        with p' show "pending_at cap k ?s' n' \<and> message_at ?s' (n' mod cap) = message_at s (n' mod cap)"
          unfolding pending_at_def at same by simp
      qed (simp_all add: s')
      with False show ?thesis unfolding pr by simp
    qed
  next
    fix t u p
    assume "claim_of (producers ?s' t) = Some p" "claim_of (producers ?s' u) = Some p"
    with inv show "t = u"
      unfolding mq_inv_def producers_ok_def s' by (auto split: if_splits)
  qed
  moreover have "consumer_ok cap k ?s' (consumer ?s')"
  proof -
    have "consumer_ok cap k s (consumer s)" using inv by (simp add: mq_inv_def)
    then have "consumer_ok cap k ?s' (consumer s)"
      by (rule consumer_ok_frame) (use same ret(3) at in auto)
    then show ?thesis by (simp add: s')
  qed
  moreover have "borrows_ok cap k ?s'"
    using inv unfolding mq_inv_def borrows_ok_def borrow_ok_def at same by auto
  moreover have "base_ok cap k ?s'"
    using inv unfolding mq_inv_def base_ok_def same by (simp add: s')
  ultimately show ?thesis
    using slots by (simp add: mq_inv_def slots_ok_def)
qed

section \<open>The consumer\<close>

text \<open>A step of the consumer that changes its own state only.\<close>

lemma inv_consumer:
  assumes "mq_inv cap k s" "returns c (dequeued s) = returned s" "consumer_ok cap k s c"
  shows "mq_inv cap k (s\<lparr>consumer := c\<rparr>)"
proof -
  let ?s' = "s\<lparr>consumer := c\<rparr>"
  have at: "stamp_at ?s' = stamp_at s" "message_at ?s' = message_at s" "returned ?s' = returned s"
    "is_claimed ?s' = is_claimed s"
    using assms(2) by (simp_all add: stamp_at_def message_at_def returned_def is_claimed_def fun_eq_iff)
  have "consumer_ok cap k ?s' c"
    using assms(3) by (rule consumer_ok_frame) (simp_all add: at)
  moreover have "producer_ok cap k ?s' x" if "producer_ok cap k s x" for x
    using that by (rule producer_ok_frame) (simp_all add: at pending_at_def)
  ultimately show ?thesis
    using assms(1)
    by (simp add: mq_inv_def base_ok_def slots_ok_def slot_ok_def producers_ok_def borrows_ok_def borrow_ok_def at)
qed

text \<open>The slot of the next position to dequeue.\<close>

lemma dequeue_slot:
  assumes inv: "mq_inv cap k s" and c: "returned s = dequeued s" and b: "borrows s = []"
  shows "number s (dequeued s mod cap) = dequeued s"
proof -
  let ?D = "dequeued s"
  have "0 < cap" using mq_inv_cap [OF inv] by simp
  then have i: "?D mod cap < cap" by simp
  note n = number_bounds [OF inv i]
  have "slot_ok cap k s (?D mod cap)"
    using inv i by (simp add: mq_inv_def slots_ok_def)
  with b have "?D \<le> number s (?D mod cap)"
    by (simp add: slot_ok_def Let_def c)
  moreover have "\<not> ?D < number s (?D mod cap)"
  proof
    assume "?D < number s (?D mod cap)"
    moreover have "cap dvd number s (?D mod cap) - ?D"
      using n(1) calculation mod_eq_dvd_iff_nat [of ?D "number s (?D mod cap)" cap] by simp
    ultimately have "?D + cap \<le> number s (?D mod cap)"
      using dvd_imp_le [of cap "number s (?D mod cap) - ?D"] by simp
    with n(3) c show False by simp
  qed
  ultimately show ?thesis by simp
qed

lemma pop_load_inv:
  assumes inv: "mq_inv cap k s" and room: "mq_room cap k s" and pc: "consumer s = CIdle" "borrows s = []"
  shows "mq_inv cap k (pop_load s)"
proof -
  let ?D = "dequeued s"
  have lay: "layout cap k (sys_queue s)" and len: "length (buffer (sys_queue s)) = cap" and c0: "0 < cap"
    using mq_inv_cap [OF inv] by auto
  have c: "returned s = ?D" using pc by (simp add: returned_def)
  have deq: "dequeue_pos (sys_queue s) = wpos cap k ?D" "?D \<le> length (claimed s)"
    using inv by (simp_all add: mq_inv_def base_ok_def)
  have idx: "slot_index (sys_queue s) (wpos cap k ?D) = ?D mod cap" "?D mod cap < cap"
    using wpos_index [OF lay] c0 by simp_all
  have num: "number s (?D mod cap) = ?D"
    using inv c pc(2) by (rule dequeue_slot)
  have mx: "wpos cap k ?D \<noteq> - 1"
    using wpos_not_max [OF room lay] deq(2) by simp
  have load: "pop_load s = (if wpos cap k ?D \<noteq> stamp_at s (?D mod cap)
      then s\<lparr>consumer := CPop (wpos cap k ?D) (stamp_at s (?D mod cap)),
             fault := fault s \<or> wpos cap k ?D = - 1 \<or> stamp_at s (?D mod cap) \<noteq> wpos cap k ?D + 1\<rparr>
      else s\<lparr>consumer := CCheck (wpos cap k ?D)\<rparr>)"
    using idx len by (simp add: pop_load_def Let_def deq(1) slot_at stamp_at_def)
  from inv idx(2) show ?thesis
  proof (cases rule: stamp_cases)
    case 1
    then have "pop_load s = s\<lparr>consumer := CCheck (wpos cap k ?D)\<rparr>"
      by (simp add: load num)
    with inv_consumer [OF inv, of "CCheck (wpos cap k ?D)"] c show ?thesis by simp
  next
    case 2
    then have st: "stamp_at s (?D mod cap) = wpos cap k ?D + 1" "?D < length (claimed s)"
      by (simp_all add: num)
    have "wpos cap k ?D \<noteq> wpos cap k ?D + 1" by simp
    then have "pop_load s = s\<lparr>consumer := CPop (wpos cap k ?D) (wpos cap k ?D + 1)\<rparr>"
      using mx inv by (simp add: load st mq_inv_def base_ok_def)
    with inv_consumer [OF inv, of "CPop (wpos cap k ?D) (wpos cap k ?D + 1)"] c st num show ?thesis by simp
  qed
qed

lemma pop_check_inv:
  assumes "mq_inv cap k s" "consumer s = CCheck pos" "pop_check pos s = (l, s')"
  shows "mq_inv cap k s'"
  using assms inv_consumer [OF assms(1), of CIdle] by (auto simp: pop_check_def returned_def Let_def)

lemma pop_store_inv:
  assumes inv: "mq_inv cap k s" and room: "mq_room cap k s" and pc: "consumer s = CPop pos stamp"
  shows "mq_inv cap k (pop_store pos stamp s)"
proof -
  let ?D = "dequeued s" and ?s' = "pop_store pos stamp s"
  have lay: "layout cap k (sys_queue s)" using mq_inv_cap [OF inv] by simp
  have "consumer_ok cap k s (CPop pos stamp)" using inv pc by (simp add: mq_inv_def)
  then have pos: "pos = wpos cap k ?D" "stamp = wpos cap k ?D + 1" "?D < length (claimed s)"
    "number s (?D mod cap) = ?D" "stamp_at s (?D mod cap) = stamp" by auto
  have s': "?s' = s\<lparr>sys_queue := (sys_queue s)\<lparr>dequeue_pos := wpos cap k (Suc ?D)\<rparr>,
      consumer := CTake (?D mod cap) stamp, dequeued := Suc ?D\<rparr>"
    using wpos_next [OF room lay, of ?D] wpos_index [OF lay] pos(1,3)
    by (simp add: pop_store_def Let_def)
  have at: "stamp_at ?s' = stamp_at s" "message_at ?s' = message_at s" "returned ?s' = returned s"
    "is_claimed ?s' = is_claimed s" "number ?s' = number s" "claimed ?s' = claimed s" "borrows ?s' = borrows s"
    "producers ?s' = producers s"
    unfolding s' using pc by (simp_all add: stamp_at_def message_at_def returned_def is_claimed_def fun_eq_iff)
  have "producer_ok cap k ?s' x" if "producer_ok cap k s x" for x
    using that by (rule producer_ok_frame) (simp_all add: at pending_at_def, simp add: s')
  then have "producers_ok cap k ?s'"
    using inv by (simp add: mq_inv_def producers_ok_def at)
  moreover have "consumer_ok cap k ?s' (consumer ?s')"
  proof -
    have "consumer ?s' = CTake (?D mod cap) stamp" "dequeued ?s' = Suc ?D"
      by (simp_all add: s')
    then show ?thesis
      unfolding \<open>consumer ?s' = _\<close> consumer_ok.simps at using pos by simp
  qed
  moreover have "base_ok cap k ?s'"
    using inv pos(3) at(3) by (auto simp: mq_inv_def base_ok_def s' layout_def)
  moreover have "slots_ok cap k ?s'" "borrows_ok cap k ?s'"
    using inv unfolding mq_inv_def slots_ok_def slot_ok_def borrows_ok_def borrow_ok_def at by auto
  ultimately show ?thesis by (simp add: mq_inv_def)
qed

lemma pop_take_result:
  assumes inv: "mq_inv cap k s" and room: "mq_room cap k s" and pc: "consumer s = CTake idx stamp"
  obtains d where "dequeued s = Suc d" "idx = d mod cap" "number s idx = d" "stamp = wpos cap k d + 1"
    "stamp_at s idx = wpos cap k d + 1" "returned s = d" "d < length (claimed s)"
    "message_at s idx = Populated (claimed s ! d)" "idx < cap"
proof -
  have lay: "layout cap k (sys_queue s)" and c0: "0 < cap" using mq_inv_cap [OF inv] by auto
  have "consumer_ok cap k s (CTake idx stamp)" using inv pc by (simp add: mq_inv_def)
  then obtain d where d: "dequeued s = Suc d" "idx = d mod cap" "stamp = wpos cap k d + 1" "number s idx = d"
    "stamp_at s idx = stamp" by auto
  have ret: "returned s = d" "d < length (claimed s)"
    using inv pc d(1) by (simp_all add: returned_def mq_inv_def base_ok_def)
  have i: "idx < cap" using d(2) c0 by simp
  have "slot_ok cap k s idx"
    using inv i by (simp add: mq_inv_def slots_ok_def)
  moreover have "wpos cap k d + 1 \<noteq> wpos cap k d" by simp
  ultimately have "message_at s idx = Populated (claimed s ! d)"
    using d ret by (simp add: slot_ok_def Let_def)
  with d ret i show thesis by (intro that) simp_all
qed

lemma pop_take_inv:
  assumes inv: "mq_inv cap k s" and room: "mq_room cap k s" and pc: "consumer s = CTake idx stamp"
    and step: "pop_take idx stamp s = (l, s')"
  shows "mq_inv cap k s'"
proof -
  obtain d where d: "dequeued s = Suc d" "idx = d mod cap" "number s idx = d" "stamp = wpos cap k d + 1"
    "stamp_at s idx = wpos cap k d + 1" "returned s = d" "d < length (claimed s)"
    and msg: "message_at s idx = Populated (claimed s ! d)" and i: "idx < cap"
    by (rule pop_take_result [OF inv room pc])
  have lay: "layout cap k (sys_queue s)" and len: "length (buffer (sys_queue s)) = cap"
    using mq_inv_cap [OF inv] by auto
  let ?b = "\<lparr>b_index = idx, b_stamp = wpos cap k (d + cap), b_vacated = False\<rparr>"
  have s': "s' = (update_slot idx ((buffer (sys_queue s) ! idx)\<lparr>slot_message := NoBox\<rparr>) s)
      \<lparr>consumer := CIdle, popped := popped s @ [claimed s ! d], borrows := ?b # borrows s\<rparr>"
    using step msg i len wpos_add_cap [OF lay, of d] d(4)
    by (simp add: pop_take_def Let_def slot_at message_at_def)
  have at: "stamp_at s' j = stamp_at s j" "message_at s' j = (if j = idx then NoBox else message_at s j)"
    "is_claimed s' = is_claimed s" "number s' = number s" "claimed s' = claimed s" "producers s' = producers s"
    "returned s' = Suc d" for j
    unfolding s' using i len d(1)
    by (simp_all add: is_claimed_def fun_eq_iff returned_def stamp_at_def message_at_def update_slot_def nth_list_update)
  have slots: "slot_ok cap k s' j" if j: "j < cap" for j
  proof -
    have ok: "slot_ok cap k s j" using inv j by (simp add: mq_inv_def slots_ok_def)
    show ?thesis
    proof (cases "j = idx")
      case True
      with ok d show ?thesis unfolding slot_ok_def Let_def at by (simp add: s')
    next
      case False
      with number_inj [OF inv j i] d(3) have "number s j \<noteq> d" by auto
      with ok False d(6) show ?thesis unfolding slot_ok_def Let_def at by (auto simp: s')
    qed
  qed
  have "producer_ok cap k s' x" if "producer_ok cap k s x" for x
    using that
  proof (rule producer_ok_frame)
    fix n assume p: "pending_at cap k s n"
    then have "n \<noteq> d"
      using d(2,5) by (auto simp: pending_at_def)
    moreover have "n mod cap \<noteq> idx"
      using p d(3) calculation by (auto simp: pending_at_def)
    ultimately show "pending_at cap k s' n \<and> message_at s' (n mod cap) = message_at s (n mod cap)"
      using p d(6) unfolding pending_at_def at by auto
  qed (simp_all add: at, simp add: s')
  then have "producers_ok cap k s'"
    using inv by (simp add: mq_inv_def producers_ok_def at)
  moreover have "borrows_ok cap k s'"
  proof -
    have old: "b_index b < cap" "number s (b_index b) < d" "b_stamp b = wpos cap k (number s (b_index b) + cap)"
      "b_vacated b \<longrightarrow> message_at s (b_index b) = Vacated" "b_index b \<noteq> idx" if "b \<in> set (borrows s)" for b
      using inv that d(3,6) by (auto simp: mq_inv_def borrows_ok_def borrow_ok_def)
    then have "\<forall>b \<in> set (borrows s). borrow_ok cap k s' b"
      unfolding borrow_ok_def at by (auto intro: less_SucI)
    moreover have "borrow_ok cap k s' ?b"
      unfolding borrow_ok_def at using i d(3) by simp
    moreover have "distinct (map b_index (?b # borrows s))"
      using inv old(5) by (auto simp: mq_inv_def borrows_ok_def)
    ultimately show ?thesis
      by (simp add: borrows_ok_def s')
  qed
  moreover have "base_ok cap k s'"
    using inv d at(7) by (simp add: mq_inv_def base_ok_def s' take_Suc_conv_app_nth)
  moreover have "consumer_ok cap k s' (consumer s')"
    by (simp add: s')
  ultimately show ?thesis
    using slots by (simp add: mq_inv_def slots_ok_def)
qed

section \<open>Borrowed messages\<close>

lemma borrow_inv:
  assumes "mq_inv cap k s" "borrows s = xs @ b # ys"
  shows "b_index b < cap" "number s (b_index b) < returned s" "b_stamp b = wpos cap k (number s (b_index b) + cap)"
    "b_vacated b \<longrightarrow> message_at s (b_index b) = Vacated"
    "c \<in> set xs \<union> set ys \<Longrightarrow> b_index c \<noteq> b_index b"
proof -
  show "b_index b < cap" "number s (b_index b) < returned s" "b_stamp b = wpos cap k (number s (b_index b) + cap)"
    "b_vacated b \<longrightarrow> message_at s (b_index b) = Vacated"
    using assms by (auto simp: mq_inv_def borrows_ok_def borrow_ok_def)
  have "distinct (map b_index (xs @ b # ys))"
    using assms by (simp add: mq_inv_def borrows_ok_def)
  then show "c \<in> set xs \<union> set ys \<Longrightarrow> b_index c \<noteq> b_index b"
    by (auto dest: sym intro: rev_image_eqI)
qed

lemma borrow_vacate_inv:
  assumes inv: "mq_inv cap k s" and b: "borrows s = xs @ b # ys"
  shows "mq_inv cap k (borrow_vacate xs b ys s)"
proof -
  let ?s' = "borrow_vacate xs b ys s" and ?i = "b_index b"
  note B = borrow_inv [OF inv b]
  have len: "length (buffer (sys_queue s)) = cap" using mq_inv_cap [OF inv] by simp
  have s': "?s' = (update_slot ?i ((buffer (sys_queue s) ! ?i)\<lparr>slot_message := Vacated\<rparr>) s)
      \<lparr>borrows := xs @ b\<lparr>b_vacated := True\<rparr> # ys\<rparr>"
    using B(1) len by (simp add: borrow_vacate_def slot_at)
  have at: "stamp_at ?s' j = stamp_at s j" "message_at ?s' j = (if j = ?i then Vacated else message_at s j)"
    "is_claimed ?s' = is_claimed s" "number ?s' = number s" "claimed ?s' = claimed s" "producers ?s' = producers s"
    "returned ?s' = returned s" "dequeued ?s' = dequeued s" "consumer ?s' = consumer s" for j
    unfolding s' using B(1) len
    by (simp_all add: is_claimed_def fun_eq_iff returned_def stamp_at_def message_at_def update_slot_def nth_list_update)
  have idx: "b_index ` set (borrows ?s') = b_index ` set (borrows s)"
    unfolding s' b by auto
  have mem: "(\<exists>c \<in> set (borrows ?s'). b_index c = j) \<longleftrightarrow> (\<exists>c \<in> set (borrows s). b_index c = j)" for j
  proof -
    have "(\<exists>c \<in> set zs. b_index c = j) \<longleftrightarrow> j \<in> b_index ` set zs" for zs :: "borrow list"
      by auto
    from this [of "borrows ?s'"] this [of "borrows s"] show ?thesis by (simp only: idx)
  qed
  have slots: "slot_ok cap k ?s' j" if "slot_ok cap k s j" for j
    using that B(2) number_bounds(5) [OF inv B(1)] unfolding slot_ok_def Let_def at mem by auto
  have "producer_ok cap k ?s' x" if "producer_ok cap k s x" for x
    using that
  proof (rule producer_ok_frame)
    fix n assume p: "pending_at cap k s n"
    then have "n mod cap \<noteq> ?i"
      using B(2) by (auto simp: pending_at_def)
    with p show "pending_at cap k ?s' n \<and> message_at ?s' (n mod cap) = message_at s (n mod cap)"
      unfolding pending_at_def at by auto
  qed (simp_all add: at, simp add: s')
  then have "producers_ok cap k ?s'"
    using inv by (simp add: mq_inv_def producers_ok_def at)
  moreover have "consumer_ok cap k ?s' (consumer ?s')"
    unfolding at by (rule consumer_ok_frame [of _ _ s]) (use inv at in \<open>simp_all add: mq_inv_def\<close>)
  moreover have "borrows_ok cap k ?s'"
  proof -
    have "\<forall>c \<in> set (borrows s). borrow_ok cap k ?s' c"
      using inv unfolding mq_inv_def borrows_ok_def borrow_ok_def at by auto
    moreover have "borrow_ok cap k ?s' (b\<lparr>b_vacated := True\<rparr>)"
      using B unfolding borrow_ok_def at by simp
    ultimately show ?thesis
      using inv b unfolding borrows_ok_def mq_inv_def by (auto simp: s')
  qed
  moreover have "base_ok cap k ?s'"
    using inv unfolding mq_inv_def base_ok_def at by (simp add: s')
  ultimately show ?thesis
    using slots inv by (simp add: mq_inv_def slots_ok_def)
qed

lemma borrow_release_inv:
  assumes inv: "mq_inv cap k s" and b: "borrows s = xs @ b # ys" and v: "b_vacated b"
  shows "mq_inv cap k (borrow_release xs b ys s)"
proof -
  let ?s' = "borrow_release xs b ys s" and ?i = "b_index b"
  let ?n = "number s ?i"
  note B = borrow_inv [OF inv b]
  have len: "length (buffer (sys_queue s)) = cap" using mq_inv_cap [OF inv] by simp
  have s': "?s' = (update_slot ?i ((buffer (sys_queue s) ! ?i)\<lparr>slot_stamp := b_stamp b\<rparr>) s)
      \<lparr>borrows := xs @ ys, number := (number s)(?i := ?n + cap)\<rparr>"
    using B(1) len by (simp add: borrow_release_def slot_at)
  have at: "stamp_at ?s' j = (if j = ?i then wpos cap k (?n + cap) else stamp_at s j)"
    "message_at ?s' j = message_at s j" "number ?s' j = (if j = ?i then ?n + cap else number s j)"
    "is_claimed ?s' = is_claimed s" "claimed ?s' = claimed s" "producers ?s' = producers s"
    "returned ?s' = returned s" "dequeued ?s' = dequeued s" "consumer ?s' = consumer s" for j
    unfolding s' using B(1,3) len
    by (simp_all add: is_claimed_def fun_eq_iff returned_def stamp_at_def message_at_def update_slot_def nth_list_update)
  note n = number_bounds [OF inv B(1)]
  have slots: "slot_ok cap k ?s' j" if "slot_ok cap k s j" for j
  proof (cases "j = ?i")
    case True
    with n B v show ?thesis unfolding slot_ok_def Let_def at by simp
  next
    case False
    then have "(\<exists>c \<in> set (borrows ?s'). b_index c = j) \<longleftrightarrow> (\<exists>c \<in> set (borrows s). b_index c = j)"
      unfolding b by (auto simp: s')
    with False that show ?thesis unfolding slot_ok_def Let_def at by simp
  qed
  have "producer_ok cap k ?s' x" if "producer_ok cap k s x" for x
    using that
  proof (rule producer_ok_frame)
    fix m assume p: "pending_at cap k s m"
    then have "m mod cap \<noteq> ?i"
      using B(2) by (auto simp: pending_at_def)
    with p show "pending_at cap k ?s' m \<and> message_at ?s' (m mod cap) = message_at s (m mod cap)"
      unfolding pending_at_def at by auto
  next
    assume "number s (length (claimed s) mod cap) = length (claimed s)"
    then show "number ?s' (length (claimed s) mod cap) = length (claimed s)"
      using B(2) n(5) unfolding at by auto
  qed (simp_all add: at, simp add: s')
  then have "producers_ok cap k ?s'"
    using inv by (simp add: mq_inv_def producers_ok_def at)
  moreover have "consumer_ok cap k ?s' (consumer ?s')"
  proof -
    have "consumer_ok cap k s (consumer s)" using inv by (simp add: mq_inv_def)
    then have "consumer_ok cap k ?s' (consumer s)"
      by (rule consumer_ok_frame) (use B(2) at in \<open>auto simp: returned_def\<close>)
    then show ?thesis unfolding at .
  qed
  moreover have "borrows_ok cap k ?s'"
  proof -
    have "borrow_ok cap k ?s' c" if "c \<in> set xs \<union> set ys" for c
      using B(5) [OF that] inv that b unfolding mq_inv_def borrows_ok_def borrow_ok_def at by auto
    then show ?thesis
      using inv b unfolding borrows_ok_def mq_inv_def by (auto simp: s')
  qed
  moreover have "base_ok cap k ?s'"
    using inv unfolding mq_inv_def base_ok_def at by (simp add: s')
  ultimately show ?thesis
    using slots inv by (simp add: mq_inv_def slots_ok_def)
qed

end
