(* ===== verification/Mpsc_Reach.thy ===== *)
theory Mpsc_Reach
  imports Mpsc_Steps
begin

text \<open>
  The invariant of the queue holds in every reachable state; calls of \<open>push\<close> and \<open>pop\<close> that
  run without interference as functions, and the lemmas about the slots they use.
\<close>

text \<open>A call of \<open>push\<close> and a call of \<open>pop\<close> that are not interleaved with others.\<close>

definition push :: "nat \<Rightarrow> 'm \<Rightarrow> 'm qsys \<Rightarrow> 'm label \<times> 'm qsys" where
  "push i m s = (let s = push_load i m s in
     case producers s i of
       PLoaded m pos \<Rightarrow> (case push_check i m pos s of (l, s) \<Rightarrow>
         (case producers s i of
            PStamp m pos stamp \<Rightarrow> (let s = push_claim False i m pos stamp s in
              case producers s i of
                PWrite m pos stamp \<Rightarrow> (let s = push_write i m pos stamp s in
                  case producers s i of PStore pos stamp \<Rightarrow> (PushOk i, push_store i pos stamp s) | _ \<Rightarrow> (Tau, s))
              | _ \<Rightarrow> (Tau, s))
          | _ \<Rightarrow> (l, s)))
     | _ \<Rightarrow> (Tau, s))"

definition pop :: "'m qsys \<Rightarrow> 'm label \<times> 'm qsys" where
  "pop s = (let s = pop_load s in
     case consumer s of
       CPop pos stamp \<Rightarrow> (let s = pop_store pos stamp s in
         case consumer s of CTake idx stamp \<Rightarrow> pop_take idx stamp s | _ \<Rightarrow> (Tau, s))
     | CCheck pos \<Rightarrow> pop_check pos s
     | _ \<Rightarrow> (Tau, s))"

definition drop_borrow :: "'m qsys \<Rightarrow> 'm qsys" where
  "drop_borrow s = (case borrows s of
     [] \<Rightarrow> s
   | b # bs \<Rightarrow> borrow_release [] (b\<lparr>b_vacated := True\<rparr>) bs (borrow_vacate [] b bs s))"

text \<open>No call is in progress.\<close>

definition quiescent :: "'m qsys \<Rightarrow> bool" where
  "quiescent s \<longleftrightarrow> (\<forall>t. producers s t = PIdle) \<and> consumer s = CIdle \<and> borrows s = []"

text \<open>The messages of the queue.\<close>

definition contents :: "'m qsys \<Rightarrow> 'm list" where
  "contents s = drop (length (popped s)) (claimed s)"

text \<open>The positions stay below \<open>2 ^ 63\<close>.\<close>

definition few_messages :: "nat \<Rightarrow> 'm qsys \<Rightarrow> bool" where
  "few_messages cap s \<longleftrightarrow> (length (claimed s) div cap + 3) * (2 * next_power_of_two cap) < 2 ^ 63"

section \<open>Reachable states\<close>

lemma few_messages_room:
  assumes "few_messages cap s" "0 < cap" "next_power_of_two cap = 2 ^ k" "cap \<le> 2 ^ k"
  shows "mq_room cap k s" "k < 61"
proof -
  let ?q = "length (claimed s) div cap"
  have lt: "(?q + 3) * 2 ^ Suc k < 2 ^ 63"
    using assms(1,3) by (simp add: few_messages_def)
  have "seq_pos cap k (length (claimed s) + 2 * cap) = (?q + 2) * 2 ^ Suc k + length (claimed s) mod cap"
    using assms(2) by (simp add: seq_pos_def div_add1_eq)
  also have "\<dots> < (?q + 2) * 2 ^ Suc k + 2 ^ Suc k"
    using seq_pos_bounds(2) [OF assms(2,4), of "length (claimed s)"] by simp
  also have "\<dots> = (?q + 3) * 2 ^ Suc k"
    by (simp add: algebra_simps)
  finally show "mq_room cap k s"
    unfolding mq_room_def using lt by (rule less_trans)
  have "3 * 2 ^ Suc k \<le> (?q + 3) * 2 ^ Suc k"
    by (intro mult_le_mono1) simp
  with lt have "3 * 2 ^ Suc k < (2 ^ 63 :: nat)" by linarith
  then have "2 ^ (k + 2) < (2 ^ 63 :: nat)"
    by (simp add: power_add)
  then show "k < 61"
    by (simp only: power_strict_increasing_iff)
qed

lemma mq_new_inv:
  assumes "queue_new cap = Some q" "cap \<le> 2 ^ 61" "next_power_of_two cap = 2 ^ k"
  shows "mq_inv cap k (qsys_new q)"
proof -
  from assms(1,2) obtain k' where lay: "layout cap k' q" and k': "next_power_of_two cap = 2 ^ k'"
    and q: "enqueue_pos q = 0" "dequeue_pos q = 0"
    "buffer q = map (\<lambda>i. \<lparr>slot_stamp = of_nat i, slot_message = Vacated\<rparr>) [0 ..< cap]"
    by (rule queue_new_layout)
  have k: "k' = k" using assms(3) k' by simp
  have c0: "0 < cap" using lay by (simp add: layout_def)
  have sp: "wpos cap k i = of_nat i" if "i < cap" for i
    using that by (simp add: wpos_def seq_pos_def)
  have at: "stamp_at (qsys_new q) i = of_nat i" "message_at (qsys_new q) i = Vacated" if "i < cap" for i
    using that by (simp_all add: stamp_at_def message_at_def qsys_new_def q)
  have "slots_ok cap k (qsys_new q)"
    unfolding slots_ok_def slot_ok_def Let_def
    using c0 by (simp add: at) (simp add: sp qsys_new_def returned_def)
  moreover have "base_ok cap k (qsys_new q)"
    using lay sp [OF c0] by (simp add: base_ok_def qsys_new_def q returned_def k)
  ultimately show ?thesis
    by (simp add: mq_inv_def producers_ok_def borrows_ok_def) (simp add: qsys_new_def)
qed

lemma close_inv:
  assumes "mq_inv cap k s"
  shows "mq_inv cap k (s\<lparr>sys_queue := close_queue (sys_queue s)\<rparr>)"
proof -
  let ?s' = "s\<lparr>sys_queue := close_queue (sys_queue s)\<rparr>"
  have at: "stamp_at ?s' = stamp_at s" "message_at ?s' = message_at s" "returned ?s' = returned s"
    "is_claimed ?s' = is_claimed s" "layout cap k (sys_queue ?s') = layout cap k (sys_queue s)"
    by (simp_all add: stamp_at_def message_at_def returned_def is_claimed_def fun_eq_iff close_queue_def layout_def)
  have "consumer_ok cap k ?s' c" if "consumer_ok cap k s c" for c
    using that by (rule consumer_ok_frame) (simp_all add: at)
  moreover have "producer_ok cap k ?s' x" if "producer_ok cap k s x" for x
    using that by (rule producer_ok_frame) (simp_all add: at pending_at_def, simp add: close_queue_def)
  moreover have orr: "(x OR y) OR y = x OR y" for x y :: u64
    by (simp add: or.assoc)
  ultimately have "producers_ok cap k ?s'" "consumer_ok cap k ?s' (consumer ?s')"
    using assms by (auto simp: mq_inv_def producers_ok_def)
  moreover have "base_ok cap k ?s'"
    using assms at(3,5) orr unfolding mq_inv_def base_ok_def by (auto simp: close_queue_def)
  moreover have "slots_ok cap k ?s'" "borrows_ok cap k ?s'"
    using assms by (simp_all add: mq_inv_def slots_ok_def slot_ok_def borrows_ok_def borrow_ok_def at)
  ultimately show ?thesis
    by (simp add: mq_inv_def)
qed

lemma mq_step_claimed:
  assumes "mq_step s l s'"
  shows "length (claimed s) \<le> length (claimed s')"
  using assms
  by cases (auto simp: push_load_def push_check_def push_claim_def push_write_def push_store_def
      pop_load_def pop_store_def pop_take_def pop_check_def borrow_vacate_def borrow_release_def Let_def
      split: if_splits option.splits ordering.splits message_box.splits)

lemma mq_step_inv:
  assumes "mq_step s l s'" "mq_inv cap k s" "mq_room cap k s'"
  shows "mq_inv cap k s'"
proof -
  have lay: "layout cap k (sys_queue s)" using mq_inv_cap [OF assms(2)] by simp
  have room: "mq_room cap k s"
    using assms(3) lay mq_step_claimed [OF assms(1)] by (rule room_mono)
  from assms(1) show ?thesis
  proof cases
    case (claim i m pos stamp weak)
    with push_claim_inv [OF assms(2)] assms(3) show ?thesis by blast
  qed (use assms(2) room push_load_inv [OF assms(2)] in
      \<open>auto intro: push_check_inv push_write_inv push_store_inv pop_load_inv pop_store_inv pop_take_inv pop_check_inv
         borrow_vacate_inv borrow_release_inv close_inv\<close>)
qed

lemma mq_reach_inv:
  assumes "mq_reach cap s" "few_messages cap s"
  obtains k where "mq_inv cap k s" "mq_room cap k s"
proof -
  obtain k where k: "next_power_of_two cap = 2 ^ k" "cap \<le> 2 ^ k"
    using next_power_of_two_spec [of cap 0] by blast
  have c0: "0 < cap"
    using assms(1) by (induction) (auto simp: queue_new_def split: if_splits)
  have room: "mq_room cap k s" "k < 61"
    using few_messages_room [OF assms(2) c0 k] by blast+
  have "cap \<le> 2 ^ 61"
    using k(2) room(2) by (meson le_trans less_imp_le one_le_numeral power_increasing)
  with assms(1) room(1) have "mq_inv cap k s"
  proof (induction rule: mq_reach.induct)
    case (created q)
    then show ?case using mq_new_inv k(1) by blast
  next
    case (stepped s l s')
    have "layout cap k (\<lparr>enqueue_pos = 0, dequeue_pos = 0, buffer = replicate cap undefined,
        right_mask = mask (Suc k), closed_channel_mask = 2 ^ k\<rparr>)"
      using c0 k(2) room(2) by (simp add: layout_def)
    with stepped have "mq_room cap k s"
      using mq_step_claimed room_mono by blast
    with stepped mq_step_inv show ?case by blast
  qed
  with room that show thesis by blast
qed

section \<open>The closed flag\<close>

lemma closed_mono:
  fixes x m :: u64
  shows "x AND m \<noteq> 0 \<Longrightarrow> (x OR m) AND m \<noteq> 0"
  by (metis and.assoc and_zero_eq or.commute word_ao_absorbs(1) bit.conj_disj_distrib2 and.idem or_eq_0_iff)

lemma mq_step_closed:
  assumes "mq_step s l s'"
  shows "closed_channel_mask (sys_queue s') = closed_channel_mask (sys_queue s)"
    and "is_closed (sys_queue s) \<Longrightarrow> is_closed (sys_queue s') \<and> claimed s' = claimed s"
proof -
  show "closed_channel_mask (sys_queue s') = closed_channel_mask (sys_queue s)"
    using assms
    by cases (auto simp: push_load_def push_check_def push_claim_def push_write_def push_store_def
        pop_load_def pop_store_def pop_take_def pop_check_def borrow_vacate_def borrow_release_def Let_def
        close_queue_def split: if_splits option.splits ordering.splits message_box.splits)
  show "is_closed (sys_queue s') \<and> claimed s' = claimed s" if "is_closed (sys_queue s)"
    using assms
  proof cases
    case (claim i m pos stamp weak)
    with that show ?thesis
      by (auto simp: push_claim_def Let_def is_closed_def next_queue_pos_def split: option.splits if_splits)
  qed (use that in \<open>auto simp: push_load_def push_check_def push_write_def push_store_def
        pop_load_def pop_store_def pop_take_def pop_check_def borrow_vacate_def borrow_release_def Let_def
        close_queue_def is_closed_def closed_mono split: if_splits option.splits ordering.splits message_box.splits\<close>)
qed

text \<open>A producer that has loaded a closed position.\<close>

definition closed_seen :: "'m qsys \<Rightarrow> bool" where
  "closed_seen s \<longleftrightarrow> (\<forall>t m pos. producers s t = PLoaded m pos \<and> pos AND closed_channel_mask (sys_queue s) \<noteq> 0
     \<longrightarrow> is_closed (sys_queue s))"

lemma mq_step_loaded:
  assumes "mq_step s l s'" "producers s' t = PLoaded m pos"
  shows "producers s t = PLoaded m pos \<or> pos = enqueue_pos (sys_queue s) \<and> enqueue_pos (sys_queue s') = pos"
  using assms
  by cases (auto simp: push_load_def push_check_def push_claim_def push_write_def push_store_def
      pop_load_def pop_store_def pop_take_def pop_check_def borrow_vacate_def borrow_release_def Let_def
      split: if_splits option.splits ordering.splits message_box.splits)

lemma mq_reach_closed_seen: "mq_reach cap s \<Longrightarrow> closed_seen s"
proof (induction rule: mq_reach.induct)
  case (created q)
  show ?case by (simp add: closed_seen_def qsys_new_def)
next
  case (stepped s l s')
  show ?case
    unfolding closed_seen_def mq_step_closed(1) [OF stepped(2)]
  proof (intro allI impI, elim conjE)
    fix t m pos
    assume "producers s' t = PLoaded m pos" and c: "pos AND closed_channel_mask (sys_queue s) \<noteq> 0"
    with mq_step_loaded [OF stepped(2)]
    consider "producers s t = PLoaded m pos" | "pos = enqueue_pos (sys_queue s)" by blast
    then have "is_closed (sys_queue s)"
      using stepped(3) c by cases (auto simp: closed_seen_def is_closed_def)
    with mq_step_closed(2) [OF stepped(2)] show "is_closed (sys_queue s')" by blast
  qed
qed

section \<open>Calls without interference\<close>

lemma quiescent_returned: "quiescent s \<Longrightarrow> returned s = dequeued s"
  by (simp add: quiescent_def returned_def)

lemma reach_base:
  assumes "mq_inv cap k s"
  shows "popped s = take (returned s) (claimed s)" "returned s \<le> length (claimed s)"
    "length (popped s) = returned s"
proof -
  have "base_ok cap k s" using assms by (simp add: mq_inv_def)
  then show P: "popped s = take (returned s) (claimed s)" and R: "returned s \<le> length (claimed s)"
    by (simp_all add: base_ok_def returned_def returned_le)
  from R show "length (popped s) = returned s" by (simp add: P)
qed

lemma capacity_bound:
  assumes inv: "mq_inv cap k s"
  shows "length (claimed s) \<le> returned s + cap"
proof -
  have c0: "0 < cap" using mq_inv_cap [OF inv] by simp
  let ?i = "returned s mod cap"
  have i: "?i < cap" using c0 by simp
  note n = number_bounds [OF inv i]
  have "number s ?i \<le> returned s"
  proof (rule ccontr)
    assume "\<not> number s ?i \<le> returned s"
    then have lt: "returned s < number s ?i" by simp
    have "cap dvd number s ?i - returned s"
      using n(1) lt mod_eq_dvd_iff_nat [of "returned s" "number s ?i" cap] by simp
    with lt have "returned s + cap \<le> number s ?i"
      using dvd_imp_le [of cap "number s ?i - returned s"] by simp
    with n(3) show False by simp
  qed
  with n(2) show ?thesis by simp
qed

text \<open>The slot of the next position to enqueue.\<close>

lemma enqueue_slot:
  assumes inv: "mq_inv cap k s"
  defines "E \<equiv> length (claimed s)"
  shows "number s (E mod cap) = E \<or> number s (E mod cap) + cap = E"
proof -
  have c0: "0 < cap" using mq_inv_cap [OF inv] by simp
  have i: "E mod cap < cap" using c0 by simp
  note n = number_bounds [OF inv i]
  show ?thesis
  proof (cases "number s (E mod cap) < E")
    case True
    have "cap dvd E - number s (E mod cap)"
      using n(1) True mod_eq_dvd_iff_nat [of "number s (E mod cap)" E cap] by simp
    with True have "number s (E mod cap) + cap \<le> E"
      using dvd_imp_le [of cap "E - number s (E mod cap)"] by simp
    with n(2) show ?thesis by (simp add: E_def)
  next
    case False
    then have le: "E \<le> number s (E mod cap)" by simp
    show ?thesis
    proof (rule ccontr)
      assume "\<not> ?thesis"
      with le have lt: "E < number s (E mod cap)" by simp
      have "cap dvd number s (E mod cap) - E"
        using n(1) lt mod_eq_dvd_iff_nat [of E "number s (E mod cap)" cap] by simp
      with lt have "E + cap \<le> number s (E mod cap)"
        using dvd_imp_le [of cap "number s (E mod cap) - E"] by simp
      with n(4) show False by (simp add: E_def)
    qed
  qed
qed

text \<open>A stamp that is behind the enqueue position.\<close>

lemma stamp_behind:
  assumes inv: "mq_inv cap k s" and room: "mq_room cap k s" and e: "e \<le> length (claimed s)"
  shows "sint (stamp_at s (e mod cap) - wpos cap k e) < 0 \<longleftrightarrow> number s (e mod cap) < e"
proof -
  have lay: "layout cap k (sys_queue s)" and L: "0 < cap" "cap \<le> 2 ^ k"
    using mq_inv_cap [OF inv] by (auto simp: layout_def)
  have i: "e mod cap < cap" using L by simp
  note n = number_bounds [OF inv i]
  let ?n = "number s (e mod cap)"
  have b: "seq_pos cap k ?n < 2 ^ 63" "seq_pos cap k e < 2 ^ 63" "seq_pos cap k (Suc ?n) < 2 ^ 63"
    using wpos_bound [OF room lay] n e by simp_all
  have b': "Suc (seq_pos cap k ?n) < 2 ^ 63"
    using seq_pos_mono [OF L, of ?n "Suc ?n"] b(3) by simp
  have sp: "Suc (seq_pos cap k ?n) < seq_pos cap k e \<longleftrightarrow> ?n < e"
  proof
    assume "Suc (seq_pos cap k ?n) < seq_pos cap k e"
    then have "seq_pos cap k ?n < seq_pos cap k e" by simp
    then show "?n < e" unfolding seq_pos_less [OF L] .
  next
    assume "?n < e"
    from seq_pos_same_slot(2) [OF L n(1) this]
    have "seq_pos cap k ?n + 2 * 2 ^ k \<le> seq_pos cap k e" by simp
    moreover have "(0 :: nat) < 2 ^ k" by simp
    ultimately show "Suc (seq_pos cap k ?n) < seq_pos cap k e" by linarith
  qed
  from inv i show ?thesis
  proof (cases rule: stamp_cases)
    case 1
    then show ?thesis
      using sint_diff [OF b(1,2)] seq_pos_less [OF L, of ?n e] by (simp add: wpos_def)
  next
    case 2
    then have "stamp_at s (e mod cap) - wpos cap k e = of_nat (Suc (seq_pos cap k ?n)) - of_nat (seq_pos cap k e)"
      by (simp add: wpos_def)
    then show ?thesis
      using sint_diff [OF b' b(2)] sp by (simp only:) linarith
  qed
qed

end
