(* ===== verification/Mpsc_Properties.thy ===== *)
theory Mpsc_Properties
  imports Mpsc_Reach
begin

text \<open>
  What holds of the queue for every interleaving of producers and consumer, and the calls of
  \<open>push\<close> and \<open>pop\<close> that run without interference as operations on a bounded list.
\<close>

section \<open>Example queues\<close>

definition small_queue :: "nat qsys" where
  "small_queue = qsys_new (the (queue_new 2))"

definition filled_queue :: "nat qsys" where
  "filled_queue = snd (push 1 20 (snd (push 0 10 small_queue)))"


text \<open>A queue that has been closed and whose consumer has seen no message.\<close>

definition closed_queue :: "nat qsys" where
  "closed_queue = pop_load (small_queue\<lparr>sys_queue := close_queue (sys_queue small_queue)\<rparr>)"

lemma next_power_of_two_2: "next_power_of_two 2 = 2"
  by (simp add: next_power_of_two_def pow2_from.simps)

lemma small_queue_eq:
  "small_queue = qsys_new \<lparr>enqueue_pos = 0, dequeue_pos = 0,
     buffer = [\<lparr>slot_stamp = 0, slot_message = Vacated\<rparr>, \<lparr>slot_stamp = 1, slot_message = Vacated\<rparr>],
     right_mask = 3, closed_channel_mask = 2\<rparr>"
  by (simp add: small_queue_def queue_new_def next_power_of_two_2 upt_rec push_bit_eq_mult)

lemmas queue_ops = push_load_def push_check_def push_claim_def push_write_def push_store_def
  pop_load_def pop_store_def pop_take_def pop_check_def update_producer_def update_slot_def slot_index_def
  next_queue_pos_def vec_get_def cmp_def Let_def

lemma filled_queue_eq:
  "sys_queue filled_queue = \<lparr>enqueue_pos = 4, dequeue_pos = 0,
     buffer = [\<lparr>slot_stamp = 1, slot_message = Populated 10\<rparr>, \<lparr>slot_stamp = 2, slot_message = Populated 20\<rparr>],
     right_mask = 3, closed_channel_mask = 2\<rparr>"
  "claimed filled_queue = [10, 20]"
  by (simp_all add: filled_queue_def small_queue_eq push_def queue_ops qsys_new_def)

section \<open>Calls without interference are runs\<close>

lemma push_reach:
  assumes "mq_reach cap s" "producers s i = PIdle"
  shows "mq_reach cap (snd (push i m s))"
proof -
  let ?s1 = "push_load i m s" and ?pos = "enqueue_pos (sys_queue s)"
  have 1: "mq_reach cap ?s1" "producers ?s1 i = PLoaded m ?pos"
    using mq_reach.stepped [OF assms(1) mq_step.push [OF assms(2)]] by (simp_all add: push_load_def)
  obtain l s2 where 2: "push_check i m ?pos ?s1 = (l, s2)" by fastforce
  have r2: "mq_reach cap s2"
    using mq_reach.stepped [OF 1(1) mq_step.check [OF 1(2) 2]] .
  show ?thesis
    using r2 unfolding push_def Let_def
    by (auto simp: 1(2) 2 split: producer.splits
        intro: mq_reach.stepped [OF _ mq_step.store] mq_reach.stepped [OF _ mq_step.put]
          mq_reach.stepped [OF _ mq_step.claim])
qed

lemma pop_reach:
  assumes "mq_reach cap s" "consumer s = CIdle" "borrows s = []"
  shows "mq_reach cap (snd (pop s))"
proof -
  have 1: "mq_reach cap (pop_load s)"
    using assms by (auto intro: mq_reach.stepped mq_step.pop)
  show ?thesis
  proof (cases "consumer (pop_load s)")
    case (CPop pos stamp)
    from mq_reach.stepped [OF 1 mq_step.pop_store [OF this]]
    have 2: "mq_reach cap (pop_store pos stamp (pop_load s))" .
    show ?thesis
    proof (cases "consumer (pop_store pos stamp (pop_load s))")
      case (CTake idx st)
      obtain l s3 where 3: "pop_take idx st (pop_store pos stamp (pop_load s)) = (l, s3)" by fastforce
      from mq_reach.stepped [OF 2 mq_step.pop_take [OF CTake 3]] 3 CPop CTake show ?thesis
        by (simp add: pop_def)
    qed (use 2 CPop in \<open>simp_all add: pop_def\<close>)
  next
    case (CCheck pos)
    obtain l s2 where 2: "pop_check pos (pop_load s) = (l, s2)" by fastforce
    from mq_reach.stepped [OF 1 mq_step.pop_check [OF CCheck 2]] 2 CCheck show ?thesis
      by (simp add: pop_def)
  qed (use 1 in \<open>simp_all add: pop_def\<close>)
qed

lemma small_queue_reach: "mq_reach 2 small_queue"
  unfolding small_queue_def by (rule mq_reach.created) (simp add: queue_new_def Let_def)

lemma filled_queue_reach: "mq_reach 2 filled_queue"
  unfolding filled_queue_def
  by (intro push_reach small_queue_reach) (simp_all add: small_queue_eq push_def queue_ops qsys_new_def)

lemma example_few: "few_messages 2 small_queue" "few_messages 2 filled_queue"
  by (simp_all add: few_messages_def next_power_of_two_2 filled_queue_eq) (simp add: small_queue_eq qsys_new_def)

section \<open>Properties\<close>

text \<open>
  C24. The queue does not panic: in every interleaving of any number of producers, the consumer and calls
  of \<open>close\<close>, no \<open>unreachable!\<close> is reached, no index is out of range, no assertion fails and no position
  overflows, as long as the positions stay below \<open>2 ^ 63\<close>.
\<close>
theorem mpsc_no_panic:
  assumes "mq_reach cap s" "few_messages cap s"
  shows "\<not> fault s"
proof -
  obtain k where "mq_inv cap k s" "mq_room cap k s"
    by (rule mq_reach_inv [OF assms])
  then show ?thesis by (simp add: mq_inv_def base_ok_def)
qed

theorem mpsc_no_panic_witness: "mq_reach 2 filled_queue \<and> \<not> fault filled_queue"
  using mpsc_no_panic [OF filled_queue_reach example_few(2)] filled_queue_reach by blast

text \<open>
  C25. The queue is first-in first-out and bounded: the messages popped are, in order, the first of the
  messages whose position was claimed, each exactly once, and at most \<open>capacity\<close> messages are claimed
  and not popped.
\<close>
theorem mpsc_fifo:
  assumes "mq_reach cap s" "few_messages cap s"
  shows "popped s = take (length (popped s)) (claimed s) \<and> length (claimed s) \<le> length (popped s) + cap"
proof -
  obtain k where inv: "mq_inv cap k s" "mq_room cap k s"
    by (rule mq_reach_inv [OF assms])
  from reach_base [OF inv(1)] capacity_bound [OF inv(1)] show ?thesis by simp
qed

theorem mpsc_fifo_witness:
  "popped (snd (pop filled_queue)) = take 1 [10, 20]
   \<and> popped (snd (pop filled_queue)) = take (length (popped (snd (pop filled_queue)))) (claimed (snd (pop filled_queue)))"
proof -
  have s: "consumer filled_queue = CIdle" "borrows filled_queue = []" "popped (snd (pop filled_queue)) = [10]"
    "claimed (snd (pop filled_queue)) = [10, 20]"
    by (simp_all add: filled_queue_def small_queue_eq push_def pop_def queue_ops qsys_new_def)
  have "few_messages 2 (snd (pop filled_queue))"
    using s(4) by (simp add: few_messages_def next_power_of_two_2)
  from mpsc_fifo [OF pop_reach [OF filled_queue_reach s(1,2)] this] s(3,4) show ?thesis by simp
qed



text \<open>
  C27. When the consumer is told that the queue is closed, it has popped every message whose position was
  ever claimed, and no message is added from then on, whatever the producers do.
\<close>
theorem mpsc_pop_closed:
  assumes "mq_reach cap s" "few_messages cap s" "mq_step s PopClosed s'"
    and "(\<lambda>a b. \<exists>l. mq_step a l b)\<^sup>*\<^sup>* s' s''"
  shows "is_closed (sys_queue s'') \<and> popped s' = claimed s \<and> claimed s'' = claimed s"
proof -
  obtain k where inv: "mq_inv cap k s" and room: "mq_room cap k s"
    by (rule mq_reach_inv [OF assms(1,2)])
  have lay: "layout cap k (sys_queue s)"
    using mq_inv_cap [OF inv] by auto
  from assms(3) obtain pos where pc: "consumer s = CCheck pos" and s': "s' = s\<lparr>consumer := CIdle\<rparr>"
    and enq: "enqueue_pos (sys_queue s) = (pos OR closed_channel_mask (sys_queue s))"
    by cases (auto simp: push_check_def pop_take_def pop_check_def Let_def
        split: if_splits option.splits ordering.splits message_box.splits)
  have "consumer_ok cap k s (CCheck pos)" "base_ok cap k s"
    using inv pc by (simp_all add: mq_inv_def)
  then have pos: "pos = wpos cap k (dequeued s)" and D: "dequeued s \<le> length (claimed s)"
    and e: "enqueue_pos (sys_queue s) = wpos cap k (length (claimed s))
      \<or> enqueue_pos (sys_queue s) = wpos cap k (length (claimed s)) OR closed_channel_mask (sys_queue s)"
    by (auto simp: base_ok_def)
  have "wpos cap k (length (claimed s)) OR closed_channel_mask (sys_queue s)
      = wpos cap k (dequeued s) OR closed_channel_mask (sys_queue s)"
    using e enq pos wpos_not_closed [OF lay] by metis
  then have "wpos cap k (length (claimed s)) = wpos cap k (dequeued s)"
    unfolding wpos_def flag_of_pos(3) [OF lay] by simp
  then have "dequeued s = length (claimed s)"
    using wpos_eq [OF room lay] D by simp
  with reach_base(1) [OF inv] pc have pop: "popped s' = claimed s"
    by (simp add: returned_def s')
  have cl: "is_closed (sys_queue s')"
    using enq wpos_closed [OF lay] by (simp add: is_closed_def s' pos)
  have "is_closed (sys_queue s'') \<and> claimed s'' = claimed s'"
    using assms(4) cl by (induction rule: rtranclp_induct) (auto dest: mq_step_closed(2))
  with pop show ?thesis by (simp add: s')
qed

lemma closed_queue_reach: "mq_reach 2 closed_queue"
proof -
  have "mq_reach 2 (small_queue\<lparr>sys_queue := close_queue (sys_queue small_queue)\<rparr>)"
    by (rule mq_reach.stepped [OF small_queue_reach mq_step.close])
  then show ?thesis
    unfolding closed_queue_def by (rule mq_reach.stepped [OF _ mq_step.pop]) (simp_all add: small_queue_eq qsys_new_def)
qed

theorem mpsc_pop_closed_witness:
  "mq_step closed_queue PopClosed (closed_queue\<lparr>consumer := CIdle\<rparr>)
   \<and> popped (closed_queue\<lparr>consumer := CIdle\<rparr>) = claimed closed_queue"
proof -
  have few: "few_messages 2 closed_queue"
    by (simp add: few_messages_def next_power_of_two_2 closed_queue_def small_queue_eq qsys_new_def queue_ops close_queue_def)
  have "consumer closed_queue = CCheck 0"
    by (simp add: closed_queue_def small_queue_eq qsys_new_def queue_ops close_queue_def)
  moreover have "pop_check 0 closed_queue = (PopClosed, closed_queue\<lparr>consumer := CIdle\<rparr>)"
    by (simp add: closed_queue_def small_queue_eq qsys_new_def queue_ops close_queue_def)
  ultimately have st: "mq_step closed_queue PopClosed (closed_queue\<lparr>consumer := CIdle\<rparr>)"
    by (rule mq_step.pop_check)
  from mpsc_pop_closed [OF closed_queue_reach few this rtranclp.rtrancl_refl] st show ?thesis by blast
qed



end
