(* ===== verification/Bit_Search.thy ===== *)
theory Bit_Search
  imports Nexo_Prelude
begin

text \<open>
  The search for the \<open>N\<close>-th set bit of a word (\<open>util/bit.rs\<close>): a tree of adders computes
  the bit counts of groups of 2, 4, ... 64 adjacent bits in place, and a branchless binary
  search over these counts finds the bit.  The routine is shown to agree with its definition
  on the list of the set bits, for every value and every rank below \<open>2 ^ 63\<close>.

  The words are read as the numbers \<open>pack w xs\<close> of their fields \<open>xs\<close> of width \<open>w\<close>.
\<close>

unbundle bit_operations_syntax

section \<open>Definitions\<close>

text \<open>The masks \<open>M[p]\<close>, for \<open>P = 6\<close>.\<close>

definition sum_masks :: "u64 list" where
  "sum_masks = map (\<lambda>p. NOT 0 div (1 + push_bit (2 ^ p) 1)) [0 ..< 6]"

text \<open>The array \<open>sum\<close>: its first three entries, and the loop that computes the others.\<close>

definition sum_step :: "u64 list \<Rightarrow> nat \<Rightarrow> u64 list" where
  "sum_step sums p = sums @ [(sums ! p + drop_bit (2 ^ p) (sums ! p)) AND sum_masks ! p]"

definition partial_sums :: "u64 \<Rightarrow> u64 list" where
  "partial_sums value =
     (let sum1 = value - (drop_bit 1 value AND sum_masks ! 0);
          sum2 = (sum1 AND sum_masks ! 1) + (drop_bit 2 sum1 AND sum_masks ! 1)
      in foldl sum_step [value, sum1, sum2] [2 ..< 6])"

text \<open>One turn of the binary search, on the pair of \<open>rank\<close> and \<open>shift\<close>.\<close>

definition search_step :: "u64 list \<Rightarrow> nat \<Rightarrow> u64 \<times> u64 \<Rightarrow> u64 \<times> u64" where
  "search_step sums p = (\<lambda>(rank, shift).
     (let sub_mask = push_bit (2 ^ p) 1 - 1;
          lower_sum = drop_bit (unat shift) (sums ! p) AND sub_mask;
          cmp_mask = signed_drop_bit 63 (lower_sum - rank)
      in (rank - (lower_sum AND cmp_mask), shift + (push_bit p 1 AND cmp_mask))))"

definition find_bit :: "u64 \<Rightarrow> (u64 \<Rightarrow> u64) \<Rightarrow> u64" where
  "find_bit value rank_fn =
     (let sums = partial_sums value; rank = rank_fn (sums ! 6)
      in snd (foldl (\<lambda>acc p. search_step sums p acc) (rank, 0) (rev [0 ..< 6])))"

text \<open>What is to be found.\<close>

definition set_bits_of :: "u64 \<Rightarrow> nat list" where
  "set_bits_of v = filter (bit v) [0 ..< 64]"

definition ranked_bit :: "u64 \<Rightarrow> nat \<Rightarrow> nat" where
  "ranked_bit v rank =
     (if rank = 0 then 0
      else if rank \<le> length (set_bits_of v) then set_bits_of v ! (rank - 1)
      else 63)"

section \<open>Fields\<close>

primrec pack :: "nat \<Rightarrow> nat list \<Rightarrow> nat" where
  "pack w [] = 0"
| "pack w (x # xs) = x + 2 ^ w * pack w xs"

fun pairs :: "nat list \<Rightarrow> nat list" where
  "pairs (x # y # zs) = (x + y) # pairs zs"
| "pairs zs = zs"

fun evens :: "nat list \<Rightarrow> nat list" where
  "evens (x # y # zs) = x # evens zs"
| "evens zs = zs"

fun adjacent :: "nat list \<Rightarrow> nat list" where
  "adjacent (x # y # zs) = (x + y) # adjacent (y # zs)"
| "adjacent zs = zs"

definition lows :: "nat \<Rightarrow> nat \<Rightarrow> nat list" where
  "lows w n = concat (replicate n [2 ^ w - 1, 0])"

lemma lows_simps [simp]: "lows w 0 = []" "lows w (Suc n) = (2 ^ w - 1) # 0 # lows w n"
  by (simp_all add: lows_def)

lemma and_split:
  fixes a b x y :: nat
  assumes "a < 2 ^ w" "x < 2 ^ w"
  shows "(a + 2 ^ w * b) AND (x + 2 ^ w * y) = (a AND x) + 2 ^ w * (b AND y)"
proof -
  have t: "take_bit w (a + 2 ^ w * b) = a" "drop_bit w (a + 2 ^ w * b) = b" if "a < 2 ^ w" for a b :: nat
    using that by (simp_all add: take_bit_eq_mod drop_bit_eq_div)
  have "a AND x < 2 ^ w"
    using assms(1) by (metis take_bit_and take_bit_nat_eq_self_iff take_bit_nat_less_exp assms(2))
  then have "take_bit w ((a AND x) + 2 ^ w * (b AND y)) = a AND x"
    "drop_bit w ((a AND x) + 2 ^ w * (b AND y)) = b AND y"
    using t by blast+
  moreover have "take_bit w ((a + 2 ^ w * b) AND (x + 2 ^ w * y)) = a AND x"
    "drop_bit w ((a + 2 ^ w * b) AND (x + 2 ^ w * y)) = b AND y"
    using t assms by (simp_all only: take_bit_and drop_bit_and)
  ultimately show ?thesis
    by (metis bits_ident)
qed

lemma pack_less: "\<forall>x \<in> set xs. x < 2 ^ w \<Longrightarrow> pack w xs < 2 ^ (w * length xs)"
proof (induction xs)
  case (Cons x xs)
  then have "x + 2 ^ w * pack w xs < 2 ^ w + 2 ^ w * pack w xs" by simp
  also have "\<dots> = 2 ^ w * Suc (pack w xs)" by simp
  also have "\<dots> \<le> 2 ^ w * 2 ^ (w * length xs)"
    using Cons by (intro mult_le_mono2) simp
  finally show ?case by (simp add: power_add)
qed simp

lemma drop_bit_pack:
  "\<forall>x \<in> set xs. x < 2 ^ w \<Longrightarrow> drop_bit (w * i) (pack w xs) = pack w (drop i xs)"
proof (induction i arbitrary: xs)
  case (Suc i)
  have "drop_bit w (pack w xs) = pack w (tl xs)"
    using Suc.prems by (cases xs) (simp_all add: drop_bit_eq_div)
  moreover have "\<forall>x \<in> set (tl xs). x < 2 ^ w"
    using Suc.prems by (cases xs) simp_all
  moreover have "drop_bit (w * Suc i) (pack w xs) = drop_bit (w * i) (drop_bit w (pack w xs))"
    by (simp add: drop_bit_drop_bit add.commute)
  ultimately show ?case
    using Suc.IH [of "tl xs"] by (simp only: drop_Suc)
qed simp

lemma pack_field:
  assumes "\<forall>x \<in> set xs. x < 2 ^ w" "i < length xs"
  shows "take_bit w (drop_bit (w * i) (pack w xs)) = xs ! i"
  unfolding drop_bit_pack [OF assms(1)] using assms
  by (cases "drop i xs") (auto simp: take_bit_eq_mod Cons_nth_drop_Suc [symmetric])

lemma pack_lows:
  "\<forall>x \<in> set xs. x < 2 ^ w \<Longrightarrow> length xs = 2 * n \<Longrightarrow> pack w xs AND pack w (lows w n) = pack (2 * w) (evens xs)"
proof (induction xs arbitrary: n rule: evens.induct)
  case (1 x y zs)
  then obtain m where n: "n = Suc m" by (cases n) auto
  have b: "x < 2 ^ w" "y < 2 ^ w" using 1 by auto
  have low: "x AND (2 ^ w - 1) = x"
    using b by (metis mask_eq_exp_minus_1 take_bit_eq_mask take_bit_nat_eq_self_iff)
  have "pack w (x # y # zs) AND pack w (lows w n)
      = (x + 2 ^ w * (y + 2 ^ w * pack w zs)) AND ((2 ^ w - 1) + 2 ^ w * (0 + 2 ^ w * pack w (lows w m)))"
    by (simp add: n)
  also have "\<dots> = (x AND (2 ^ w - 1)) + 2 ^ w * ((y AND 0) + 2 ^ w * (pack w zs AND pack w (lows w m)))"
    using and_split [OF b(1), of "2 ^ w - 1"] and_split [OF b(2), of 0] by simp
  also have "\<dots> = x + 2 ^ w * (2 ^ w * pack (2 * w) (evens zs))"
    using 1 n low by simp
  finally show ?case by (simp add: mult_2 power_add)
qed auto

lemma pack_adjacent: "pack w xs + pack w (tl xs) = pack w (adjacent xs)"
proof (induction xs rule: adjacent.induct)
  case (1 x y zs)
  have "pack w (adjacent (x # y # zs)) = x + y + 2 ^ w * (pack w (y # zs) + pack w zs)"
    using 1 by simp
  then show ?case by (simp add: algebra_simps)
qed simp_all

lemma evens_adjacent: "evens (adjacent xs) = pairs xs"
proof (induction xs rule: pairs.induct)
  case (1 x y zs)
  then show ?case by (cases zs) simp_all
qed simp_all

lemma length_adjacent [simp]: "length (adjacent xs) = length xs"
  by (induction xs rule: adjacent.induct) simp_all

lemma adjacent_le:
  "\<forall>x \<in> set xs. x \<le> k \<Longrightarrow> \<forall>x \<in> set (adjacent xs). x \<le> 2 * k"
  by (induction xs rule: adjacent.induct) auto

lemma pack_snoc_0: "pack w (xs @ [0]) = pack w xs"
  by (induction xs) simp_all

lemma pack_odds_2:
  "even (length xs) \<Longrightarrow> pack w (evens xs) + pack w (evens (tl xs @ [0])) = pack w (pairs xs)"
proof (induction xs rule: pairs.induct)
  case (1 x y zs)
  have "evens (tl (x # y # zs) @ [0]) = y # (if zs = [] then [] else evens (tl zs @ [0]))"
    by (cases zs) simp_all
  moreover have "pack w (pairs (x # y # zs)) = x + y + 2 ^ w * (pack w (evens zs) + pack w (evens (tl zs @ [0])))"
    using 1 by simp
  ultimately show ?case
    by (simp add: algebra_simps)
qed auto

lemma pack_pairs_1:
  "even (length xs) \<Longrightarrow> pack 1 xs = pack 2 (pairs xs) + pack 2 (evens (tl xs @ [0]))"
proof (induction xs rule: pairs.induct)
  case (1 x y zs)
  have "evens (tl (x # y # zs) @ [0]) = y # (if zs = [] then [] else evens (tl zs @ [0]))"
    by (cases zs) simp_all
  moreover have "pack 1 (x # y # zs) = x + 2 * y + 4 * (pack 2 (pairs zs) + pack 2 (evens (tl zs @ [0])))"
    using 1 by simp
  ultimately show ?case
    by (simp add: algebra_simps)
qed auto

section \<open>The tree of adders\<close>

text \<open>The counts of the groups of \<open>2 ^ p\<close> bits.\<close>

definition bits_of :: "u64 \<Rightarrow> nat list" where
  "bits_of v = map (\<lambda>i. of_bool (bit v i)) [0 ..< 64]"

definition counts :: "u64 \<Rightarrow> nat \<Rightarrow> nat list" where
  "counts v p = (pairs ^^ p) (bits_of v)"

definition ones :: "u64 \<Rightarrow> nat \<Rightarrow> nat \<Rightarrow> nat" where
  "ones v a b = length (filter (bit v) [a ..< b])"

lemma ones_add: "a \<le> b \<Longrightarrow> b \<le> c \<Longrightarrow> ones v a b + ones v b c = ones v a c"
  unfolding ones_def by (metis filter_append le_iff_add length_append upt_add_eq_append)

lemma ones_le: "ones v a b \<le> b - a"
  unfolding ones_def by (metis length_filter_le length_upt)

lemma length_pairs: "even (length xs) \<Longrightarrow> length (pairs xs) = length xs div 2"
  by (induction xs rule: pairs.induct) auto

lemma nth_pairs: "2 * i + 1 < length xs \<Longrightarrow> pairs xs ! i = xs ! (2 * i) + xs ! (2 * i + 1)"
proof (induction xs arbitrary: i rule: pairs.induct)
  case (1 x y zs)
  then show ?case by (cases i) simp_all
qed simp_all

lemma counts_Suc: "counts v (Suc p) = pairs (counts v p)"
  by (simp add: counts_def)

lemma counts_spec:
  "p \<le> 6 \<Longrightarrow> length (counts v p) = 2 ^ (6 - p)
    \<and> (\<forall>i < 2 ^ (6 - p). counts v p ! i = ones v (i * 2 ^ p) (i * 2 ^ p + 2 ^ p))"
proof (induction p)
  case 0
  show ?case by (simp add: counts_def bits_of_def ones_def)
next
  case (Suc p)
  then have len: "length (counts v p) = 2 * 2 ^ (6 - Suc p)"
    by (simp add: Suc_diff_Suc flip: power_Suc)
  have "counts v (Suc p) ! i = ones v (i * 2 ^ Suc p) (i * 2 ^ Suc p + 2 ^ Suc p)" if "i < 2 ^ (6 - Suc p)" for i
  proof -
    have lt: "2 * i < 2 ^ (6 - p)" "2 * i + 1 < 2 ^ (6 - p)"
      using that Suc len by simp_all
    then have "counts v p ! (2 * i) = ones v (i * 2 ^ Suc p) (i * 2 ^ Suc p + 2 ^ p)"
      "counts v p ! (2 * i + 1) = ones v (i * 2 ^ Suc p + 2 ^ p) (i * 2 ^ Suc p + 2 ^ Suc p)"
      using Suc by (simp_all add: algebra_simps)
    moreover have "2 * i + 1 < length (counts v p)" using that len by simp
    ultimately show ?thesis
      by (simp add: counts_Suc nth_pairs ones_add)
  qed
  with len show ?case by (simp add: counts_Suc length_pairs)
qed

lemma counts_le:
  assumes "p \<le> 6" "x \<in> set (counts v p)"
  shows "x \<le> 2 ^ p"
  using assms counts_spec [OF assms(1), of v] ones_le
  by (auto simp: in_set_conv_nth) (metis add_diff_cancel_left')

lemma pack_bits: "pack 1 (map (\<lambda>i. of_bool (bit n i)) [0 ..< k]) = take_bit k (n :: nat)"
proof (induction k arbitrary: n)
  case (Suc k)
  have "map (\<lambda>i. of_bool (bit n i)) [0 ..< Suc k] = (of_bool (odd n) :: nat) # map (\<lambda>i. of_bool (bit (n div 2) i)) [0 ..< k]"
    by (simp add: upt_conv_Cons map_Suc_upt [symmetric] bit_Suc bit_0 comp_def del: upt_Suc)
  then have "pack 1 (map (\<lambda>i. of_bool (bit n i)) [0 ..< Suc k]) = of_bool (odd n) + 2 * take_bit k (n div 2)"
    by (simp only: pack.simps Suc.IH) simp
  then show ?case by (simp only: take_bit_Suc mod_2_eq_odd)
qed simp

lemma pack_counts_0: "pack 1 (counts v 0) = unat v"
proof -
  have "counts v 0 = map (\<lambda>i. of_bool (bit (unat v) i)) [0 ..< 64]"
    by (simp add: counts_def bits_of_def bit_unsigned_iff)
  then show ?thesis by (simp only: pack_bits) (use unsigned_less [of v, where ?'a = nat] in \<open>simp add: take_bit_nat_eq_self_iff\<close>)
qed

lemma sum_masks_eq:
  "sum_masks = [0x5555555555555555, 0x3333333333333333, 0x0F0F0F0F0F0F0F0F,
     0x00FF00FF00FF00FF, 0x0000FFFF0000FFFF, 0x00000000FFFFFFFF]"
  by (simp add: sum_masks_def upt_rec)

lemma pack_lows_value: "(2 ^ w + 1) * pack w (lows w n) + 1 = 2 ^ (2 * w * n)"
proof (induction n)
  case (Suc n)
  have sq: "(2 :: nat) ^ (2 * w) = 2 ^ w * 2 ^ w"
    by (simp add: mult_2 power_add)
  obtain m where m: "(2 :: nat) ^ w = Suc m"
    by (metis gr0_implies_Suc zero_less_numeral zero_less_power)
  have "(2 ^ w + 1) * pack w (lows w (Suc n)) + 1 = 2 ^ (2 * w) * ((2 ^ w + 1) * pack w (lows w n) + 1)"
    unfolding lows_simps pack.simps sq m by (simp add: algebra_simps)
  also have "\<dots> = 2 ^ (2 * w * Suc n)"
    unfolding Suc by (simp flip: power_add)
  finally show ?case .
qed simp

lemma sum_masks_fields:
  assumes "p < 6"
  shows "unat (sum_masks ! p) = pack (2 ^ p) (lows (2 ^ p) (2 ^ (5 - p)))"
proof -
  have "(2 ^ 2 ^ p + 1) * unat (sum_masks ! p) + 1 = (2 :: nat) ^ 64"
  proof -
    from assms consider "p = 0" | "p = 1" | "p = 2" | "p = 3" | "p = 4" | "p = 5" by linarith
    then show ?thesis by cases (simp_all add: sum_masks_eq)
  qed
  moreover have "2 * 2 ^ p * 2 ^ (5 - p) = (64 :: nat)"
    using assms by (simp flip: power_add power_Suc)
  ultimately have "(2 ^ 2 ^ p + 1) * unat (sum_masks ! p) = (2 ^ 2 ^ p + 1) * pack (2 ^ p) (lows (2 ^ p) (2 ^ (5 - p)))"
    using pack_lows_value [of "2 ^ p" "2 ^ (5 - p)"] by (metis add_right_cancel)
  then show ?thesis by (simp only: mult_cancel1) simp
qed

text \<open>The counts fit into their fields.\<close>

lemma counts_fit:
  assumes "p \<le> 6"
  shows "\<forall>x \<in> set (counts v p). x < 2 ^ 2 ^ p"
proof
  fix x assume "x \<in> set (counts v p)"
  with counts_le [OF assms] have "x \<le> 2 ^ p" by blast
  also have "(2 :: nat) ^ p < 2 ^ 2 ^ p" by (intro power_strict_increasing) simp_all
  finally show "x < 2 ^ 2 ^ p" .
qed

lemma pack_counts_less: "p \<le> 6 \<Longrightarrow> pack (2 ^ p) (counts v p) < 2 ^ 64"
  using pack_less [OF counts_fit, of p v] counts_spec [of p v] by (simp flip: power_add)

lemma unat_and: "unat (a AND b) = (unat a AND unat b)" for a b :: u64
  by (rule unsigned_and_eq)

lemma unat_drop_bit: "unat (drop_bit n a) = drop_bit n (unat a)" for a :: u64
  by (simp add: unat_drop_bit_eq)

lemma unat_add_small: "unat a + unat b < 2 ^ 64 \<Longrightarrow> unat (a + b) = unat a + unat b" for a b :: u64
  using unat_add_lem [of a b] by simp

lemma tl_fit: "\<forall>x \<in> set xs. x < k \<Longrightarrow> \<forall>x \<in> set (tl xs). x < (k :: nat)"
  by (cases xs) auto

text \<open>The array holds the counts.\<close>

definition sums_ok :: "u64 \<Rightarrow> u64 list \<Rightarrow> bool" where
  "sums_ok v sums \<longleftrightarrow> (\<forall>p < length sums. unat (sums ! p) = pack (2 ^ p) (counts v p))"

lemma odd_fields:
  assumes "p < 6" "unat a = pack (2 ^ p) (counts v p)"
  shows "unat (drop_bit (2 ^ p) a AND sum_masks ! p) = pack (2 ^ Suc p) (evens (tl (counts v p) @ [0]))"
proof -
  let ?xs = "tl (counts v p) @ [0]"
  have fit: "\<forall>x \<in> set (counts v p). x < 2 ^ 2 ^ p" using assms(1) by (intro counts_fit) simp
  have len: "length (counts v p) = 2 * 2 ^ (5 - p)"
    using counts_spec [of p v] assms(1) by (simp flip: power_Suc add: Suc_diff_Suc)
  have "drop_bit (2 ^ p) (pack (2 ^ p) (counts v p)) = pack (2 ^ p) ?xs"
    using drop_bit_pack [OF fit, of 1] by (simp add: pack_snoc_0 drop_Suc)
  moreover have "\<forall>x \<in> set ?xs. x < 2 ^ 2 ^ p"
    using tl_fit [OF fit] by simp
  moreover have "length ?xs = 2 * 2 ^ (5 - p)" using len by simp
  ultimately show ?thesis
    using pack_lows [of ?xs "2 ^ p" "2 ^ (5 - p)"]
    by (simp add: unat_and unat_drop_bit assms(2) sum_masks_fields [OF assms(1)])
qed

lemma even_fields:
  assumes "p < 6" "unat a = pack (2 ^ p) xs" "\<forall>x \<in> set xs. x < 2 ^ 2 ^ p" "length xs = 2 * 2 ^ (5 - p)"
  shows "unat (a AND sum_masks ! p) = pack (2 ^ Suc p) (evens xs)"
  using pack_lows [OF assms(3,4)] by (simp add: unat_and assms(2) sum_masks_fields [OF assms(1)])

lemma length_counts: "p < 6 \<Longrightarrow> length (counts v p) = 2 * 2 ^ (5 - p)"
  using counts_spec [of p v] by (simp flip: power_Suc add: Suc_diff_Suc)

lemma sum_step_ok:
  assumes "sums_ok v sums" "length sums = Suc p" "2 \<le> p" "p < 6"
  shows "sums_ok v (sum_step sums p)" "length (sum_step sums p) = Suc (Suc p)"
proof -
  let ?a = "sums ! p" and ?xs = "counts v p" and ?w = "2 ^ p :: nat"
  have a: "unat ?a = pack ?w ?xs" using assms(1,2) by (simp add: sums_ok_def)
  have fit: "\<forall>x \<in> set ?xs. x < 2 ^ ?w" using assms(4) by (intro counts_fit) simp
  have le: "\<forall>x \<in> set ?xs. x \<le> ?w" using counts_le assms(4) by simp
  have "p + 1 < ?w"
  proof -
    from assms(3,4) consider "p = 2" | "p = 3" | "p = 4" | "p = 5" by linarith
    then show ?thesis by cases simp_all
  qed
  then have "(2 :: nat) ^ (p + 1) < 2 ^ ?w" by (intro power_strict_increasing) simp_all
  then have adj: "\<forall>x \<in> set (adjacent ?xs). x < 2 ^ ?w"
    using adjacent_le [OF le] by fastforce
  have d: "unat (drop_bit ?w ?a) = pack ?w (tl ?xs)"
    using drop_bit_pack [OF fit, of 1] by (simp add: unat_drop_bit a drop_Suc)
  have "?w * length ?xs = 64"
    using length_counts [OF assms(4), of v] assms(4) by (simp flip: power_add power_Suc)
  with pack_less [OF adj] have "pack ?w (adjacent ?xs) < 2 ^ 64" by simp
  then have "unat (?a + drop_bit ?w ?a) = pack ?w (adjacent ?xs)"
    unfolding pack_adjacent [symmetric] using unat_add_small [of ?a "drop_bit ?w ?a"] a d by simp
  from even_fields [OF assms(4) this adj] length_counts [OF assms(4)]
  have "unat ((?a + drop_bit ?w ?a) AND sum_masks ! p) = pack (2 ^ Suc p) (counts v (Suc p))"
    by (simp only: evens_adjacent counts_Suc length_adjacent)
  with assms(1,2) show "sums_ok v (sum_step sums p)"
    by (auto simp: sums_ok_def sum_step_def nth_append less_Suc_eq)
  show "length (sum_step sums p) = Suc (Suc p)" using assms(2) by (simp add: sum_step_def)
qed

lemma first_sums_ok:
  defines "sum1 \<equiv> \<lambda>v. v - (drop_bit 1 v AND sum_masks ! 0)"
  shows "sums_ok v [v, sum1 v, (sum1 v AND sum_masks ! 1) + (drop_bit 2 (sum1 v) AND sum_masks ! 1)]"
proof -
  let ?x0 = "counts v 0" and ?x1 = "counts v 1" and ?s = "sum1 v"
  let ?b = "drop_bit 1 v AND sum_masks ! 0"
  have v: "unat v = pack (2 ^ 0) ?x0" using pack_counts_0 by simp
  have ev: "even (length ?x0)" "even (length ?x1)" using length_counts [of 0 v] length_counts [of 1 v] by simp_all
  have b: "unat ?b = pack 2 (evens (tl ?x0 @ [0]))" using odd_fields [OF _ v] by simp
  have "unat v = pack 2 ?x1 + unat ?b"
    using pack_pairs_1 [OF ev(1)] v b by (simp add: counts_Suc)
  then have s: "unat ?s = pack 2 ?x1"
    unfolding sum1_def by (simp add: unat_sub word_le_nat_alt)
  have e: "unat (?s AND sum_masks ! 1) = pack 4 (evens ?x1)"
    using even_fields [of 1 ?s ?x1] s counts_fit [of 1 v] length_counts [of 1 v] by simp
  have o: "unat (drop_bit 2 ?s AND sum_masks ! 1) = pack 4 (evens (tl ?x1 @ [0]))"
    using odd_fields [of 1 ?s v] s by simp
  have sum: "pack 4 (evens ?x1) + pack 4 (evens (tl ?x1 @ [0])) = pack 4 (counts v 2)"
    using pack_odds_2 [OF ev(2)] by (simp add: counts_Suc numeral_2_eq_2)
  have "pack 4 (counts v 2) < 2 ^ 64" using pack_counts_less [of 2 v] by simp
  then have "unat ((?s AND sum_masks ! 1) + (drop_bit 2 ?s AND sum_masks ! 1)) = pack 4 (counts v 2)"
    using unat_add_small e o sum by simp
  note third = this
  show ?thesis
    unfolding sums_ok_def
  proof (intro allI impI)
    fix p :: nat
    assume "p < length [v, ?s, (?s AND sum_masks ! 1) + (drop_bit 2 ?s AND sum_masks ! 1)]"
    then have "p < 3" by simp
    then consider "p = 0" | "p = 1" | "p = 2" by linarith
    then show "unat ([v, ?s, (?s AND sum_masks ! 1) + (drop_bit 2 ?s AND sum_masks ! 1)] ! p) = pack (2 ^ p) (counts v p)"
      using third v s by cases simp_all
  qed
qed

lemma foldl_sum_step_ok:
  "sums_ok v sums \<Longrightarrow> length sums = Suc p \<Longrightarrow> 2 \<le> p \<Longrightarrow> p \<le> 6
    \<Longrightarrow> sums_ok v (foldl sum_step sums [p ..< 6]) \<and> length (foldl sum_step sums [p ..< 6]) = 7"
proof (induction "6 - p" arbitrary: p sums)
  case (Suc n)
  then have "p < 6" by simp
  then have "foldl sum_step sums [p ..< 6] = foldl sum_step (sum_step sums p) [Suc p ..< 6]"
    by (simp add: upt_conv_Cons)
  moreover have "n = 6 - Suc p" using Suc.hyps(2) by simp
  ultimately show ?case
    using Suc.hyps(1) [of "Suc p" "sum_step sums p"] sum_step_ok [OF Suc.prems(1-3) \<open>p < 6\<close>] Suc.prems \<open>p < 6\<close>
    by simp
qed auto

lemma partial_sums_ok: "sums_ok v (partial_sums v)" "length (partial_sums v) = 7"
  using foldl_sum_step_ok [OF first_sums_ok [of v], of 2] by (simp_all add: partial_sums_def Let_def)

section \<open>The binary search\<close>

lemma cmp_mask_eq:
  assumes "l < 2 ^ 63" "r < 2 ^ 63"
  shows "signed_drop_bit 63 (of_nat l - of_nat r :: u64) = (if l < r then - 1 else 0)"
proof -
  have "sint (signed_drop_bit 63 (of_nat l - of_nat r :: u64)) = drop_bit 63 (int l - int r)"
    by (simp only: sint_signed_drop_bit_eq sint_diff [OF assms])
  also have "\<dots> = (if l < r then - 1 else 0)"
  proof (cases "l < r")
    case True
    have "(int l - int r) div 2 ^ 63 = - 1"
      by (rule int_div_pos_eq [where r = "int l - int r + 2 ^ 63"]) (use True assms in simp_all)
    with True show ?thesis by (simp add: drop_bit_eq_div)
  next
    case False
    then show ?thesis using assms by (simp add: drop_bit_eq_div)
  qed
  also have "\<dots> = sint ((if l < r then - 1 else 0) :: u64)" by simp
  finally show ?thesis by (rule signed_word_eqI)
qed

lemma search_step_eq:
  assumes "sums_ok v sums" "length sums = 7" "p < 6" "i < 2 ^ (6 - p)" "r < 2 ^ 63"
    and s_def: "s = i * 2 ^ p" and l_def: "l = ones v s (s + 2 ^ p)"
  shows "search_step sums p (of_nat r, of_nat s) =
    (if l < r then (of_nat (r - l), of_nat (s + 2 ^ p)) else (of_nat r, of_nat s))"
proof -
  let ?w = "2 ^ p :: nat"
  have "s < 2 ^ (6 - p) * ?w" unfolding s_def using assms(4) by simp
  then have s64: "s < 64" using assms(3) by (simp flip: power_add)
  have c: "counts v p ! i = l" using counts_spec [of p v] assms(3,4) by (simp add: l_def s_def)
  have l64: "l \<le> 64" using ones_le [of v s "s + 2 ^ p"] power_increasing [of p 6 "2 :: nat"] assms(3)
    by (simp add: l_def s_def)
  have fit: "\<forall>x \<in> set (counts v p). x < 2 ^ ?w" using assms(3) by (intro counts_fit) simp
  have m: "push_bit ?w 1 - 1 = (mask ?w :: u64)"
    by (simp add: mask_eq_exp_minus_1 push_bit_eq_mult)
  have un: "unat (of_nat s :: u64) = s" using s64 by (simp add: unat_of_nat)
  have "unat (take_bit ?w (drop_bit s (sums ! p))) = take_bit ?w (drop_bit (?w * i) (pack ?w (counts v p)))"
    using assms(1-3) by (simp add: unsigned_take_bit_eq unat_drop_bit sums_ok_def s_def mult.commute)
  also have "\<dots> = l"
    using pack_field [OF fit, of i] counts_spec [of p v] assms(3,4) c by simp
  also have "\<dots> = unat (of_nat l :: u64)" using l64 by (simp add: unat_of_nat)
  finally have "take_bit ?w (drop_bit s (sums ! p)) = (of_nat l :: u64)"
    by (rule unsigned_word_eqI)
  then have low: "drop_bit s (sums ! p) AND (push_bit ?w 1 - 1) = (of_nat l :: u64)"
    by (simp only: m take_bit_eq_mask)
  have "(push_bit p 1 :: u64) = of_nat (2 ^ p)" by (simp add: push_bit_eq_mult)
  moreover have "signed_drop_bit 63 (of_nat l - of_nat r :: u64) = (if l < r then - 1 else 0)"
    using l64 assms(5) by (intro cmp_mask_eq) simp_all
  ultimately show ?thesis
    unfolding search_step_def Let_def prod.case un low by (simp add: of_nat_diff)
qed

lemma search_loop:
  assumes sums: "sums_ok v sums" "length sums = 7"
  shows "p \<le> 6 \<Longrightarrow> i < 2 ^ (6 - p) \<Longrightarrow> r < 2 ^ 63 \<Longrightarrow> s = i * 2 ^ p \<Longrightarrow>
    \<exists>r' s'. foldl (\<lambda>acc p. search_step sums p acc) (of_nat r, of_nat s) (rev [0 ..< p]) = (r', of_nat s')
      \<and> s \<le> s' \<and> s' < s + 2 ^ p
      \<and> (r = 0 \<longrightarrow> s' = s)
      \<and> (0 < r \<and> r \<le> ones v s (s + 2 ^ p) \<longrightarrow> bit v s' \<and> Suc (ones v s s') = r)
      \<and> (ones v s (s + 2 ^ p) < r \<longrightarrow> Suc s' = s + 2 ^ p)"
proof (induction p arbitrary: i r s)
  case 0
  have "ones v s (s + 1) = of_bool (bit v s)" "ones v s s = 0"
    by (simp_all add: ones_def)
  then show ?case by (intro exI [of _ "of_nat r"] exI [of _ s]) (auto simp: ones_def)
next
  case (Suc p)
  let ?l = "ones v s (s + 2 ^ p)"
  have i2: "2 * i < 2 ^ (6 - p)" "2 * i + 1 < 2 ^ (6 - p)"
    using Suc.prems(1,2) by (simp_all add: Suc_diff_Suc [symmetric] del: Suc_diff_Suc)
  have s: "s = 2 * i * 2 ^ p" using Suc.prems(4) by simp
  have split: "?l + ones v (s + 2 ^ p) (s + 2 ^ Suc p) = ones v s (s + 2 ^ Suc p)"
    by (simp add: ones_add)
  have step: "search_step sums p (of_nat r, of_nat s) =
      (if ?l < r then (of_nat (r - ?l), of_nat (s + 2 ^ p)) else (of_nat r, of_nat s))"
    using search_step_eq [OF sums _ i2(1) _ s refl] Suc.prems by simp
  show ?case
  proof (cases "?l < r")
    case True
    have "p \<le> 6" "r - ?l < 2 ^ 63" "s + 2 ^ p = (2 * i + 1) * 2 ^ p"
      using Suc.prems(1,3) s by (simp_all add: less_imp_diff_less algebra_simps)
    from Suc.IH [OF this(1) i2(2) this(2,3)] obtain r' s' where
      *: "foldl (\<lambda>acc p. search_step sums p acc) (of_nat (r - ?l), of_nat (s + 2 ^ p)) (rev [0 ..< p]) = (r', of_nat s')"
      "s + 2 ^ p \<le> s'" "s' < s + 2 ^ p + 2 ^ p"
      "0 < r - ?l \<and> r - ?l \<le> ones v (s + 2 ^ p) (s + 2 ^ p + 2 ^ p) \<longrightarrow> bit v s' \<and> Suc (ones v (s + 2 ^ p) s') = r - ?l"
      "ones v (s + 2 ^ p) (s + 2 ^ p + 2 ^ p) < r - ?l \<longrightarrow> Suc s' = s + 2 ^ p + 2 ^ p"
      by blast
    have "?l + ones v (s + 2 ^ p) s' = ones v s s'" using *(2) by (simp add: ones_add)
    moreover have e: "s + 2 ^ p + 2 ^ p = s + 2 ^ Suc p" by simp
    note *(2-5) [unfolded e]
    ultimately show ?thesis
      using True split *(1) by (intro exI [of _ r'] exI [of _ s']) (auto simp: step simp del: power_Suc)
  next
    case False
    from Suc.IH [of "2 * i" r s] Suc.prems i2 s obtain r' s' where
      *: "foldl (\<lambda>acc p. search_step sums p acc) (of_nat r, of_nat s) (rev [0 ..< p]) = (r', of_nat s')"
      "s \<le> s'" "s' < s + 2 ^ p" "r = 0 \<longrightarrow> s' = s"
      "0 < r \<and> r \<le> ?l \<longrightarrow> bit v s' \<and> Suc (ones v s s') = r"
      by auto
    with False split show ?thesis
      by (intro exI [of _ r'] exI [of _ s']) (auto simp: step)
  qed
qed

lemma nth_set_bits:
  assumes "bit v s" "s < 64"
  shows "set_bits_of v ! ones v 0 s = s" "ones v 0 s < length (set_bits_of v)"
proof -
  have "[0 ..< 64] = [0 ..< s] @ s # [Suc s ..< 64]"
    using assms(2) by (metis le_add_same_cancel1 le_eq_less_or_eq upt_add_eq_append upt_conv_Cons
        zero_le le_iff_add)
  then have "set_bits_of v = filter (bit v) [0 ..< s] @ s # filter (bit v) [Suc s ..< 64]"
    using assms(1) by (simp add: set_bits_of_def)
  then show "set_bits_of v ! ones v 0 s = s" "ones v 0 s < length (set_bits_of v)"
    by (simp_all add: ones_def nth_append)
qed

lemma length_set_bits: "length (set_bits_of v) = ones v 0 64"
  by (simp add: set_bits_of_def ones_def)

lemma total_count: "partial_sums v ! 6 = of_nat (length (set_bits_of v))"
proof -
  have "length (counts v 6) = 1" "counts v 6 ! 0 = ones v 0 64" using counts_spec [of 6 v] by auto
  then have "counts v 6 = [ones v 0 64]" by (metis One_nat_def length_0_conv length_Suc_conv nth_Cons_0)
  then have "unat (partial_sums v ! 6) = ones v 0 64"
    using partial_sums_ok [of v] by (simp add: sums_ok_def)
  also have "\<dots> = unat (of_nat (ones v 0 64) :: u64)"
    using ones_le [of v 0 64] by (simp add: unat_of_nat)
  finally show ?thesis unfolding length_set_bits by (rule unsigned_word_eqI)
qed

lemma find_bit_found:
  assumes "unat (rank_fn (of_nat (ones v 0 64))) = r" "r < 2 ^ 63"
  obtains s where "unat (find_bit v rank_fn) = s" "s < 64" "r = 0 \<longrightarrow> s = 0"
    "0 < r \<and> r \<le> ones v 0 64 \<longrightarrow> bit v s \<and> Suc (ones v 0 s) = r" "ones v 0 64 < r \<longrightarrow> Suc s = 64"
proof -
  have rank: "rank_fn (partial_sums v ! 6) = of_nat r"
    using assms(1) by (auto simp: total_count length_set_bits)
  with search_loop [OF partial_sums_ok, of 6 0 r 0 v] assms(2) obtain r' s where
    *: "foldl (\<lambda>acc p. search_step (partial_sums v) p acc) (of_nat r, 0) (rev [0 ..< 6]) = (r', of_nat s)"
    "s < 64" "r = 0 \<longrightarrow> s = 0"
    "0 < r \<and> r \<le> ones v 0 64 \<longrightarrow> bit v s \<and> Suc (ones v 0 s) = r"
    "ones v 0 64 < r \<longrightarrow> Suc s = 64"
    by auto
  have "find_bit v rank_fn = of_nat s"
    unfolding find_bit_def Let_def rank *(1) by simp
  then have "unat (find_bit v rank_fn) = s"
    using *(2) by (simp add: unat_of_nat)
  with *(2-) that show thesis by blast
qed

text \<open>
  C32. The branchless search agrees with the definition of the ranked bit on the list of the set
  bits, for every value and every rank below \<open>2 ^ 63\<close>: the position of the bit of that rank, 0 for
  rank 0 and 63 for a rank that exceeds the number of set bits, which is what the rank function
  receives.
\<close>
theorem find_bit_ranked:
  assumes "unat (rank_fn (of_nat (length (set_bits_of v)))) < 2 ^ 63"
  shows "unat (find_bit v rank_fn) = ranked_bit v (unat (rank_fn (of_nat (length (set_bits_of v)))))"
proof -
  define r where "r = unat (rank_fn (of_nat (length (set_bits_of v))))"
  obtain s where *: "unat (find_bit v rank_fn) = s" "s < 64" "r = 0 \<longrightarrow> s = 0"
    "0 < r \<and> r \<le> ones v 0 64 \<longrightarrow> bit v s \<and> Suc (ones v 0 s) = r" "ones v 0 64 < r \<longrightarrow> Suc s = 64"
    by (rule find_bit_found [of rank_fn v r]) (use assms in \<open>simp_all add: r_def length_set_bits\<close>)
  have "ranked_bit v r = s"
    using *(2-) nth_set_bits [of v s] by (auto simp: ranked_bit_def length_set_bits)
  with *(1) show ?thesis by (simp add: r_def)
qed

text \<open>The second set bit of \<open>0b10100\<close> is bit 4.\<close>

theorem find_bit_ranked_witness: "unat (find_bit 20 (\<lambda>_. 2)) = 4"
proof -
  have "set_bits_of 20 = [2, 4]" by (simp add: set_bits_of_def upt_rec)
  then show ?thesis using find_bit_ranked [of "\<lambda>_. 2" 20] by (simp add: ranked_bit_def)
qed

end
