(* ===== verification/Sinks.thy ===== *)
theory Sinks
  imports Nexo_Prelude
begin

text \<open>
  The event sinks (\<open>ports/sink/\<close>) and their registry (\<open>registry/event_sink_registry.rs\<close>):
  a bounded buffer that drops its oldest event, a slot that keeps the last event, and an
  unbounded blocking queue.  The locale \<open>event_sink\<close> is what the writers of a sink rely on;
  each sink is an instance with its own policy of which events are kept.

  Accesses to the contents of a sink are protected by its mutex, hence one step each.
  \<open>contended\<close> tells whether a \<open>try_lock\<close> finds the mutex taken by another thread.  The queue
  is the standard \<open>mpsc\<close> channel: the events, the number of senders, and whether the receiver
  is alive.  \<open>collect\<close> of a registered sink takes the encoder of events as an argument, since
  the encoder is a third-party package; \<open>None\<close> is a call that blocks forever.
\<close>

section \<open>Event buffer\<close>

record 'e event_buffer =
  eb_capacity :: nat
  eb_is_open :: bool
  eb_buffer :: "'e list"

definition eb_DEFAULT_CAPACITY :: nat where
  "eb_DEFAULT_CAPACITY = 16"

definition eb_with_capacity :: "nat \<Rightarrow> 'e event_buffer" where
  "eb_with_capacity capacity = \<lparr>eb_capacity = capacity, eb_is_open = True, eb_buffer = []\<rparr>"

definition eb_with_capacity_closed :: "nat \<Rightarrow> 'e event_buffer" where
  "eb_with_capacity_closed capacity = \<lparr>eb_capacity = capacity, eb_is_open = False, eb_buffer = []\<rparr>"

definition eb_new :: "'e event_buffer" where
  "eb_new = eb_with_capacity eb_DEFAULT_CAPACITY"

definition eb_new_closed :: "'e event_buffer" where
  "eb_new_closed = eb_with_capacity_closed eb_DEFAULT_CAPACITY"

definition eb_next :: "'e event_buffer \<Rightarrow> 'e event_buffer \<times> 'e option" where
  "eb_next b = (case eb_buffer b of [] \<Rightarrow> (b, None) | e # es \<Rightarrow> (b\<lparr>eb_buffer := es\<rparr>, Some e))"

definition eb_open :: "'e event_buffer \<Rightarrow> 'e event_buffer" where
  "eb_open b = b\<lparr>eb_is_open := True\<rparr>"

definition eb_close :: "'e event_buffer \<Rightarrow> 'e event_buffer" where
  "eb_close b = b\<lparr>eb_is_open := False\<rparr>"

definition eb_write :: "'e \<Rightarrow> 'e event_buffer \<Rightarrow> 'e event_buffer" where
  "eb_write event b =
     (if \<not> eb_is_open b then b
      else (let buf = (if length (eb_buffer b) = eb_capacity b then tl (eb_buffer b) else eb_buffer b)
            in b\<lparr>eb_buffer := buf @ [event]\<rparr>))"

text \<open>\<open>try_fold\<close> on the events; the drained buffer is empty afterwards, even after an error.\<close>

fun try_fold :: "('b \<Rightarrow> 'e \<Rightarrow> 'x + 'b) \<Rightarrow> 'b \<Rightarrow> 'e list \<Rightarrow> 'x + 'b" where
  "try_fold f acc [] = Inr acc"
| "try_fold f acc (e # es) = (case f acc e of Inl x \<Rightarrow> Inl x | Inr acc' \<Rightarrow> try_fold f acc' es)"

definition eb_try_fold :: "('b \<Rightarrow> 'e \<Rightarrow> 'x + 'b) \<Rightarrow> 'b \<Rightarrow> 'e event_buffer \<Rightarrow> 'e event_buffer \<times> ('x + 'b)" where
  "eb_try_fold f init b = (b\<lparr>eb_buffer := []\<rparr>, try_fold f init (eb_buffer b))"

section \<open>Event slot\<close>

record 'e event_slot =
  es_is_open :: bool
  es_slot :: "'e option"

definition es_new :: "'e event_slot" where
  "es_new = \<lparr>es_is_open = True, es_slot = None\<rparr>"

definition es_new_closed :: "'e event_slot" where
  "es_new_closed = \<lparr>es_is_open = False, es_slot = None\<rparr>"

definition es_next :: "bool \<Rightarrow> 'e event_slot \<Rightarrow> 'e event_slot \<times> 'e option" where
  "es_next contended s = (if contended then (s, None) else (s\<lparr>es_slot := None\<rparr>, es_slot s))"

definition es_open :: "'e event_slot \<Rightarrow> 'e event_slot" where
  "es_open s = s\<lparr>es_is_open := True\<rparr>"

definition es_close :: "'e event_slot \<Rightarrow> 'e event_slot" where
  "es_close s = s\<lparr>es_is_open := False\<rparr>"

definition es_write :: "bool \<Rightarrow> 'e \<Rightarrow> 'e event_slot \<Rightarrow> 'e event_slot" where
  "es_write contended event s =
     (if \<not> es_is_open s then s else if contended then s else s\<lparr>es_slot := Some event\<rparr>)"

section \<open>Blocking event queue\<close>

record 'e event_queue =
  bq_is_open :: bool
  bq_events :: "'e list"
  bq_senders :: nat
  bq_receiver :: bool

definition bq_new_with_state :: "bool \<Rightarrow> 'e event_queue" where
  "bq_new_with_state is_open = \<lparr>bq_is_open = is_open, bq_events = [], bq_senders = 1, bq_receiver = True\<rparr>"

definition bq_new :: "'e event_queue" where
  "bq_new = bq_new_with_state True"

definition bq_new_closed :: "'e event_queue" where
  "bq_new_closed = bq_new_with_state False"

text \<open>A new writer clones the sender; \<open>into_reader\<close> drops the one of the queue.\<close>

definition bq_writer :: "'e event_queue \<Rightarrow> 'e event_queue" where
  "bq_writer q = q\<lparr>bq_senders := Suc (bq_senders q)\<rparr>"

definition bq_into_reader :: "'e event_queue \<Rightarrow> 'e event_queue" where
  "bq_into_reader q = q\<lparr>bq_senders := bq_senders q - 1\<rparr>"

datatype 'e received = Received 'e | NoMoreEvents | Blocks

definition bq_next :: "'e event_queue \<Rightarrow> 'e event_queue \<times> 'e received" where
  "bq_next q =
     (case bq_events q of
        e # es \<Rightarrow> (q\<lparr>bq_events := es\<rparr>, Received e)
      | [] \<Rightarrow> (q, if bq_senders q = 0 then NoMoreEvents else Blocks))"

definition bq_open :: "'e event_queue \<Rightarrow> 'e event_queue" where
  "bq_open q = q\<lparr>bq_is_open := True\<rparr>"

definition bq_close :: "'e event_queue \<Rightarrow> 'e event_queue" where
  "bq_close q = q\<lparr>bq_is_open := False\<rparr>"

definition bq_write :: "'e \<Rightarrow> 'e event_queue \<Rightarrow> 'e event_queue" where
  "bq_write event q =
     (if \<not> bq_is_open q then q
      else if bq_receiver q then q\<lparr>bq_events := bq_events q @ [event]\<rparr> else q)"

section \<open>Registered sinks\<close>

datatype 'e sink =
    BufferSink "'e event_buffer"
  | SlotSink "'e event_slot"
  | QueueSink "'e event_queue"

fun sink_open :: "'e sink \<Rightarrow> 'e sink" where
  "sink_open (BufferSink b) = BufferSink (eb_open b)"
| "sink_open (SlotSink s) = SlotSink (es_open s)"
| "sink_open (QueueSink q) = QueueSink (bq_open q)"

fun sink_close :: "'e sink \<Rightarrow> 'e sink" where
  "sink_close (BufferSink b) = BufferSink (eb_close b)"
| "sink_close (SlotSink s) = SlotSink (es_close s)"
| "sink_close (QueueSink q) = QueueSink (bq_close q)"

text \<open>The step of \<open>collect\<close>: encode an event and append the buffer.\<close>

definition encode_into :: "('e \<Rightarrow> 'x + 'b) \<Rightarrow> 'b list \<Rightarrow> 'e \<Rightarrow> 'x + 'b list" where
  "encode_into enc encoded_events event = (case enc event of Inl x \<Rightarrow> Inl x | Inr b \<Rightarrow> Inr (encoded_events @ [b]))"

text \<open>
  The default \<open>__try_fold\<close> pulls events with \<open>next\<close> until there is none; on the queue, this
  blocks once it is empty, unless every sender is gone.
\<close>

fun pull_fold :: "('b \<Rightarrow> 'e \<Rightarrow> 'x + 'b) \<Rightarrow> 'b \<Rightarrow> 'e list \<Rightarrow> 'e list \<times> ('x + 'b)" where
  "pull_fold f acc [] = ([], Inr acc)"
| "pull_fold f acc (e # es) = (case f acc e of Inl x \<Rightarrow> (es, Inl x) | Inr acc' \<Rightarrow> pull_fold f acc' es)"

fun sink_collect :: "('e \<Rightarrow> 'x + 'b) \<Rightarrow> 'e sink \<Rightarrow> ('e sink \<times> ('x + 'b list)) option" where
  "sink_collect enc (BufferSink b) = (let (b', r) = eb_try_fold (encode_into enc) [] b in Some (BufferSink b', r))"
| "sink_collect enc (SlotSink s) =
     (case es_next False s of
        (s', None) \<Rightarrow> Some (SlotSink s', Inr [])
      | (s', Some e) \<Rightarrow> Some (SlotSink s', encode_into enc [] e))"
| "sink_collect enc (QueueSink q) =
     (let (rest, r) = pull_fold (encode_into enc) [] (bq_events q)
      in case r of
           Inl _ \<Rightarrow> Some (QueueSink (q\<lparr>bq_events := rest\<rparr>), r)
         | Inr _ \<Rightarrow> if bq_senders q = 0 then Some (QueueSink (q\<lparr>bq_events := rest\<rparr>), r) else None)"

text \<open>The registry: a map from names to sinks; a name in use is not replaced.\<close>

type_synonym 'e sink_registry = "string \<rightharpoonup> 'e sink"

definition sink_registry_add :: "'e sink \<Rightarrow> string \<Rightarrow> 'e sink_registry \<Rightarrow> 'e sink_registry \<times> ('e sink + unit)" where
  "sink_registry_add sink name r =
     (case r name of None \<Rightarrow> (r(name \<mapsto> sink), Inr ()) | Some _ \<Rightarrow> (r, Inl sink))"

section \<open>The interface of a sink\<close>

locale event_sink =
  fixes put :: "'e \<Rightarrow> 's \<Rightarrow> 's"
    and items :: "'s \<Rightarrow> 'e list"
    and is_open :: "'s \<Rightarrow> bool"
    and opened :: "'s \<Rightarrow> 's"
    and closed :: "'s \<Rightarrow> 's"
    and valid :: "'s \<Rightarrow> bool"
    and kept :: "'e list \<Rightarrow> 'e list"
  assumes put_open: "valid s \<Longrightarrow> is_open s \<Longrightarrow> items (put e s) = kept (items s @ [e])"
    and put_closed: "\<not> is_open s \<Longrightarrow> put e s = s"
    and put_state: "is_open (put e s) = is_open s"
    and put_valid: "valid s \<Longrightarrow> valid (put e s)"
    and opened_items: "items (opened s) = items s" "is_open (opened s)" "valid s \<Longrightarrow> valid (opened s)"
    and closed_items: "items (closed s) = items s" "\<not> is_open (closed s)" "valid s \<Longrightarrow> valid (closed s)"
    and kept_items: "valid s \<Longrightarrow> kept (items s) = items s"
    and kept_append: "kept (kept xs @ ys) = kept (xs @ ys)"
begin

lemma fold_put_closed: "\<not> is_open s \<Longrightarrow> fold put es s = s"
  by (induction es) (simp_all add: put_closed)

lemma fold_put_state: "is_open (fold put es s) = is_open s" "valid s \<Longrightarrow> valid (fold put es s)"
  by (induction es arbitrary: s) (simp_all add: put_state put_valid)

lemma fold_put_open: "valid s \<Longrightarrow> is_open s \<Longrightarrow> items (fold put es s) = kept (items s @ es)"
proof (induction es arbitrary: s)
  case (Cons e es)
  then show ?case
    using Cons.IH [OF put_valid [OF Cons.prems(1)]]
    by (simp add: put_state put_open kept_append)
qed (simp add: kept_items)

text \<open>Events written while the sink is closed are ignored; the others are kept by the policy.\<close>

lemma closed_interval:
  assumes "valid s" "is_open s"
  shows "items (fold put es3 (opened (fold put es2 (closed (fold put es1 s))))) = kept (items s @ es1 @ es3)"
proof -
  have "fold put es2 (closed (fold put es1 s)) = closed (fold put es1 s)"
    by (rule fold_put_closed) (rule closed_items)
  moreover have "valid (opened (closed (fold put es1 s)))"
    using assms(1) by (intro opened_items closed_items fold_put_state)
  ultimately show ?thesis
    using fold_put_open [OF assms] by (simp add: fold_put_open opened_items closed_items kept_append)
qed

end

text \<open>The last \<open>n\<close> events.\<close>

definition last_n :: "nat \<Rightarrow> 'e list \<Rightarrow> 'e list" where
  "last_n n xs = drop (length xs - n) xs"

lemma last_n_append: "last_n n (last_n n xs @ ys) = last_n n (xs @ ys)"
  by (cases "n \<le> length xs") (simp_all add: last_n_def add.commute)

lemma length_last_n: "length (last_n n xs) = min n (length xs)"
  by (simp add: last_n_def)

definition eb_valid :: "nat \<Rightarrow> 'e event_buffer \<Rightarrow> bool" where
  "eb_valid n b \<longleftrightarrow> 0 < n \<and> eb_capacity b = n \<and> length (eb_buffer b) \<le> n"

interpretation eb: event_sink eb_write eb_buffer eb_is_open eb_open eb_close "eb_valid n" "last_n n" for n
proof
  fix s :: "'a event_buffer" and e
  assume "eb_valid n s" "eb_is_open s"
  then show "eb_buffer (eb_write e s) = last_n n (eb_buffer s @ [e])"
    by (cases "eb_buffer s") (auto simp: eb_valid_def eb_write_def last_n_def Let_def)
next
  fix s :: "'a event_buffer"
  assume "eb_valid n s"
  then show "last_n n (eb_buffer s) = eb_buffer s"
    by (simp add: eb_valid_def last_n_def)
qed (auto simp: eb_valid_def eb_write_def eb_open_def eb_close_def Let_def last_n_append)

interpretation es: event_sink "es_write False" "\<lambda>s. case es_slot s of None \<Rightarrow> [] | Some e \<Rightarrow> [e]"
  es_is_open es_open es_close "\<lambda>_. True" "last_n 1"
  by unfold_locales
    (auto simp: es_write_def es_open_def es_close_def last_n_append, auto simp: last_n_def split: option.splits)

interpretation bq: event_sink bq_write bq_events bq_is_open bq_open bq_close bq_receiver "\<lambda>xs. xs"
  by unfold_locales (auto simp: bq_write_def bq_open_def bq_close_def)

section \<open>Collecting\<close>

lemma try_fold_encode:
  "try_fold (encode_into enc) acc es = (if \<forall>e \<in> set es. \<exists>b. enc e = Inr b then Inr (acc @ map (projr \<circ> enc) es)
    else Inl (projl (enc (hd (dropWhile (\<lambda>e. \<exists>b. enc e = Inr b) es)))))"
  by (induction es arbitrary: acc) (auto simp: encode_into_def split: sum.splits)

text \<open>
  C33. An event buffer is a first-in-first-out buffer of the last events: what is collected after any writes
  with a closed interval in between is the encoding of the last \<open>capacity\<close> events written while it was
  open, and the buffer is then empty.
\<close>
theorem event_buffer_collect:
  assumes "0 < capacity" "\<forall>e. enc e = Inr (f e)"
    and b_def: "b = fold eb_write es3 (eb_open (fold eb_write es2 (eb_close (fold eb_write es1 (eb_with_capacity capacity)))))"
  shows "\<exists>b'. sink_collect enc (BufferSink b) = Some (BufferSink b', Inr (map f (last_n capacity (es1 @ es3))))
    \<and> eb_buffer b' = []"
proof -
  have "eb_buffer b = last_n capacity (es1 @ es3)"
    unfolding b_def using assms(1)
    by (subst eb.closed_interval [where n = capacity]) (simp_all add: eb_valid_def eb_with_capacity_def)
  then show ?thesis
    using assms(2) by (simp add: eb_try_fold_def try_fold_encode comp_def)
qed

theorem event_buffer_collect_witness:
  "\<exists>b'. sink_collect (\<lambda>n. Inr (n + 1) :: nat + nat)
     (BufferSink (fold eb_write [4, 5] (eb_open (fold eb_write [3] (eb_close (fold eb_write [1, 2] (eb_with_capacity 3)))))))
     = Some (BufferSink b', Inr [3, 5, 6]) \<and> eb_buffer b' = []"
proof -
  have "last_n 3 ([1, 2] @ [4, 5]) = [2, 4, 5 :: nat]" by (simp add: last_n_def)
  then show ?thesis
    using event_buffer_collect [of 3 "\<lambda>n. Inr (n + 1) :: nat + nat" "\<lambda>n. n + 1" _ "[4, 5]" "[3]" "[1, 2]"] by simp
qed

text \<open>With capacity 0, which the constructors accept, the buffer grows with every event.\<close>

lemma event_buffer_unbounded: "length (eb_buffer (fold eb_write es (eb_with_capacity 0))) = length es"
proof -
  have "length (eb_buffer (fold eb_write es b)) = length (eb_buffer b) + length es"
    if "eb_is_open b" "eb_capacity b = 0" for b :: "'a event_buffer"
    using that
    by (induction es arbitrary: b) (simp_all add: eb_write_def Let_def)
  then show ?thesis by (simp add: eb_with_capacity_def)
qed

text \<open>An encoding error discards every event of a buffer.\<close>

lemma event_buffer_error_discards:
  assumes "sink_collect enc (BufferSink b) = Some (BufferSink b', Inl x)"
  shows "eb_buffer b' = []"
  using assms by (auto simp: eb_try_fold_def)

text \<open>Collecting from a queue with a live writer returns only if an event cannot be encoded.\<close>

lemma event_queue_collect_blocks:
  assumes "\<forall>e \<in> set (bq_events q). \<exists>b. enc e = Inr b" "bq_senders q \<noteq> 0"
  shows "sink_collect enc (QueueSink q) = None"
proof -
  have "\<exists>bs. snd (pull_fold (encode_into enc) acc es) = Inr bs" if "\<forall>e \<in> set es. \<exists>b. enc e = Inr b" for es acc
    using that by (induction es arbitrary: acc) (auto simp: encode_into_def)
  from this [OF assms(1), of "[]"] assms(2) show ?thesis by (auto simp: Let_def split_beta)
qed

end
