(* ===== verification/Monotonic_Time.thy ===== *)
theory Monotonic_Time
  imports Nexo_Prelude
begin

text \<open>
  The type of times.  \<open>MonotonicTime\<close> is a type of the \<open>tai_time\<close> package: a signed number of
  seconds and the nanoseconds within the second.  Its constructor and accessors are the record
  \<open>time_ops\<close>, and \<open>time_laws\<close> is their documented behaviour; \<open>nanos_ops\<close> is an instance.
\<close>

record 't time_ops =
  mt_new :: "int \<Rightarrow> nat \<Rightarrow> 't option"
  mt_secs :: "'t \<Rightarrow> int"
  mt_subsec_nanos :: "'t \<Rightarrow> nat"

text \<open>
  The constructor fails exactly if the nanoseconds are not within a second, it is inverse to the accessors,
  and it accepts the seconds of one time with the nanoseconds of another.
\<close>

definition time_laws :: "'t time_ops \<Rightarrow> bool" where
  "time_laws T \<longleftrightarrow>
     (\<forall>s n. 10 ^ 9 \<le> n \<longrightarrow> mt_new T s n = None)
   \<and> (\<forall>s n. - (2 ^ 63) \<le> s \<and> s < 2 ^ 63 \<and> n < 10 ^ 9 \<longrightarrow>
        (\<exists>t. mt_new T s n = Some t \<and> mt_secs T t = s \<and> mt_subsec_nanos T t = n))
   \<and> (\<forall>t. mt_new T (mt_secs T t) (mt_subsec_nanos T t) = Some t)
   \<and> (\<forall>t u. mt_new T (mt_secs T t) (mt_subsec_nanos T u) \<noteq> None)"

text \<open>A time as a number of nanoseconds.\<close>

definition nanos_ops :: "int time_ops" where
  "nanos_ops = \<lparr>mt_new = (\<lambda>s n. if n < 10 ^ 9 then Some (s * 10 ^ 9 + int n) else None),
     mt_secs = (\<lambda>t. t div 10 ^ 9), mt_subsec_nanos = (\<lambda>t. nat (t mod 10 ^ 9))\<rparr>"

lemma nanos_ops_laws: "time_laws nanos_ops"
proof -
  have "(s * 10 ^ 9 + int n) div 10 ^ 9 = s" "(s * 10 ^ 9 + int n) mod 10 ^ 9 = int n" if "n < 10 ^ 9" for s n
    using that by (simp_all add: div_add1_eq)
  moreover have "nat (t mod 10 ^ 9) < 10 ^ 9" "t div 10 ^ 9 * 10 ^ 9 + int (nat (t mod 10 ^ 9)) = t" for t :: int
    by (simp_all add: nat_less_iff)
  ultimately show ?thesis
    by (auto simp: time_laws_def nanos_ops_def)
qed

lemma time_laws_inverse: "time_laws T \<Longrightarrow> mt_new T (mt_secs T t) (mt_subsec_nanos T t) = Some t"
  by (simp add: time_laws_def)

lemma time_laws_torn: "time_laws T \<Longrightarrow> \<exists>x. mt_new T (mt_secs T t) (mt_subsec_nanos T u) = Some x"
  by (simp add: time_laws_def)

end
