(* ===== verification/Services.thy ===== *)
theory Services
  imports Simulation Key_Registry Sinks Monotonic_Time
begin

text \<open>
  The remote services (\<open>server/services.rs\<close>, \<open>server/services/\<close>) and the registries of
  sources (\<open>registry/\<close>): each request is checked, translated into calls of the simulation,
  of the scheduler or of a sink, and answered with a reply or an error.

  Protobuf times and durations are pairs of integers.  A message of an error is a literal, or the arguments of
  \<open>format!\<close> with the format; values are not rendered.  A source of events is the decoder of its
  argument composed with the action it builds.

  \<open>None\<close> is a panic.  The scheduler is shared with the simulation, so that its state is an
  argument of the operations of the scheduler service.
\<close>

section \<open>Errors\<close>

datatype error_code =
    InternalError | MissingArgument | InvalidTime | InvalidPeriod | InvalidDeadlineCode
  | InvalidMessage | InvalidKey | InitializerPanic | SimulationNotStarted | SimulationHalted
  | SimulationTerminated | SimulationDeadlock | SimulationMessageLoss | SimulationNoRecipient
  | SimulationPanic | SimulationTimeout | SimulationOutOfSync | SimulationBadQuery
  | SimulationTimeOutOfRange | SourceNotFound | SinkNotFound

fun error_code_value :: "error_code \<Rightarrow> int" where
  "error_code_value InternalError = 0"
| "error_code_value MissingArgument = 1"
| "error_code_value InvalidTime = 2"
| "error_code_value InvalidPeriod = 3"
| "error_code_value InvalidDeadlineCode = 4"
| "error_code_value InvalidMessage = 5"
| "error_code_value InvalidKey = 6"
| "error_code_value InitializerPanic = 10"
| "error_code_value SimulationNotStarted = 11"
| "error_code_value SimulationHalted = 12"
| "error_code_value SimulationTerminated = 13"
| "error_code_value SimulationDeadlock = 14"
| "error_code_value SimulationMessageLoss = 15"
| "error_code_value SimulationNoRecipient = 16"
| "error_code_value SimulationPanic = 17"
| "error_code_value SimulationTimeout = 18"
| "error_code_value SimulationOutOfSync = 19"
| "error_code_value SimulationBadQuery = 20"
| "error_code_value SimulationTimeOutOfRange = 21"
| "error_code_value SourceNotFound = 30"
| "error_code_value SinkNotFound = 31"

datatype ('t, 'p, 'x) fmt_arg =
    StrArg string
  | CodecArg 'x
  | ExecArg "('t, 'p) execution_error"
  | SchedArg scheduling_error

datatype ('t, 'p, 'x) message = Literal string | Format string "('t, 'p, 'x) fmt_arg list"

record ('t, 'p, 'x) error =
  err_code :: int
  err_message :: "('t, 'p, 'x) message"

text \<open>A placeholder between quotation marks.\<close>

definition quoted_braces :: string where
  "quoted_braces = CHR 0x27 # ''{}'' @ [CHR 0x27]"

definition to_error :: "error_code \<Rightarrow> ('t, 'p, 'x) message \<Rightarrow> ('t, 'p, 'x) error" where
  "to_error c m = \<lparr>err_code = error_code_value c, err_message = m\<rparr>"

definition simulation_not_started_error :: "('t, 'p, 'x) error" where
  "simulation_not_started_error = to_error SimulationNotStarted (Literal ''the simulation was not started'')"

fun execution_error_code :: "('t, 'p) execution_error \<Rightarrow> error_code" where
  "execution_error_code (Deadlock _) = SimulationDeadlock"
| "execution_error_code (MessageLoss _) = SimulationMessageLoss"
| "execution_error_code (NoRecipient _) = SimulationNoRecipient"
| "execution_error_code (PanicError _ _) = SimulationPanic"
| "execution_error_code Timeout = SimulationTimeout"
| "execution_error_code (OutOfSync _) = SimulationOutOfSync"
| "execution_error_code BadQuery = SimulationBadQuery"
| "execution_error_code Halted = SimulationHalted"
| "execution_error_code Terminated = SimulationTerminated"
| "execution_error_code (InvalidDeadline _) = InvalidDeadlineCode"

definition map_execution_error :: "('t, 'p) execution_error \<Rightarrow> ('t, 'p, 'x) error" where
  "map_execution_error e = to_error (execution_error_code e) (Format ''{}'' [ExecArg e])"

definition map_scheduling_error :: "scheduling_error \<Rightarrow> ('t, 'p, 'x) error" where
  "map_scheduling_error e =
     to_error (case e of InvalidScheduledTime \<Rightarrow> InvalidDeadlineCode | NullRepetitionPeriod \<Rightarrow> InvalidPeriod)
       (Format ''{}'' [SchedArg e])"

datatype ('t, 'p) simulation_error = ExecutionFailure "('t, 'p) execution_error" | SchedulingFailure scheduling_error

fun map_simulation_error :: "('t, 'p) simulation_error \<Rightarrow> ('t, 'p, 'x) error" where
  "map_simulation_error (ExecutionFailure e) = map_execution_error e"
| "map_simulation_error (SchedulingFailure e) = map_scheduling_error e"

section \<open>Times and durations\<close>

record timestamp =
  ts_seconds :: int
  ts_nanos :: int

record pb_duration =
  pd_seconds :: int
  pd_nanos :: int

definition MIN_SECS :: int where
  "MIN_SECS = - 62135596800"

definition MAX_SECS :: int where
  "MAX_SECS = 253402300799"

definition monotonic_to_timestamp :: "'t time_ops \<Rightarrow> 't \<Rightarrow> timestamp option" where
  "monotonic_to_timestamp T t =
     (let secs = mt_secs T t in
      if \<not> (MIN_SECS \<le> secs \<and> secs \<le> MAX_SECS) then None
      else Some \<lparr>ts_seconds = secs, ts_nanos = int (mt_subsec_nanos T t)\<rparr>)"

definition timestamp_to_monotonic :: "'t time_ops \<Rightarrow> timestamp \<Rightarrow> 't option" where
  "timestamp_to_monotonic T ts = (if ts_nanos ts < 0 then None else mt_new T (ts_seconds ts) (nat (ts_nanos ts)))"

text \<open>\<open>Duration::new\<close>, in nanoseconds.\<close>

definition duration_new :: "nat \<Rightarrow> nat \<Rightarrow> duration" where
  "duration_new secs nanos = secs * 10 ^ 9 + nanos"

definition to_positive_duration :: "pb_duration \<Rightarrow> duration option" where
  "to_positive_duration d =
     (if pd_seconds d < 0 \<or> pd_nanos d < 0 then None
      else Some (duration_new (nat (pd_seconds d)) (nat (pd_nanos d))))"

definition to_strictly_positive_duration :: "pb_duration \<Rightarrow> duration option" where
  "to_strictly_positive_duration d =
     (if pd_seconds d < 0 \<or> pd_nanos d < 0 \<or> (pd_seconds d = 0 \<and> pd_nanos d = 0) then None
      else Some (duration_new (nat (pd_seconds d)) (nat (pd_nanos d))))"

section \<open>Sources\<close>

type_synonym bytes = "8 word list"

record ('a, 'x) event_source =
  src_decode :: "bytes \<Rightarrow> 'x + 'a"
  src_event_type_name :: string

definition source_event :: "('a, 'x) event_source \<Rightarrow> bytes \<Rightarrow> 'x + 'a action" where
  "source_event src b = (case src_decode src b of Inl x \<Rightarrow> Inl x | Inr a \<Rightarrow> Inr (OnceAction a))"

definition source_periodic_event :: "('a, 'x) event_source \<Rightarrow> duration \<Rightarrow> bytes \<Rightarrow> 'x + 'a action" where
  "source_periodic_event src period b =
     (case src_decode src b of Inl x \<Rightarrow> Inl x | Inr a \<Rightarrow> Inr (PeriodicAction a period))"

definition source_keyed_event ::
  "('a, 'x) event_source \<Rightarrow> bytes \<Rightarrow> bool list \<Rightarrow> bool list \<times> ('x + 'a action \<times> action_key)"
where
  "source_keyed_event src b flags =
     (case src_decode src b of
        Inl x \<Rightarrow> (flags, Inl x)
      | Inr a \<Rightarrow> (let (flags', k) = action_key_new flags in (flags', Inr (KeyedOnceAction a k, k))))"

definition source_keyed_periodic_event ::
  "('a, 'x) event_source \<Rightarrow> duration \<Rightarrow> bytes \<Rightarrow> bool list \<Rightarrow> bool list \<times> ('x + 'a action \<times> action_key)"
where
  "source_keyed_periodic_event src period b flags =
     (case src_decode src b of
        Inl x \<Rightarrow> (flags, Inl x)
      | Inr a \<Rightarrow> (let (flags', k) = action_key_new flags in (flags', Inr (KeyedPeriodicAction a period k, k))))"

type_synonym ('a, 'x) source_registry = "string \<rightharpoonup> ('a, 'x) event_source"

definition event_source_registry_add ::
  "('a, 'x) event_source \<Rightarrow> string \<Rightarrow> ('a, 'x) source_registry \<Rightarrow>
   ('a, 'x) source_registry \<times> (('a, 'x) event_source + unit)"
where
  "event_source_registry_add source name r =
     (case r name of None \<Rightarrow> (r(name \<mapsto> source), Inr ()) | Some _ \<Rightarrow> (r, Inl source))"

text \<open>A query source: its action, and how to take and encode the replies after the run.\<close>

record ('a, 'x, 'w) query_source =
  qsrc_decode :: "bytes \<Rightarrow> 'x + 'a"
  qsrc_take_collect :: "'w \<Rightarrow> ('x + bytes list) option"
  qsrc_request_type_name :: string
  qsrc_reply_type_name :: string

text \<open>Encoding the replies of a receiver: the first failure is reported.\<close>

definition take_collect :: "('r \<Rightarrow> 'x + bytes) \<Rightarrow> 'r list option \<Rightarrow> ('x + bytes list) option" where
  "take_collect enc replies =
     (case replies of None \<Rightarrow> None | Some rs \<Rightarrow> Some (try_fold (encode_into enc) [] rs))"

section \<open>The scheduler service\<close>

datatype request_deadline = DeadlineTime timestamp | DeadlineDuration pb_duration

record schedule_event_request =
  req_source_name :: string
  req_event :: bytes
  req_period :: "pb_duration option"
  req_with_key :: bool
  req_deadline :: "request_deadline option"

datatype ('t, 'p, 'x) schedule_reply = KeyReply nat nat | EmptyReply | ErrorReply "('t, 'p, 'x) error"

datatype ('t, 'p, 'x) time_reply = TimeReply timestamp | TimeErrorReply "('t, 'p, 'x) error"

datatype ('t, 'a, 'x) scheduler_service =
    SchedulerNotStarted
  | SchedulerStarted "('a, 'x) source_registry" "('t, action_key) key_registry"

definition time_of :: "'t time_ops \<Rightarrow> 't \<Rightarrow> ('t, 'p, 'x) time_reply" where
  "time_of T t =
     (case monotonic_to_timestamp T t of
        Some ts \<Rightarrow> TimeReply ts
      | None \<Rightarrow> TimeErrorReply (to_error SimulationTimeOutOfRange (Literal ''the final simulation time is out of range'')))"

definition service_time ::
  "'t time_ops \<Rightarrow> ('t, 'a, 'x) scheduler_service \<Rightarrow> ('t, 'a) sched \<Rightarrow> ('t, 'p, 'x) time_reply"
where
  "service_time T svc g =
     (case svc of
        SchedulerStarted _ _ \<Rightarrow> time_of T (sched_time g)
      | SchedulerNotStarted \<Rightarrow> TimeErrorReply simulation_not_started_error)"

text \<open>The action of a request and its key, by whether it is keyed and periodic.\<close>

definition request_action ::
  "('a, 'x) event_source \<Rightarrow> bytes \<Rightarrow> bool \<Rightarrow> duration option \<Rightarrow> bool list \<Rightarrow>
   bool list \<times> ('x + 'a action \<times> action_key option)"
where
  "request_action src event with_key period flags =
     (case (with_key, period) of
        (False, None) \<Rightarrow> (flags, map_sum id (\<lambda>a. (a, None)) (source_event src event))
      | (False, Some p) \<Rightarrow> (flags, map_sum id (\<lambda>a. (a, None)) (source_periodic_event src p event))
      | (True, None) \<Rightarrow> (let (flags', r) = source_keyed_event src event flags
                         in (flags', map_sum id (\<lambda>(a, k). (a, Some k)) r))
      | (True, Some p) \<Rightarrow> (let (flags', r) = source_keyed_periodic_event src p event flags
                           in (flags', map_sum id (\<lambda>(a, k). (a, Some k)) r)))"

text \<open>The deadline of a request; \<open>None\<close> if the addition of the duration panics.\<close>

definition request_time ::
  "'t time_ops \<Rightarrow> ('t \<Rightarrow> duration \<Rightarrow> 't option) \<Rightarrow> 't \<Rightarrow> request_deadline option \<Rightarrow> (('t, 'p, 'x) error + 't) option"
where
  "request_time T add now deadline =
     (case deadline of
        None \<Rightarrow> Some (Inl (to_error MissingArgument (Literal ''missing deadline argument'')))
      | Some (DeadlineTime ts) \<Rightarrow>
          (case timestamp_to_monotonic T ts of
             None \<Rightarrow> Some (Inl (to_error InvalidTime (Literal ''out-of-range nanosecond field'')))
           | Some t \<Rightarrow> Some (Inr t))
      | Some (DeadlineDuration d) \<Rightarrow>
          (case to_strictly_positive_duration d of
             None \<Rightarrow> Some (Inl (to_error InvalidDeadlineCode
               (Literal ''the specified scheduling deadline is not in the future'')))
           | Some duration \<Rightarrow> map_option Inr (add now duration)))"

text \<open>The registration of the key, before the action is scheduled.\<close>

definition register_key ::
  "'t::linorder \<Rightarrow> 't \<Rightarrow> duration option \<Rightarrow> 't \<Rightarrow> action_key option \<Rightarrow> ('t, action_key) key_registry \<Rightarrow>
   (('t, action_key) key_registry \<times> ins_key option) option"
where
  "register_key time_max now period deadline action_key keys =
     (case action_key of
        None \<Rightarrow> Some (keys, None)
      | Some k \<Rightarrow>
          do { keys1 \<leftarrow> remove_expired_keys now keys;
               (keys2, raw) \<leftarrow> (if period \<noteq> None then insert_eternal_key time_max k keys1
                               else insert_key k deadline keys1);
               Some (keys2, Some raw) })"

definition schedule_event ::
  "'t::linorder time_ops \<Rightarrow> ('t \<Rightarrow> duration \<Rightarrow> 't option) \<Rightarrow> 't \<Rightarrow> schedule_event_request \<Rightarrow>
   ('t, 'a, 'x) scheduler_service \<Rightarrow> ('t, 'a) sched \<Rightarrow>
   (('t, 'a, 'x) scheduler_service \<times> ('t, 'a) sched \<times> ('t, 'p, 'x) schedule_reply) option"
where
  "schedule_event T add time_max req svc g =
     (case svc of
        SchedulerNotStarted \<Rightarrow> Some (svc, g, ErrorReply simulation_not_started_error)
      | SchedulerStarted sources keys \<Rightarrow>
          (case (case req_period req of
                   None \<Rightarrow> Some None
                 | Some p \<Rightarrow> map_option Some (to_strictly_positive_duration p)) of
             None \<Rightarrow> Some (svc, g, ErrorReply (to_error InvalidPeriod
               (Literal ''the specified event period is not strictly positive'')))
           | Some period \<Rightarrow>
               (case sources (req_source_name req) of
                  None \<Rightarrow> Some (svc, g, ErrorReply (to_error SourceNotFound
                    (Literal (''no event source is registered with the name '' @ quoted_braces))))
                | Some src \<Rightarrow>
                    (case request_action src (req_event req) (req_with_key req) period (sched_flags g) of
                       (flags, Inl x) \<Rightarrow> Some (svc, g\<lparr>sched_flags := flags\<rparr>, ErrorReply (to_error InvalidMessage
                         (Format (''the event could not be deserialized as type '' @ quoted_braces @ '': {}'')
                            [StrArg (src_event_type_name src), CodecArg x])))
                     | (flags, Inr (action, action_key)) \<Rightarrow>
                         (let g1 = g\<lparr>sched_flags := flags\<rparr> in
                          do { deadline \<leftarrow> request_time T add (sched_time g1) (req_deadline req);
                               (case deadline of
                                  Inl e \<Rightarrow> Some (svc, g1, ErrorReply e)
                                | Inr time \<Rightarrow>
                                    do { (keys', key_id) \<leftarrow>
                                           register_key time_max (sched_time g1) period time action_key keys;
                                         (g2, r) \<leftarrow> scheduler_schedule add (At time) action g1;
                                         (let svc' = SchedulerStarted sources keys' in
                                          case r of
                                            Inl e \<Rightarrow> Some (svc', g2, ErrorReply (map_scheduling_error e))
                                          | Inr _ \<Rightarrow>
                                              (case key_id of
                                                 None \<Rightarrow> Some (svc', g2, EmptyReply)
                                               | Some raw \<Rightarrow> (let (subkey1, subkey2) = into_raw_parts raw
                                                             in Some (svc', g2, KeyReply subkey1 subkey2)))) }) })))))"

definition cancel_event ::
  "(nat \<times> nat) option \<Rightarrow> ('t::linorder, 'a, 'x) scheduler_service \<Rightarrow> ('t, 'a) sched \<Rightarrow>
   (('t, 'a, 'x) scheduler_service \<times> ('t, 'a) sched \<times> ('t, 'p, 'x) schedule_reply) option"
where
  "cancel_event key svc g =
     (case svc of
        SchedulerNotStarted \<Rightarrow> Some (svc, g, ErrorReply simulation_not_started_error)
      | SchedulerStarted sources keys \<Rightarrow>
          (case key of
             None \<Rightarrow> Some (svc, g, ErrorReply (to_error MissingArgument (Literal ''missing key argument'')))
           | Some (subkey1, subkey2) \<Rightarrow>
               do { keys1 \<leftarrow> remove_expired_keys (sched_time g) keys;
                    (keys2, k) \<leftarrow> extract_key (from_raw_parts subkey1 subkey2) keys1;
                    (let svc' = SchedulerStarted sources keys2 in
                     case k of
                       None \<Rightarrow> Some (svc', g, ErrorReply (to_error InvalidKey (Literal ''invalid or expired event key'')))
                     | Some action_key \<Rightarrow>
                         Some (svc', g\<lparr>sched_flags := key_cancel action_key (sched_flags g)\<rparr>, EmptyReply)) }))"

definition service_halt ::
  "('t, 'a, 'x) scheduler_service \<Rightarrow> ('t, 'a) sched \<Rightarrow> ('t, 'a) sched \<times> ('t, 'p, 'x) schedule_reply"
where
  "service_halt svc g =
     (case svc of
        SchedulerStarted _ _ \<Rightarrow> (sched_halt g, EmptyReply)
      | SchedulerNotStarted \<Rightarrow> (g, ErrorReply simulation_not_started_error))"

section \<open>The controller service\<close>

datatype ('t, 'a, 'x, 'w) controller_service =
    ControllerNotStarted
  | ControllerStarted "('t, 'a, 'w) simulation" "('a, 'x) source_registry" "string \<rightharpoonup> ('a, 'x, 'w) query_source"

definition controller_step ::
  "'t time_ops \<Rightarrow> ('t::linorder, 'a, 'w, 'p) env \<Rightarrow> nat \<Rightarrow> ('t, 'a, 'x, 'w) controller_service \<Rightarrow>
   (('t, 'a, 'x, 'w) controller_service \<times> ('t, 'p, 'x) time_reply) outcome"
where
  "controller_step T E fuel svc =
     (case svc of
        ControllerNotStarted \<Rightarrow> Done (svc, TimeErrorReply simulation_not_started_error)
      | ControllerStarted sim events queries \<Rightarrow>
          (case step E fuel sim of
             Panicked \<Rightarrow> Panicked
           | OutOfFuel \<Rightarrow> OutOfFuel
           | Done (sim', r) \<Rightarrow>
               Done (ControllerStarted sim' events queries,
                 (case r of
                    Inl e \<Rightarrow> TimeErrorReply (map_execution_error e)
                  | Inr _ \<Rightarrow> time_of T (sched_time (sim_sched sim'))))))"

text \<open>
  \<open>step_until\<close>: every error of the simulation is reported as a past deadline when the deadline
  is a time, and as what it is when it is a duration.
\<close>

definition controller_step_until ::
  "'t time_ops \<Rightarrow> ('t::linorder, 'a, 'w, 'p) env \<Rightarrow> nat \<Rightarrow> nat \<Rightarrow> request_deadline option \<Rightarrow>
   ('t, 'a, 'x, 'w) controller_service \<Rightarrow> (('t, 'a, 'x, 'w) controller_service \<times> ('t, 'p, 'x) time_reply) outcome"
where
  "controller_step_until T E steps fuel deadline svc =
     (case svc of
        ControllerNotStarted \<Rightarrow> Done (svc, TimeErrorReply simulation_not_started_error)
      | ControllerStarted sim events queries \<Rightarrow>
          (let past = to_error InvalidDeadlineCode (Literal ''the specified deadline lies in the past'');
               run = (\<lambda>d err.
                 (case step_until E steps fuel d sim of
                    Panicked \<Rightarrow> Panicked
                  | OutOfFuel \<Rightarrow> OutOfFuel
                  | Done (sim', r) \<Rightarrow>
                      Done (ControllerStarted sim' events queries,
                        (case r of
                           Inl e \<Rightarrow> TimeErrorReply (err e)
                         | Inr _ \<Rightarrow> time_of T (sched_time (sim_sched sim'))))))
           in case deadline of
                None \<Rightarrow> Done (svc, TimeErrorReply (to_error MissingArgument (Literal ''missing deadline argument'')))
              | Some (DeadlineTime ts) \<Rightarrow>
                  (case timestamp_to_monotonic T ts of
                     None \<Rightarrow> Done (svc, TimeErrorReply (to_error InvalidTime (Literal ''out-of-range nanosecond field'')))
                   | Some time \<Rightarrow> run (At time) (\<lambda>_. past))
              | Some (DeadlineDuration d) \<Rightarrow>
                  (case to_positive_duration d of
                     None \<Rightarrow> Done (svc, TimeErrorReply past)
                   | Some duration \<Rightarrow> run (After duration) map_execution_error)))"

definition controller_process_event ::
  "('t::linorder, 'a, 'w, 'p) env \<Rightarrow> string \<Rightarrow> bytes \<Rightarrow> ('t, 'a, 'x, 'w) controller_service \<Rightarrow>
   (('t, 'a, 'x, 'w) controller_service \<times> ('t, 'p, 'x) schedule_reply) option"
where
  "controller_process_event E source_name event svc =
     (case svc of
        ControllerNotStarted \<Rightarrow> Some (svc, ErrorReply simulation_not_started_error)
      | ControllerStarted sim events queries \<Rightarrow>
          (case events source_name of
             None \<Rightarrow> Some (svc, ErrorReply (to_error SourceNotFound
               (Literal (''no source is registered with the name '' @ quoted_braces))))
           | Some src \<Rightarrow>
               (case source_event src event of
                  Inl x \<Rightarrow> Some (svc, ErrorReply (to_error InvalidMessage
                    (Format (''the event could not be deserialized as type '' @ quoted_braces @ '': {}'')
                       [StrArg (src_event_type_name src), CodecArg x])))
                | Inr action \<Rightarrow>
                    do { (sim', r) \<leftarrow> sim_process E action sim;
                         Some (ControllerStarted sim' events queries,
                           (case r of Inl e \<Rightarrow> ErrorReply (map_execution_error e) | Inr _ \<Rightarrow> EmptyReply)) })))"

definition no_reply_message :: string where
  "no_reply_message = ''a reply to the query was expected but none was available; maybe the target model was not added to the simulation?''"

definition controller_process_query ::
  "('t::linorder, 'a, 'w, 'p) env \<Rightarrow> string \<Rightarrow> bytes \<Rightarrow> ('t, 'a, 'x, 'w) controller_service \<Rightarrow>
   (('t, 'a, 'x, 'w) controller_service \<times> bytes list \<times> ('t, 'p, 'x) error option) option"
where
  "controller_process_query E source_name request svc =
     (case svc of
        ControllerNotStarted \<Rightarrow> Some (svc, [], Some simulation_not_started_error)
      | ControllerStarted sim events queries \<Rightarrow>
          (case queries source_name of
             None \<Rightarrow> Some (svc, [], Some (to_error SourceNotFound
               (Literal (''no source is registered with the name '' @ quoted_braces))))
           | Some src \<Rightarrow>
               (case qsrc_decode src request of
                  Inl x \<Rightarrow> Some (svc, [], Some (to_error InvalidMessage
                    (Format (''the request could not be deserialized as type '' @ quoted_braces @ '': {}'')
                       [StrArg (qsrc_request_type_name src), CodecArg x])))
                | Inr query \<Rightarrow>
                    do { (sim', r) \<leftarrow> sim_process E (OnceAction query) sim;
                         (let svc' = ControllerStarted sim' events queries in
                          case r of
                            Inl e \<Rightarrow> Some (svc', [], Some (map_execution_error e))
                          | Inr _ \<Rightarrow>
                              (case qsrc_take_collect src (sim_world sim') of
                                 None \<Rightarrow> Some (svc', [], Some (to_error SimulationBadQuery (Literal no_reply_message)))
                               | Some (Inl x) \<Rightarrow> Some (svc', [], Some (to_error InvalidMessage
                                   (Format (''the reply could not be serialized as type '' @ quoted_braces @ '': {}'')
                                      [StrArg (qsrc_reply_type_name src), CodecArg x])))
                               | Some (Inr replies) \<Rightarrow> Some (svc', replies, None))) })))"

section \<open>The monitor service\<close>

datatype ('e, 'x) monitor_service = MonitorNotStarted | MonitorStarted "'e sink_registry" "'e \<Rightarrow> 'x + bytes" "string \<Rightarrow> string"

definition sink_not_found :: "string \<Rightarrow> ('t, 'p, 'x) error" where
  "sink_not_found sink_name = to_error SinkNotFound
     (Format (''no sink is registered with the name '' @ quoted_braces) [StrArg sink_name])"

text \<open>\<open>None\<close> is a call that does not return.\<close>

definition read_events ::
  "string \<Rightarrow> ('e, 'x) monitor_service \<Rightarrow> (('e, 'x) monitor_service \<times> bytes list \<times> ('t, 'p, 'x) error option) option"
where
  "read_events sink_name svc =
     (case svc of
        MonitorNotStarted \<Rightarrow> Some (svc, [], Some simulation_not_started_error)
      | MonitorStarted sinks enc type_name \<Rightarrow>
          (case sinks sink_name of
             None \<Rightarrow> Some (svc, [], Some (sink_not_found sink_name))
           | Some sink \<Rightarrow>
               do { (sink', r) \<leftarrow> sink_collect enc sink;
                    (let svc' = MonitorStarted (sinks(sink_name \<mapsto> sink')) enc type_name in
                     case r of
                       Inl x \<Rightarrow> Some (svc', [], Some (to_error InvalidMessage
                         (Format (''the event could not be serialized from type '' @ quoted_braces @ '': {}'')
                            [StrArg (type_name sink_name), CodecArg x])))
                     | Inr events \<Rightarrow> Some (svc', events, None)) }))"

definition service_open_sink ::
  "string \<Rightarrow> ('e, 'x) monitor_service \<Rightarrow> ('e, 'x) monitor_service \<times> ('t, 'p, 'x) error option"
where
  "service_open_sink sink_name svc =
     (case svc of
        MonitorNotStarted \<Rightarrow> (svc, Some simulation_not_started_error)
      | MonitorStarted sinks enc type_name \<Rightarrow>
          (case sinks sink_name of
             Some sink \<Rightarrow> (MonitorStarted (sinks(sink_name \<mapsto> sink_open sink)) enc type_name, None)
           | None \<Rightarrow> (svc, Some (sink_not_found sink_name))))"

definition service_close_sink ::
  "string \<Rightarrow> ('e, 'x) monitor_service \<Rightarrow> ('e, 'x) monitor_service \<times> ('t, 'p, 'x) error option"
where
  "service_close_sink sink_name svc =
     (case svc of
        MonitorNotStarted \<Rightarrow> (svc, Some simulation_not_started_error)
      | MonitorStarted sinks enc type_name \<Rightarrow>
          (case sinks sink_name of
             Some sink \<Rightarrow> (MonitorStarted (sinks(sink_name \<mapsto> sink_close sink)) enc type_name, None)
           | None \<Rightarrow> (svc, Some (sink_not_found sink_name))))"

section \<open>The initialization service\<close>

text \<open>What the user's generator does with a decoded configuration.\<close>

datatype ('s, 't, 'p, 'x) generated =
    GenPanicked "string option"
  | GenDecodeError 'x
  | GenError "('t, 'p) simulation_error"
  | Generated 's

definition service_init :: "(bytes \<Rightarrow> ('s, 't, 'p, 'x) generated) \<Rightarrow> bytes \<Rightarrow> ('t, 'p, 'x) error option \<times> 's option" where
  "service_init sim_gen cfg =
     (case sim_gen cfg of
        GenPanicked panic_msg \<Rightarrow>
          (Some (to_error InitializerPanic
             (case panic_msg of
                Some m \<Rightarrow> Format ''the simulation initializer has panicked with the message `{}`'' [StrArg m]
              | None \<Rightarrow> Literal ''the simulation initializer has panicked'')), None)
      | GenDecodeError x \<Rightarrow>
          (Some (to_error InvalidMessage
             (Format ''the initializer configuration could not be deserialized: {}'' [CodecArg x])), None)
      | GenError e \<Rightarrow> (Some (map_simulation_error e), None)
      | Generated bench \<Rightarrow> (None, Some bench))"

end
