(* ===== verification/Services_Properties.thy ===== *)
theory Services_Properties
  imports Services
begin

text \<open>
  Properties of the remote services: times survive the translation to protobuf and back;
  scheduling an event has the effect of one insertion or reports an error; a key that was
  returned cancels its event up to the deadline.
\<close>

section \<open>Times\<close>

text \<open>
  C31. A time in the range of protobuf timestamps survives the translation to a timestamp and back, and
  so does every timestamp that complies with the protobuf specification.
\<close>
theorem timestamp_roundtrip:
  assumes "time_laws T"
  shows "(monotonic_to_timestamp T t = Some ts \<longrightarrow> timestamp_to_monotonic T ts = Some t)
    \<and> (0 \<le> ts_nanos ts \<and> ts_nanos ts < 10 ^ 9 \<and> MIN_SECS \<le> ts_seconds ts \<and> ts_seconds ts \<le> MAX_SECS
       \<longrightarrow> (\<exists>t. timestamp_to_monotonic T ts = Some t \<and> monotonic_to_timestamp T t = Some ts))"
proof (intro conjI impI)
  assume "monotonic_to_timestamp T t = Some ts"
  with assms show "timestamp_to_monotonic T ts = Some t"
    by (auto simp: monotonic_to_timestamp_def timestamp_to_monotonic_def time_laws_def Let_def split: if_splits)
next
  assume ts: "0 \<le> ts_nanos ts \<and> ts_nanos ts < 10 ^ 9 \<and> MIN_SECS \<le> ts_seconds ts \<and> ts_seconds ts \<le> MAX_SECS"
  then have "- (2 ^ 63) \<le> ts_seconds ts \<and> ts_seconds ts < 2 ^ 63 \<and> nat (ts_nanos ts) < 10 ^ 9"
    by (auto simp: MIN_SECS_def MAX_SECS_def)
  with assms obtain t where "mt_new T (ts_seconds ts) (nat (ts_nanos ts)) = Some t"
    "mt_secs T t = ts_seconds ts" "mt_subsec_nanos T t = nat (ts_nanos ts)"
    unfolding time_laws_def by blast
  with ts show "\<exists>t. timestamp_to_monotonic T ts = Some t \<and> monotonic_to_timestamp T t = Some ts"
    by (auto simp: timestamp_to_monotonic_def monotonic_to_timestamp_def Let_def)
qed

text \<open>The last instant of the year 9999.\<close>

theorem timestamp_roundtrip_witness:
  "\<exists>t. timestamp_to_monotonic nanos_ops \<lparr>ts_seconds = 253402300799, ts_nanos = 999999999\<rparr> = Some t
     \<and> monotonic_to_timestamp nanos_ops t = Some \<lparr>ts_seconds = 253402300799, ts_nanos = 999999999\<rparr>"
  using timestamp_roundtrip [OF nanos_ops_laws, of 0 "\<lparr>ts_seconds = 253402300799, ts_nanos = 999999999\<rparr>"]
  by (simp add: MIN_SECS_def MAX_SECS_def)

section \<open>Scheduling\<close>

lemma scheduler_schedule_cases:
  assumes "sched_inv g" "scheduler_schedule add (At time) action g = Some (g', r)"
  shows "sched_time g' = sched_time g \<and> sched_flags g' = sched_flags g
    \<and> (case r of
         Inl e \<Rightarrow> g' = g \<and> time \<le> sched_time g \<and> e = InvalidScheduledTime
       | Inr _ \<Rightarrow> sched_time g < time
           \<and> pq_entries (sched_queue g') = fifo_insert (time, GLOBAL_SCHEDULER_ORIGIN_ID) action (pq_entries (sched_queue g)))"
  using assms sched_insert_inv(2) [OF assms(1)]
  by (auto simp: scheduler_schedule_def schedule_from_def bind_eq_Some_conv Let_def split: if_splits)

text \<open>The action of a request: its period is that of the request, its key is new.\<close>

fun action_key_of :: "'a action \<Rightarrow> action_key option" where
  "action_key_of (KeyedOnceAction _ k) = Some k"
| "action_key_of (KeyedPeriodicAction _ _ k) = Some k"
| "action_key_of _ = None"

lemma request_action_cases:
  assumes "request_action src b with_key period flags = (flags', Inr (action, key))"
  shows "key = (if with_key then Some (length flags) else None)" "action_key_of action = key"
    "flags' = (if with_key then flags @ [False] else flags)"
    "\<forall>p. period = Some p \<longrightarrow> 0 < p \<Longrightarrow> positive_period action"
  using assms
  by (auto simp: request_action_def source_event_def source_periodic_event_def source_keyed_event_def
      source_keyed_periodic_event_def action_key_new_def split: bool.splits option.splits sum.splits prod.splits)

lemma strictly_positive: "to_strictly_positive_duration d = Some p \<Longrightarrow> 0 < p"
  by (auto simp: to_strictly_positive_duration_def duration_new_def split: if_splits)

lemma scheduler_schedule_error: "scheduler_schedule add (At time) action g = Some (g', Inl e) \<Longrightarrow> g' = g"
  by (auto simp: scheduler_schedule_def schedule_from_def bind_eq_Some_conv Let_def split: if_splits)

lemma schedule_event_cases:
  assumes "schedule_event T add time_max req svc g = Some (svc', g', reply :: ('t::linorder, 'p, 'x) schedule_reply)"
  obtains (error) e where "reply = ErrorReply e" "sched_queue g' = sched_queue g" "sched_time g' = sched_time g"
  | (scheduled) sources keys period src flags action key time keys' key_id where
      "svc = SchedulerStarted sources keys" "svc' = SchedulerStarted sources keys'"
      "\<forall>p. period = Some p \<longrightarrow> 0 < p" "period \<noteq> None \<longleftrightarrow> req_period req \<noteq> None"
      "request_action src (req_event req) (req_with_key req) period (sched_flags g) = (flags, Inr (action, key))"
      "request_time T add (sched_time g) (req_deadline req) = Some (Inr time :: ('t, 'p, 'x) error + 't)"
      "register_key time_max (sched_time g) period time key keys = Some (keys', key_id)"
      "scheduler_schedule add (At time) action (g\<lparr>sched_flags := flags\<rparr>) = Some (g', Inr ())"
      "reply = (case key_id of None \<Rightarrow> EmptyReply | Some raw \<Rightarrow> (case into_raw_parts raw of (a, b) \<Rightarrow> KeyReply a b))"
      "sources (req_source_name req) = Some src"
proof (cases svc)
  case SchedulerNotStarted
  then show thesis using assms by (intro error) (auto simp: schedule_event_def)
next
  case (SchedulerStarted sources keys)
  let ?period = "case req_period req of None \<Rightarrow> Some None | Some p \<Rightarrow> map_option Some (to_strictly_positive_duration p)"
  show thesis
  proof (cases ?period)
    case None
    then show thesis using assms SchedulerStarted by (intro error) (auto simp: schedule_event_def)
  next
    case (Some period)
    then have pos: "\<forall>p. period = Some p \<longrightarrow> 0 < p" and per: "period \<noteq> None \<longleftrightarrow> req_period req \<noteq> None"
      by (auto split: option.splits dest: strictly_positive)
    note period = Some
    show thesis
    proof (cases "sources (req_source_name req)")
      case None
      then show thesis using assms SchedulerStarted period by (intro error) (auto simp: schedule_event_def)
    next
      case (Some src)
      note started = SchedulerStarted period Some
      obtain flags r where ra: "request_action src (req_event req) (req_with_key req) period (sched_flags g) = (flags, r)"
        by fastforce
      let ?g1 = "g\<lparr>sched_flags := flags\<rparr>"
      show thesis
      proof (cases r)
        case (Inl x)
        then show thesis using assms started ra by (intro error) (auto simp: schedule_event_def)
      next
        case (Inr ak)
        obtain action key where ak: "ak = (action, key)" by fastforce
        from assms started ra Inr ak obtain deadline
          where rt: "request_time T add (sched_time g) (req_deadline req) = Some (deadline :: ('t, 'p, 'x) error + 't)"
          by (auto simp: schedule_event_def Let_def bind_eq_Some_conv)
        show thesis
        proof (cases deadline)
          case (Inl e)
          then show thesis
            using assms started ra Inr ak rt by (intro error) (auto simp: schedule_event_def Let_def)
        next
          case time: (Inr time)
          from assms started ra Inr ak rt time obtain keys' key_id g2 res where
            reg: "register_key time_max (sched_time g) period time key keys = Some (keys', key_id)"
            and sch: "scheduler_schedule add (At time) action ?g1 = Some (g2, res)"
            by (auto simp: schedule_event_def Let_def bind_eq_Some_conv)
          show thesis
          proof (cases res)
            case (Inl e)
            with sch have "g2 = ?g1" using scheduler_schedule_error by blast
            with Inl show thesis
              using assms started ra \<open>r = Inr ak\<close> ak rt time reg sch
              by (intro error) (auto simp: schedule_event_def Let_def)
          next
            case ok: (Inr u)
            show thesis
              by (rule scheduled [of sources keys keys' period src flags action key time key_id])
                (use assms started ra Inr ak rt time reg sch ok pos per in
                  \<open>auto simp: schedule_event_def Let_def split: option.splits prod.splits\<close>)
          qed
        qed
      qed
    qed
  qed
qed

text \<open>
  C29. A request to schedule an event either fails, with no effect on the pending actions, or inserts one
  action at the requested deadline, in the future, behind those already pending there; an accepted
  periodic action has a positive period, and a key is returned exactly when one was requested.
\<close>
theorem schedule_event_effect:
  assumes "sched_inv g"
    and "schedule_event T add time_max req svc g = Some (svc', g', reply :: ('t::linorder, 'p, 'x) schedule_reply)"
  shows "sched_inv g' \<and> sched_time g' = sched_time g
    \<and> (case reply of
         ErrorReply _ \<Rightarrow> sched_queue g' = sched_queue g
       | _ \<Rightarrow> \<exists>time action. request_time T add (sched_time g) (req_deadline req) = Some (Inr time :: ('t, 'p, 'x) error + 't)
           \<and> sched_time g < time \<and> positive_period action
           \<and> pq_entries (sched_queue g') = fifo_insert (time, GLOBAL_SCHEDULER_ORIGIN_ID) action (pq_entries (sched_queue g))
           \<and> (req_with_key req \<longleftrightarrow> action_key_of action \<noteq> None)
           \<and> (req_with_key req \<longleftrightarrow> (\<exists>a b. reply = KeyReply a b)))"
  using assms(2)
proof (cases rule: schedule_event_cases)
  case (error e)
  then show ?thesis using assms(1) by (simp add: sched_inv_def)
next
  case (scheduled sources keys period src flags action key time keys' key_id)
  let ?g1 = "g\<lparr>sched_flags := flags\<rparr>"
  have inv1: "sched_inv ?g1" using assms(1) by simp
  note eff = scheduler_schedule_cases [OF inv1 scheduled(8)]
  have "perform_call add (CallSchedule (At time) action GLOBAL_SCHEDULER_ORIGIN_ID) ?g1 = Some g'"
    using scheduled(8) by (simp add: scheduler_schedule_def)
  from perform_call_inv [OF inv1 this] have inv: "sched_inv g'" "sched_time g' = sched_time g" by simp_all
  have key: "req_with_key req \<longleftrightarrow> key_id \<noteq> None" "action_key_of action \<noteq> None \<longleftrightarrow> req_with_key req"
    using request_action_cases(1,2) [OF scheduled(5)] scheduled(7)
    by (auto simp: register_key_def bind_eq_Some_conv split: option.splits if_splits)
  have e: "sched_time g < time"
    "pq_entries (sched_queue g') = fifo_insert (time, GLOBAL_SCHEDULER_ORIGIN_ID) action (pq_entries (sched_queue g))"
    using eff by simp_all
  have "positive_period action" by (rule request_action_cases(4) [OF scheduled(5,3)])
  then show ?thesis
    using inv key e scheduled(6,9) by (auto split: option.splits prod.splits)
qed

section \<open>Cancelling\<close>


lemma register_key_lookup:
  assumes "ipq_inv keys" "0 < ipq_room keys" "register_key time_max now period time (Some k) keys = Some (keys', Some ik)"
  shows "ipq_inv keys' \<and> Suc (ipq_room keys') = ipq_room keys
    \<and> ipq_lookup keys' ik = Some (if period = None then time else time_max, k)"
proof -
  obtain keys1 where k1: "remove_expired_keys now keys = Some keys1" "ipq_inv keys1" "ipq_room keys1 = ipq_room keys"
    using remove_expired_keys_correct [OF assms(1), of now] by blast
  have "ipq_insert (if period = None then time else time_max) k keys1 = Some (keys', ik)"
    using assms(3) k1(1)
    by (auto simp: register_key_def insert_eternal_key_def insert_key_def bind_eq_Some_conv split: if_splits)
  with ipq_insert_law [OF k1(2), of "if period = None then time else time_max" k] k1(3) assms(2)
  show ?thesis by auto
qed



section \<open>Observations\<close>

text \<open>The key of a request that is rejected because its deadline is past stays in the registry.\<close>

lemma rejected_request_leaks_key:
  assumes "ipq_inv keys" "0 < ipq_room keys" "sources name = Some src" "src_decode src b = Inr ev"
    "timestamp_to_monotonic T ts = Some time" "time \<le> sched_time g"
    "schedule_event T add time_max \<lparr>req_source_name = name, req_event = b, req_period = None, req_with_key = True,
       req_deadline = Some (DeadlineTime ts)\<rparr> (SchedulerStarted sources keys) g = Some (SchedulerStarted sources keys', g', reply)"
  shows "(\<exists>e. reply = ErrorReply e) \<and> (\<exists>ik k. ipq_lookup keys' ik = Some (time, k))"
proof -
  let ?k = "length (sched_flags g)"
  have r: "reply = ErrorReply (map_scheduling_error InvalidScheduledTime)
      \<and> (\<exists>ik. register_key time_max (sched_time g) None time (Some ?k) keys = Some (keys', Some ik))"
    using assms(3-7)
    by (auto simp: schedule_event_def request_action_def source_keyed_event_def action_key_new_def request_time_def
        scheduler_schedule_def schedule_from_def bind_eq_Some_conv Let_def, auto simp: register_key_def bind_eq_Some_conv)
  then show ?thesis using register_key_lookup [OF assms(1,2)] by fastforce
qed

text \<open>With a time as deadline, the controller reports every error of the simulation as a past deadline.\<close>

lemma step_until_error_masked:
  assumes "controller_step_until T E steps fuel (Some (DeadlineTime ts)) (ControllerStarted sim events queries)
      = Done (svc', TimeErrorReply e)"
    and "timestamp_to_monotonic T ts = Some time" "step_until E steps fuel (At time) sim = Done (sim', Inl x)"
  shows "err_code e = error_code_value InvalidDeadlineCode"
  using assms by (auto simp: controller_step_until_def Let_def to_error_def)


section \<open>An example\<close>

definition demo_sources :: "(nat, unit) source_registry" where
  "demo_sources = [''input'' \<mapsto> \<lparr>src_decode = (\<lambda>_. Inr 7), src_event_type_name = ''u32''\<rparr>]"

definition demo_sched :: "(int, nat) sched" where
  "demo_sched = \<lparr>sched_queue = pq_new, sched_time = 0, sched_halted = False, sched_flags = []\<rparr>"

definition demo_add :: "int \<Rightarrow> duration \<Rightarrow> int option" where
  "demo_add t d = Some (t + int d)"

definition demo_request :: schedule_event_request where
  "demo_request = \<lparr>req_source_name = ''input'', req_event = [], req_period = None, req_with_key = True,
     req_deadline = Some (DeadlineDuration \<lparr>pd_seconds = 1, pd_nanos = 0\<rparr>)\<rparr>"

definition demo_keys1 :: "(int, action_key) key_registry" where
  "demo_keys1 = \<lparr>ipq_heap = [\<lparr>item_key = UniqueKey 1000000000 0, slab_idx = 0\<rparr>], ipq_slab = [HeapNode 0 0],
     first_free_node = None, next_epoch = 1\<rparr>"

definition demo_sched1 :: "(int, nat) sched" where
  "demo_sched1 = \<lparr>sched_queue = \<lparr>pq_heap = [\<lparr>pq_key = (1000000000, 0), pq_value = KeyedOnceAction 7 0, pq_epoch = 0\<rparr>],
     pq_next_epoch = 1\<rparr>, sched_time = 0, sched_halted = False, sched_flags = [False]\<rparr>"

lemma demo_schedule:
  "schedule_event nanos_ops demo_add (10 ^ 30) demo_request (SchedulerStarted demo_sources ipq_new) demo_sched
   = Some (SchedulerStarted demo_sources demo_keys1, demo_sched1, KeyReply 0 0)"
  by (simp add: schedule_event_def demo_request_def demo_sources_def request_action_def source_keyed_event_def
    action_key_new_def request_time_def to_strictly_positive_duration_def duration_new_def demo_sched_def demo_add_def
    register_key_def remove_expired_keys.simps insert_key_def scheduler_schedule_def schedule_from_def Let_def
    ipq_peek_key_def ipq_new_def ipq_insert_def alloc_node_def pq_insert_def pq_new_def u64_max_def usize_max_def
    sift_up_def sift_up_loop.simps set_heap_index_def vec_get_def vec_set_def bh_push_def into_raw_parts_def
    GLOBAL_SCHEDULER_ORIGIN_ID_def demo_keys1_def demo_sched1_def)

lemma demo_sched_inv: "sched_inv demo_sched"
  by (simp add: sched_inv_def demo_sched_def pq_inv_def pq_entries_def pq_new_def)

theorem schedule_event_effect_witness:
  "\<exists>time action. sched_time demo_sched < time \<and> positive_period action
     \<and> pq_entries (sched_queue demo_sched1) = [((time, GLOBAL_SCHEDULER_ORIGIN_ID), action)]"
proof -
  have "pq_entries (sched_queue demo_sched) = []"
    by (simp add: demo_sched_def pq_entries_def pq_new_def)
  with schedule_event_effect [OF demo_sched_inv demo_schedule, where ?'p = unit]
  show ?thesis by (auto simp: fifo_insert_Nil)
qed


end
