(* ===== verification/Sync_Cell.thy ===== *)
theory Sync_Cell
  imports Monotonic_Time
begin

text \<open>
  The synchronized cell of \<open>util/sync_cell.rs\<close> (a sequence lock) with the tearable time of
  \<open>time/monotonic_time.rs\<close>, in which the simulation publishes its current time: one writer, any
  number of readers, and a value stored in two words that are accessed separately.

  The writer and the readers are cut at their atomic accesses; \<open>cell_step\<close> interleaves them.
  The sequence count is a 64-bit word that wraps around.  The ghost field \<open>cell_history\<close> is the
  list of the values written, the last one first; \<open>cell_fault\<close> is set if a torn load panics.
\<close>

unbundle bit_operations_syntax

section \<open>Data\<close>

datatype cell_writer =
    CwIdle
  | CwOdd usize int nat \<comment> \<open>the sequence count is odd\<close>
  | CwSecs usize nat \<comment> \<open>the seconds have been stored\<close>
  | CwNanos usize \<comment> \<open>the nanoseconds have been stored\<close>

datatype 't cell_reader =
    CrIdle
  | CrSeq usize \<comment> \<open>an even sequence count has been loaded\<close>
  | CrSecs usize int \<comment> \<open>the seconds have been loaded\<close>
  | CrValue usize 't \<comment> \<open>the value has been loaded\<close>

datatype 't cell_label = CellTau | CellRead nat 't | CellReadError nat

record 't cell_sys =
  cell_secs :: int
  cell_nanos :: nat
  cell_sequence :: usize
  cell_writer :: cell_writer
  cell_readers :: "nat \<Rightarrow> 't cell_reader"
  cell_fault :: bool
  cell_history :: "'t list"

text \<open>\<open>TearableAtomicTime::new\<close> and \<open>SyncCell::new\<close>.\<close>

definition cell_new :: "'t time_ops \<Rightarrow> 't \<Rightarrow> 't cell_sys" where
  "cell_new T t = \<lparr>cell_secs = mt_secs T t, cell_nanos = mt_subsec_nanos T t, cell_sequence = 0,
     cell_writer = CwIdle, cell_readers = (\<lambda>_. CrIdle), cell_fault = False, cell_history = [t]\<rparr>"

section \<open>Writer\<close>

definition cell_read :: "'t time_ops \<Rightarrow> 't cell_sys \<Rightarrow> 't option" where
  "cell_read T s = mt_new T (cell_secs s) (cell_nanos s)"

definition cell_write_begin :: "'t time_ops \<Rightarrow> 't \<Rightarrow> 't cell_sys \<Rightarrow> 't cell_sys" where
  "cell_write_begin T t s =
     (let seq = cell_sequence s in
      s\<lparr>cell_sequence := seq + 1, cell_writer := CwOdd seq (mt_secs T t) (mt_subsec_nanos T t),
        cell_history := t # cell_history s\<rparr>)"

definition store_secs :: "usize \<Rightarrow> int \<Rightarrow> nat \<Rightarrow> 't cell_sys \<Rightarrow> 't cell_sys" where
  "store_secs seq x n s = s\<lparr>cell_secs := x, cell_writer := CwSecs seq n\<rparr>"

definition store_nanos :: "usize \<Rightarrow> nat \<Rightarrow> 't cell_sys \<Rightarrow> 't cell_sys" where
  "store_nanos seq n s = s\<lparr>cell_nanos := n, cell_writer := CwNanos seq\<rparr>"

definition cell_write_end :: "usize \<Rightarrow> 't cell_sys \<Rightarrow> 't cell_sys" where
  "cell_write_end seq s = s\<lparr>cell_sequence := seq + 2, cell_writer := CwIdle\<rparr>"

section \<open>Readers\<close>

definition update_reader :: "nat \<Rightarrow> 't cell_reader \<Rightarrow> 't cell_sys \<Rightarrow> 't cell_sys" where
  "update_reader i r s = s\<lparr>cell_readers := (cell_readers s)(i := r)\<rparr>"

definition load_sequence :: "nat \<Rightarrow> 't cell_sys \<Rightarrow> 't cell_label \<times> 't cell_sys" where
  "load_sequence i s =
     (let seq = cell_sequence s in
      if seq AND 1 \<noteq> 0 then (CellReadError i, s) else (CellTau, update_reader i (CrSeq seq) s))"

definition load_secs :: "nat \<Rightarrow> usize \<Rightarrow> 't cell_sys \<Rightarrow> 't cell_sys" where
  "load_secs i seq s = update_reader i (CrSecs seq (cell_secs s)) s"

definition load_nanos :: "'t time_ops \<Rightarrow> nat \<Rightarrow> usize \<Rightarrow> int \<Rightarrow> 't cell_sys \<Rightarrow> 't cell_sys" where
  "load_nanos T i seq x s =
     (case mt_new T x (cell_nanos s) of
        None \<Rightarrow> s\<lparr>cell_fault := True\<rparr>
      | Some t \<Rightarrow> update_reader i (CrValue seq t) s)"

definition check_sequence :: "nat \<Rightarrow> usize \<Rightarrow> 't \<Rightarrow> 't cell_sys \<Rightarrow> 't cell_label \<times> 't cell_sys" where
  "check_sequence i seq t s =
     (let new_seq = cell_sequence s in
      (if new_seq = seq then CellRead i t else CellReadError i, update_reader i CrIdle s))"

section \<open>Interleaving\<close>

inductive cell_step :: "'t time_ops \<Rightarrow> 't cell_sys \<Rightarrow> 't cell_label \<Rightarrow> 't cell_sys \<Rightarrow> bool" for T where
  wbegin: "cell_writer s = CwIdle \<Longrightarrow> cell_step T s CellTau (cell_write_begin T t s)"
| wsecs: "cell_writer s = CwOdd seq x n \<Longrightarrow> cell_step T s CellTau (store_secs seq x n s)"
| wnanos: "cell_writer s = CwSecs seq n \<Longrightarrow> cell_step T s CellTau (store_nanos seq n s)"
| wend: "cell_writer s = CwNanos seq \<Longrightarrow> cell_step T s CellTau (cell_write_end seq s)"
| rseq: "cell_readers s i = CrIdle \<Longrightarrow> load_sequence i s = (l, s') \<Longrightarrow> cell_step T s l s'"
| rsecs: "cell_readers s i = CrSeq seq \<Longrightarrow> cell_step T s CellTau (load_secs i seq s)"
| rnanos: "cell_readers s i = CrSecs seq x \<Longrightarrow> cell_step T s CellTau (load_nanos T i seq x s)"
| rcheck: "cell_readers s i = CrValue seq t \<Longrightarrow> check_sequence i seq t s = (l, s') \<Longrightarrow> cell_step T s l s'"

inductive cell_reach :: "'t time_ops \<Rightarrow> 't cell_sys \<Rightarrow> bool" for T where
  created: "cell_reach T (cell_new T t)"
| stepped: "cell_reach T s \<Longrightarrow> cell_step T s l s' \<Longrightarrow> cell_reach T s'"

section \<open>Invariant\<close>

text \<open>The number of writes that have begun, and whether one is in progress.\<close>

definition writes :: "'t cell_sys \<Rightarrow> nat" where
  "writes s = length (cell_history s) - 1"

definition in_progress :: "'t cell_sys \<Rightarrow> bool" where
  "in_progress s \<longleftrightarrow> cell_writer s \<noteq> CwIdle"

definition completed :: "'t cell_sys \<Rightarrow> nat" where
  "completed s = (if in_progress s then writes s - 1 else writes s)"

text \<open>The sequence count when \<open>n\<close> writes are complete.\<close>

definition even_seq :: "nat \<Rightarrow> usize" where
  "even_seq n = of_nat (2 * n)"

fun writer_ok :: "'t time_ops \<Rightarrow> 't cell_sys \<Rightarrow> cell_writer \<Rightarrow> bool" where
  "writer_ok T s CwIdle \<longleftrightarrow> cell_sequence s = even_seq (writes s)
     \<and> cell_secs s = mt_secs T (hd (cell_history s)) \<and> cell_nanos s = mt_subsec_nanos T (hd (cell_history s))"
| "writer_ok T s (CwOdd seq x n) \<longleftrightarrow> 0 < writes s \<and> seq = even_seq (writes s - 1) \<and> cell_sequence s = seq + 1
     \<and> x = mt_secs T (hd (cell_history s)) \<and> n = mt_subsec_nanos T (hd (cell_history s))"
| "writer_ok T s (CwSecs seq n) \<longleftrightarrow> 0 < writes s \<and> seq = even_seq (writes s - 1) \<and> cell_sequence s = seq + 1
     \<and> cell_secs s = mt_secs T (hd (cell_history s)) \<and> n = mt_subsec_nanos T (hd (cell_history s))"
| "writer_ok T s (CwNanos seq) \<longleftrightarrow> 0 < writes s \<and> seq = even_seq (writes s - 1) \<and> cell_sequence s = seq + 1
     \<and> cell_secs s = mt_secs T (hd (cell_history s)) \<and> cell_nanos s = mt_subsec_nanos T (hd (cell_history s))"

text \<open>
  What a reader has loaded was loaded after \<open>n\<close> complete writes; as long as no other write has begun, it is the
  last value.
\<close>

fun reader_ok :: "'t time_ops \<Rightarrow> 't cell_sys \<Rightarrow> 't cell_reader \<Rightarrow> bool" where
  "reader_ok T s CrIdle \<longleftrightarrow> True"
| "reader_ok T s (CrSeq seq) \<longleftrightarrow> (\<exists>n \<le> completed s. seq = even_seq n)"
| "reader_ok T s (CrSecs seq x) \<longleftrightarrow> (\<exists>n \<le> completed s. seq = even_seq n
     \<and> (n = completed s \<and> \<not> in_progress s \<longrightarrow> x = cell_secs s)) \<and> (\<exists>t. x = mt_secs T t)"
| "reader_ok T s (CrValue seq t) \<longleftrightarrow> (\<exists>n \<le> completed s. seq = even_seq n
     \<and> (n = completed s \<and> \<not> in_progress s \<longrightarrow> Some t = mt_new T (cell_secs s) (cell_nanos s)))"

definition cell_inv :: "'t time_ops \<Rightarrow> 't cell_sys \<Rightarrow> bool" where
  "cell_inv T s \<longleftrightarrow> \<not> cell_fault s \<and> cell_history s \<noteq> [] \<and> writer_ok T s (cell_writer s)
     \<and> (\<exists>t. cell_secs s = mt_secs T t) \<and> (\<exists>t. cell_nanos s = mt_subsec_nanos T t)
     \<and> (\<forall>i. reader_ok T s (cell_readers s i))"


section \<open>Every step keeps the invariant\<close>

lemma even_seq_and: "even_seq n AND 1 = 0" "(even_seq n + 1) AND 1 = 1"
proof -
  have "even (even_seq n)" unfolding even_seq_def by simp
  then show "even_seq n AND 1 = 0" "(even_seq n + 1) AND 1 = 1"
    by (simp_all add: and_one_eq mod_2_eq_odd)
qed

lemma even_seq_Suc: "even_seq n + 2 = even_seq (Suc n)"
  by (simp add: even_seq_def)

lemma even_seq_inj: "n < 2 ^ 63 \<Longrightarrow> m < 2 ^ 63 \<Longrightarrow> even_seq n = even_seq m \<longleftrightarrow> n = m"
  unfolding even_seq_def by (subst word_of_nat_eq) auto

text \<open>A step of the writer makes what the readers have loaded outdated, or does not affect it.\<close>

lemma reader_ok_writer:
  assumes "reader_ok T s r" "completed s \<le> completed s'"
    "\<not> in_progress s' \<Longrightarrow> completed s < completed s'"
  shows "reader_ok T s' r"
proof -
  have old: "n \<le> completed s' \<and> \<not> (n = completed s' \<and> \<not> in_progress s')" if "n \<le> completed s" for n
    using that assms(2,3) by linarith
  show ?thesis
  proof (cases r)
    case (CrSeq seq)
    then show ?thesis using assms(1) old by auto
  next
    case (CrSecs seq x)
    then obtain n where "n \<le> completed s" "seq = even_seq n" "\<exists>t. x = mt_secs T t" using assms(1) by auto
    with old [of n] CrSecs show ?thesis by auto
  next
    case (CrValue seq t)
    then obtain n where "n \<le> completed s" "seq = even_seq n" using assms(1) by auto
    with old [of n] CrValue show ?thesis by auto
  qed simp
qed

lemma writer_step_inv:
  assumes "cell_inv T s"
  shows "cell_writer s = CwIdle \<Longrightarrow> cell_inv T (cell_write_begin T t s)"
    "cell_writer s = CwOdd seq x n \<Longrightarrow> cell_inv T (store_secs seq x n s)"
    "cell_writer s = CwSecs seq n \<Longrightarrow> cell_inv T (store_nanos seq n s)"
    "cell_writer s = CwNanos seq \<Longrightarrow> cell_inv T (cell_write_end seq s)"
proof -
  have rd: "reader_ok T s (cell_readers s i)" for i using assms by (simp add: cell_inv_def)
  { assume w: "cell_writer s = CwIdle"
    let ?s' = "cell_write_begin T t s"
    have "reader_ok T ?s' (cell_readers s i)" for i
      using rd by (rule reader_ok_writer)
        (use assms w in \<open>auto simp: completed_def in_progress_def writes_def cell_write_begin_def Let_def\<close>)
    moreover have "0 < length (cell_history s)" using assms by (simp add: cell_inv_def)
    ultimately show "cell_inv T ?s'"
      using assms w by (auto simp: cell_inv_def cell_write_begin_def Let_def writes_def) }
  { assume w: "cell_writer s = CwOdd seq x n"
    let ?s' = "store_secs seq x n s"
    have "reader_ok T ?s' (cell_readers s i)" for i
      using rd by (rule reader_ok_writer)
        (use assms w in \<open>auto simp: completed_def in_progress_def writes_def store_secs_def\<close>)
    then show "cell_inv T ?s'"
      using assms w by (auto simp: cell_inv_def store_secs_def writes_def) }
  { assume w: "cell_writer s = CwSecs seq n"
    let ?s' = "store_nanos seq n s"
    have "reader_ok T ?s' (cell_readers s i)" for i
      using rd by (rule reader_ok_writer)
        (use assms w in \<open>auto simp: completed_def in_progress_def writes_def store_nanos_def\<close>)
    then show "cell_inv T ?s'"
      using assms w by (auto simp: cell_inv_def store_nanos_def writes_def) }
  { assume w: "cell_writer s = CwNanos seq"
    let ?s' = "cell_write_end seq s"
    have "reader_ok T ?s' (cell_readers s i)" for i
      using rd by (rule reader_ok_writer)
        (use assms w in \<open>auto simp: completed_def in_progress_def writes_def cell_write_end_def cell_inv_def\<close>)
    moreover have "0 < writes s" "seq = even_seq (writes s - 1)" using assms w by (simp_all add: cell_inv_def)
    moreover from this have "seq + 2 = even_seq (writes s)"
      using even_seq_Suc [of "writes s - 1"] by simp
    ultimately show "cell_inv T ?s'"
      using assms w by (auto simp: cell_inv_def cell_write_end_def, auto simp: writes_def) }
qed

lemma reader_ok_update [simp]: "reader_ok T (update_reader i r s) = reader_ok T s"
proof (rule ext)
  show "reader_ok T (update_reader i r s) x = reader_ok T s x" for x
    by (cases x) (simp_all add: update_reader_def completed_def in_progress_def writes_def)
qed

lemma update_reader_inv:
  assumes "cell_inv T s" "reader_ok T s r"
  shows "cell_inv T (update_reader i r s)"
proof -
  have "writer_ok T (update_reader i r s) w = writer_ok T s w" for w
    by (cases w) (simp_all add: update_reader_def writes_def)
  then show ?thesis using assms by (simp add: cell_inv_def) (simp add: update_reader_def)
qed

lemma reader_step_inv:
  assumes laws: "time_laws T" and inv: "cell_inv T s"
  shows "cell_inv T (snd (load_sequence i s))"
    "cell_readers s i = CrSeq seq \<Longrightarrow> cell_inv T (load_secs i seq s)"
    "cell_readers s i = CrSecs seq x \<Longrightarrow> cell_inv T (load_nanos T i seq x s)"
    "cell_inv T (snd (check_sequence i seq t s))"
proof -
  have rd: "reader_ok T s (cell_readers s i)" for i using inv by (simp add: cell_inv_def)
  have "\<exists>n \<le> completed s. cell_sequence s = even_seq n" if "cell_sequence s AND 1 = 0"
    using inv that even_seq_and(2) [of "writes s - 1"]
    by (cases "cell_writer s") (auto simp: cell_inv_def completed_def in_progress_def)
  then show "cell_inv T (snd (load_sequence i s))"
    using inv by (auto simp: load_sequence_def Let_def intro: update_reader_inv)
  show "cell_inv T (load_secs i seq s)" if "cell_readers s i = CrSeq seq"
    unfolding load_secs_def using inv
  proof (rule update_reader_inv)
    show "reader_ok T s (CrSecs seq (cell_secs s))"
      using rd [of i] that inv by (auto simp: cell_inv_def)
  qed
  show "cell_inv T (load_nanos T i seq x s)" if r: "cell_readers s i = CrSecs seq x"
  proof -
    obtain u v where uv: "x = mt_secs T u" "cell_nanos s = mt_subsec_nanos T v"
      using rd [of i] r inv by (auto simp: cell_inv_def)
    then obtain t where t: "mt_new T x (cell_nanos s) = Some t"
      using time_laws_torn [OF laws] by metis
    have "reader_ok T s (CrValue seq t)"
      using rd [of i] r t by auto
    from update_reader_inv [OF inv this] t show ?thesis by (simp add: load_nanos_def)
  qed
  show "cell_inv T (snd (check_sequence i seq t s))"
    using inv by (simp add: check_sequence_def Let_def update_reader_inv)
qed

lemma cell_reach_inv:
  assumes "time_laws T" "cell_reach T s"
  shows "cell_inv T s"
  using assms(2)
proof (induction rule: cell_reach.induct)
  case (created t)
  show ?case by (auto simp: cell_inv_def cell_new_def writes_def even_seq_def)
next
  case (stepped s l s')
  from stepped(2) show ?case
  proof cases
    case (rseq i)
    then show ?thesis using reader_step_inv(1) [OF assms(1) stepped(3)] by (metis snd_conv)
  next
    case (rcheck i seq t)
    then show ?thesis using reader_step_inv(4) [OF assms(1) stepped(3)] by (metis snd_conv)
  qed (use writer_step_inv [OF stepped(3)] reader_step_inv(2,3) [OF assms(1) stepped(3)] in blast)+
qed

text \<open>
  C34. A read of the synchronized time that succeeds returns the value of the last write, at an instant when no
  write is in progress: it is never torn nor outdated, and no load of a torn value panics, whatever the
  interleaving of the writer and the readers (for fewer than \<open>2 ^ 63\<close> writes, when the sequence count
  wraps around).
\<close>
theorem sync_cell_read:
  assumes "time_laws T" "cell_reach T s" "writes s < 2 ^ 63"
  shows "\<not> cell_fault s
    \<and> (cell_step T s (CellRead i t) s' \<longrightarrow> \<not> in_progress s \<and> cell_history s' = cell_history s \<and> t = hd (cell_history s))"
proof (intro conjI impI)
  have inv: "cell_inv T s" using assms(1,2) by (rule cell_reach_inv)
  then show "\<not> cell_fault s" by (simp add: cell_inv_def)
  assume "cell_step T s (CellRead i t) s'"
  then obtain seq where r: "cell_readers s i = CrValue seq t" "cell_sequence s = seq" "s' = update_reader i CrIdle s"
    by cases (auto simp: load_sequence_def check_sequence_def Let_def split: if_splits)
  from r inv obtain n where n: "n \<le> completed s" "seq = even_seq n"
    "n = completed s \<and> \<not> in_progress s \<longrightarrow> Some t = mt_new T (cell_secs s) (cell_nanos s)"
    unfolding cell_inv_def by (metis reader_ok.simps(4))
  have np: "\<not> in_progress s"
    using inv r(2) n(2) even_seq_and [of "writes s - 1"] even_seq_and [of n]
    by (cases "cell_writer s") (auto simp: cell_inv_def in_progress_def)
  then show "\<not> in_progress s" .
  from np have idle: "cell_writer s = CwIdle" by (simp add: in_progress_def)
  show "cell_history s' = cell_history s" by (simp add: r(3) update_reader_def)
  have "even_seq n = even_seq (writes s)" using inv idle r(2) n(2) by (simp add: cell_inv_def)
  moreover have "n < 2 ^ 63" using n(1) np assms(3) by (simp add: completed_def)
  ultimately have "n = completed s" using np assms(3) by (simp add: even_seq_inj completed_def)
  with n(3) np inv idle have "Some t = mt_new T (mt_secs T (hd (cell_history s))) (mt_subsec_nanos T (hd (cell_history s)))"
    by (simp add: cell_inv_def)
  then show "t = hd (cell_history s)"
    by (simp add: time_laws_inverse [OF assms(1)])
qed


text \<open>A reader loads the value between two writes.\<close>

definition read_cell :: "int cell_sys" where
  "read_cell = load_nanos nanos_ops 0 0 0 (load_secs 0 0 (snd (load_sequence 0 (cell_new nanos_ops 7))))"

theorem sync_cell_read_witness:
  "cell_step nanos_ops read_cell (CellRead 0 7) (update_reader 0 CrIdle read_cell) \<and> hd (cell_history read_cell) = 7"
proof -
  let ?s0 = "cell_new nanos_ops 7 :: int cell_sys" and ?s1 = "snd (load_sequence 0 (cell_new nanos_ops 7)) :: int cell_sys"
  have s1: "cell_reach nanos_ops ?s1"
    by (rule cell_reach.stepped [OF cell_reach.created [of _ 7] cell_step.rseq [where i = 0 and l = CellTau]])
      (simp_all add: cell_new_def load_sequence_def)
  have "cell_reach nanos_ops (load_secs 0 0 ?s1)"
    by (rule cell_reach.stepped [OF s1 cell_step.rsecs])
      (simp add: cell_new_def load_sequence_def update_reader_def)
  then have r: "cell_reach nanos_ops read_cell"
    unfolding read_cell_def
    by (rule cell_reach.stepped [OF _ cell_step.rnanos])
      (simp add: cell_new_def load_sequence_def load_secs_def update_reader_def nanos_ops_def)
  have st: "cell_step nanos_ops read_cell (CellRead 0 7) (update_reader 0 CrIdle read_cell)"
    by (rule cell_step.rcheck [where i = 0 and seq = 0 and t = 7])
      (simp_all add: read_cell_def check_sequence_def load_nanos_def cell_new_def load_sequence_def load_secs_def
        update_reader_def nanos_ops_def)
  moreover have "writes read_cell < 2 ^ 63"
    by (simp add: writes_def read_cell_def load_nanos_def cell_new_def load_sequence_def load_secs_def
        update_reader_def nanos_ops_def)
  ultimately show ?thesis using sync_cell_read [OF nanos_ops_laws r] by metis
qed

end
