(* ===== verification/Slot.thy ===== *)
theory Slot
  imports Nexo_Prelude
begin

text \<open>
  The one-shot slot of \<open>util/slot.rs\<close>, which carries the reply of a query: a writer that
  writes at most one value or is dropped, a reader that may try to read at any time and is
  dropped, and the shared cell that the last of them deallocates.

  The operations are cut at their accesses of the cell: a handle between two accesses is in
  a state of type \<open>slot_writer\<close> or \<open>slot_reader\<close>, and \<open>slot_step\<close> interleaves both.  The content
  is \<open>Some\<close> when it is initialized.  \<open>slot_fault\<close> is set by an access after the deallocation, a
  second deallocation, a read or a drop of an uninitialized value, and a write over a value.
  The ghost fields \<open>slot_written\<close>, \<open>slot_reads\<close> and \<open>slot_drops\<close> record the value given to the
  writer, the values returned to the reader and the number of values dropped.
\<close>

unbundle bit_operations_syntax

section \<open>Data\<close>

definition SLOT_CLOSED :: usize where
  "SLOT_CLOSED = 1"

definition SLOT_POPULATED :: usize where
  "SLOT_POPULATED = 2"

datatype slot_writer =
    WLive
  | WWrote \<comment> \<open>the value has been written\<close>
  | WDropValue \<comment> \<open>the reader is gone, the value is to be dropped\<close>
  | WLoaded usize \<comment> \<open>drop: the state has been loaded\<close>
  | WFree bool \<comment> \<open>the cell is to be deallocated, after \<open>write\<close> or \<open>drop\<close>\<close>
  | WGone

datatype slot_reader =
    RLive
  | RFound \<comment> \<open>\<open>try_read\<close> has seen a value\<close>
  | RTake \<comment> \<open>the flag has been cleared\<close>
  | RLoaded usize \<comment> \<open>drop: the state has been loaded\<close>
  | RClean usize \<comment> \<open>the writer is gone, the cell is to be cleaned up\<close>
  | RFree
  | RGone

datatype 'v slot_label =
    SlotTau | WriteOk | WriteFailed | ReadOk 'v | ReadNoValue | ReadClosed

record 'v slot_sys =
  slot_state :: usize
  slot_value :: "'v option"
  slot_alive :: bool
  slot_writer :: slot_writer
  slot_reader :: slot_reader
  slot_fault :: bool
  slot_written :: "'v option"
  slot_reads :: "'v list"
  slot_drops :: nat

definition slot_init :: "'v slot_sys" where
  "slot_init = \<lparr>slot_state = 0, slot_value = None, slot_alive = True, slot_writer = WLive, slot_reader = RLive,
     slot_fault = False, slot_written = None, slot_reads = [], slot_drops = 0\<rparr>"

text \<open>An access of the cell.\<close>

definition slot_touch :: "'v slot_sys \<Rightarrow> 'v slot_sys" where
  "slot_touch s = s\<lparr>slot_fault := slot_fault s \<or> \<not> slot_alive s\<rparr>"

definition drop_value_in_place :: "'v slot_sys \<Rightarrow> 'v slot_sys" where
  "drop_value_in_place s =
     (let s = slot_touch s in
      case slot_value s of
        None \<Rightarrow> s\<lparr>slot_fault := True\<rparr>
      | Some _ \<Rightarrow> s\<lparr>slot_value := None, slot_drops := Suc (slot_drops s)\<rparr>)"

definition slot_dealloc :: "'v slot_sys \<Rightarrow> 'v slot_sys" where
  "slot_dealloc s = (slot_touch s)\<lparr>slot_alive := False\<rparr>"

section \<open>Writer\<close>

definition write_value :: "'v \<Rightarrow> 'v slot_sys \<Rightarrow> 'v slot_sys" where
  "write_value v s =
     (let s = slot_touch s in
      s\<lparr>slot_fault := slot_fault s \<or> slot_value s \<noteq> None, slot_value := Some v, slot_written := Some v,
        slot_writer := WWrote\<rparr>)"

definition write_publish :: "'v slot_sys \<Rightarrow> 'v slot_label \<times> 'v slot_sys" where
  "write_publish s =
     (let s = slot_touch s; state = slot_state s; s = s\<lparr>slot_state := state OR (SLOT_POPULATED OR SLOT_CLOSED)\<rparr> in
      if state AND SLOT_CLOSED = SLOT_CLOSED then (SlotTau, s\<lparr>slot_writer := WDropValue\<rparr>)
      else (WriteOk, s\<lparr>slot_writer := WGone\<rparr>))"

definition write_drop_value :: "'v slot_sys \<Rightarrow> 'v slot_sys" where
  "write_drop_value s = (drop_value_in_place s)\<lparr>slot_writer := WFree True\<rparr>"

definition writer_free :: "bool \<Rightarrow> 'v slot_sys \<Rightarrow> 'v slot_label \<times> 'v slot_sys" where
  "writer_free writing s = (if writing then WriteFailed else SlotTau, (slot_dealloc s)\<lparr>slot_writer := WGone\<rparr>)"

definition writer_drop_load :: "'v slot_sys \<Rightarrow> 'v slot_sys" where
  "writer_drop_load s = (slot_touch s)\<lparr>slot_writer := WLoaded (slot_state s)\<rparr>"

definition writer_drop_close :: "usize \<Rightarrow> 'v slot_sys \<Rightarrow> 'v slot_sys" where
  "writer_drop_close state s =
     (if state AND SLOT_CLOSED = 0 then
        (let s = slot_touch s; old = slot_state s; s = s\<lparr>slot_state := old OR SLOT_CLOSED\<rparr> in
         if old AND SLOT_CLOSED = 0 then s\<lparr>slot_writer := WGone\<rparr> else s\<lparr>slot_writer := WFree False\<rparr>)
      else s\<lparr>slot_writer := WFree False\<rparr>)"

section \<open>Reader\<close>

definition try_read_load :: "'v slot_sys \<Rightarrow> 'v slot_label \<times> 'v slot_sys" where
  "try_read_load s =
     (let s = slot_touch s; state = slot_state s in
      if state = 0 then (ReadNoValue, s)
      else if state AND SLOT_POPULATED = 0 then (ReadClosed, s)
      else (SlotTau, s\<lparr>slot_reader := RFound\<rparr>))"

definition try_read_clear :: "'v slot_sys \<Rightarrow> 'v slot_sys" where
  "try_read_clear s = (slot_touch s)\<lparr>slot_state := SLOT_CLOSED, slot_reader := RTake\<rparr>"

definition read_value :: "'v slot_sys \<Rightarrow> 'v slot_label \<times> 'v slot_sys" where
  "read_value s =
     (let s = slot_touch s in
      case slot_value s of
        None \<Rightarrow> (SlotTau, s\<lparr>slot_fault := True\<rparr>)
      | Some v \<Rightarrow> (ReadOk v, s\<lparr>slot_value := None, slot_reads := slot_reads s @ [v], slot_reader := RLive\<rparr>))"

definition reader_drop_load :: "'v slot_sys \<Rightarrow> 'v slot_sys" where
  "reader_drop_load s = (slot_touch s)\<lparr>slot_reader := RLoaded (slot_state s)\<rparr>"

definition reader_drop_close :: "usize \<Rightarrow> 'v slot_sys \<Rightarrow> 'v slot_sys" where
  "reader_drop_close state s =
     (if state AND SLOT_CLOSED = 0 then
        (let s = slot_touch s; old = slot_state s; s = s\<lparr>slot_state := old OR SLOT_CLOSED\<rparr> in
         if old AND SLOT_CLOSED = 0 then s\<lparr>slot_reader := RGone\<rparr> else s\<lparr>slot_reader := RClean old\<rparr>)
      else s\<lparr>slot_reader := RClean state\<rparr>)"

definition reader_clean :: "usize \<Rightarrow> 'v slot_sys \<Rightarrow> 'v slot_sys" where
  "reader_clean state s =
     (if state AND SLOT_POPULATED = SLOT_POPULATED then (drop_value_in_place s)\<lparr>slot_reader := RFree\<rparr>
      else s\<lparr>slot_reader := RFree\<rparr>)"

definition reader_free :: "'v slot_sys \<Rightarrow> 'v slot_sys" where
  "reader_free s = (slot_dealloc s)\<lparr>slot_reader := RGone\<rparr>"

section \<open>Interleaving\<close>

inductive slot_step :: "'v slot_sys \<Rightarrow> 'v slot_label \<Rightarrow> 'v slot_sys \<Rightarrow> bool" where
  wvalue: "slot_writer s = WLive \<Longrightarrow> slot_step s SlotTau (write_value v s)"
| publish: "slot_writer s = WWrote \<Longrightarrow> write_publish s = (l, s') \<Longrightarrow> slot_step s l s'"
| wdropvalue: "slot_writer s = WDropValue \<Longrightarrow> slot_step s SlotTau (write_drop_value s)"
| wfree: "slot_writer s = WFree b \<Longrightarrow> writer_free b s = (l, s') \<Longrightarrow> slot_step s l s'"
| wload: "slot_writer s = WLive \<Longrightarrow> slot_step s SlotTau (writer_drop_load s)"
| wclose: "slot_writer s = WLoaded st \<Longrightarrow> slot_step s SlotTau (writer_drop_close st s)"
| rload: "slot_reader s = RLive \<Longrightarrow> try_read_load s = (l, s') \<Longrightarrow> slot_step s l s'"
| rclear: "slot_reader s = RFound \<Longrightarrow> slot_step s SlotTau (try_read_clear s)"
| rtake: "slot_reader s = RTake \<Longrightarrow> read_value s = (l, s') \<Longrightarrow> slot_step s l s'"
| rdrop: "slot_reader s = RLive \<Longrightarrow> slot_step s SlotTau (reader_drop_load s)"
| rclose: "slot_reader s = RLoaded st \<Longrightarrow> slot_step s SlotTau (reader_drop_close st s)"
| rclean: "slot_reader s = RClean st \<Longrightarrow> slot_step s SlotTau (reader_clean st s)"
| rfree: "slot_reader s = RFree \<Longrightarrow> slot_step s SlotTau (reader_free s)"

inductive slot_reach :: "'v slot_sys \<Rightarrow> bool" where
  start: "slot_reach slot_init"
| step: "slot_reach s \<Longrightarrow> slot_step s l s' \<Longrightarrow> slot_reach s'"

text \<open>A call of \<open>try_read\<close> that is not interleaved with the writer.\<close>

definition try_read :: "'v slot_sys \<Rightarrow> 'v slot_label \<times> 'v slot_sys" where
  "try_read s =
     (case try_read_load s of
        (SlotTau, s1) \<Rightarrow> read_value (try_read_clear s1)
      | (l, s1) \<Rightarrow> (l, s1))"

section \<open>Invariant\<close>

text \<open>The states of the flags and of the content for the states of the two handles.\<close>

fun slot_table :: "slot_writer \<Rightarrow> slot_reader \<Rightarrow> usize \<Rightarrow> bool \<Rightarrow> bool \<Rightarrow> bool" where
  "slot_table WGone RGone st full live \<longleftrightarrow> \<not> full \<and> \<not> live"
| "slot_table WGone RLive st full live \<longleftrightarrow> live \<and> (st = 3 \<and> full \<or> st = 1 \<and> \<not> full)"
| "slot_table WGone RFound st full live \<longleftrightarrow> live \<and> st = 3 \<and> full"
| "slot_table WGone RTake st full live \<longleftrightarrow> live \<and> st = 1 \<and> full"
| "slot_table WGone (RLoaded x) st full live \<longleftrightarrow> live \<and> (st = 3 \<and> full \<or> st = 1 \<and> \<not> full) \<and> (x = st \<or> x = 0)"
| "slot_table WGone (RClean x) st full live \<longleftrightarrow> live \<and> (x = 3 \<and> full \<or> x = 1 \<and> \<not> full)"
| "slot_table WGone RFree st full live \<longleftrightarrow> live \<and> \<not> full"
| "slot_table WDropValue r st full live \<longleftrightarrow> r = RGone \<and> live \<and> full"
| "slot_table (WFree b) r st full live \<longleftrightarrow> r = RGone \<and> live \<and> \<not> full"
| "slot_table (WLoaded x) r st full live \<longleftrightarrow> live \<and> \<not> full
     \<and> (x = 0 \<and> st = 0 \<and> (r = RLive \<or> r = RLoaded 0) \<or> (x = 0 \<or> x = 1) \<and> st = 1 \<and> r = RGone)"
| "slot_table w r st full live \<longleftrightarrow> live \<and> (full \<longleftrightarrow> w = WWrote)
     \<and> (st = 0 \<and> (r = RLive \<or> r = RLoaded 0) \<or> st = 1 \<and> r = RGone)"

text \<open>The value given to the writer is in the cell, was read, or was dropped.\<close>

definition slot_account :: "'v slot_sys \<Rightarrow> bool" where
  "slot_account s \<longleftrightarrow>
     (slot_writer s = WLive \<longrightarrow> slot_written s = None)
   \<and> (0 < slot_drops s \<longrightarrow> slot_reader s = RFree \<or> slot_reader s = RGone)
   \<and> (case slot_written s of
        None \<Rightarrow> slot_value s = None \<and> slot_reads s = [] \<and> slot_drops s = 0
      | Some v \<Rightarrow>
          slot_value s = Some v \<and> slot_reads s = [] \<and> slot_drops s = 0
        \<or> slot_value s = None \<and> slot_reads s = [v] \<and> slot_drops s = 0
        \<or> slot_value s = None \<and> slot_reads s = [] \<and> slot_drops s = 1)"

definition slot_inv :: "'v slot_sys \<Rightarrow> bool" where
  "slot_inv s \<longleftrightarrow> \<not> slot_fault s \<and> slot_account s
     \<and> slot_table (slot_writer s) (slot_reader s) (slot_state s) (slot_value s \<noteq> None) (slot_alive s)"

lemmas slot_defs = slot_touch_def drop_value_in_place_def slot_dealloc_def write_value_def write_publish_def
  write_drop_value_def writer_free_def writer_drop_load_def writer_drop_close_def try_read_load_def
  try_read_clear_def read_value_def reader_drop_load_def reader_drop_close_def reader_clean_def reader_free_def
  SLOT_CLOSED_def SLOT_POPULATED_def Let_def

lemma writer_inv:
  assumes "slot_inv s"
  shows "slot_writer s = WLive \<Longrightarrow> slot_inv (write_value v s)"
    "slot_writer s = WWrote \<Longrightarrow> slot_inv (snd (write_publish s))"
    "slot_writer s = WDropValue \<Longrightarrow> slot_inv (write_drop_value s)"
    "slot_writer s = WFree b \<Longrightarrow> slot_inv (snd (writer_free b s))"
    "slot_writer s = WLive \<Longrightarrow> slot_inv (writer_drop_load s)"
    "slot_writer s = WLoaded st \<Longrightarrow> slot_inv (writer_drop_close st s)"
  using assms unfolding slot_inv_def
  by (cases "slot_reader s"; cases "slot_written s"; force simp add: slot_account_def slot_defs)+

lemma reader_inv:
  assumes "slot_inv s"
  shows "slot_reader s = RLive \<Longrightarrow> slot_inv (snd (try_read_load s))"
    "slot_reader s = RFound \<Longrightarrow> slot_inv (try_read_clear s)"
    "slot_reader s = RTake \<Longrightarrow> slot_inv (snd (read_value s))"
    "slot_reader s = RLive \<Longrightarrow> slot_inv (reader_drop_load s)"
    "slot_reader s = RLoaded st \<Longrightarrow> slot_inv (reader_drop_close st s)"
    "slot_reader s = RClean st \<Longrightarrow> slot_inv (reader_clean st s)"
    "slot_reader s = RFree \<Longrightarrow> slot_inv (reader_free s)"
  using assms unfolding slot_inv_def
  by (cases "slot_writer s"; cases "slot_written s"; force simp add: slot_account_def slot_defs)+

lemma slot_step_inv:
  assumes "slot_step s l s'" "slot_inv s"
  shows "slot_inv s'"
  using assms(1)
proof cases
  case publish
  then show ?thesis using writer_inv(2) [OF assms(2)] by (metis snd_conv)
next
  case (wfree b)
  then show ?thesis using writer_inv(4) [OF assms(2)] by (metis snd_conv)
next
  case rload
  then show ?thesis using reader_inv(1) [OF assms(2)] by (metis snd_conv)
next
  case rtake
  then show ?thesis using reader_inv(3) [OF assms(2)] by (metis snd_conv)
qed (use writer_inv [OF assms(2)] reader_inv [OF assms(2)] in blast)+

lemma slot_reach_inv: "slot_reach s \<Longrightarrow> slot_inv s"
proof (induction rule: slot_reach.induct)
  case start
  show ?case by (simp add: slot_inv_def slot_init_def slot_account_def)
next
  case (step s l s')
  then show ?case using slot_step_inv by blast
qed


section \<open>Properties\<close>

text \<open>What the reader is told: the value once, if it was written, otherwise whether the writer is gone.\<close>

definition expected_answer :: "'v slot_sys \<Rightarrow> 'v slot_label" where
  "expected_answer s =
     (if slot_writer s \<noteq> WGone then ReadNoValue
      else case slot_written s of
        Some v \<Rightarrow> if slot_reads s = [] then ReadOk v else ReadClosed
      | None \<Rightarrow> ReadClosed)"

lemma try_read_answer:
  assumes "slot_inv s" "slot_reader s = RLive"
  shows "fst (try_read s) = expected_answer s"
  using assms unfolding slot_inv_def
  by (cases "slot_writer s"; cases "slot_written s";
      force simp add: slot_account_def slot_defs try_read_def expected_answer_def)

text \<open>
  C35. Whatever the interleaving of the two handles of a slot: no access after the deallocation, no second
  deallocation, no read or drop of a missing value; the reader accesses the value only when the writer is
  gone; the written value is in the slot, or was returned once, or was dropped once; once both handles are
  gone the cell is freed and empty; and a live reader that tries to read is given the value once, told that
  there is none yet, or told that the slot is closed.
\<close>
theorem slot_contract:
  assumes "slot_reach s"
  shows "\<not> slot_fault s
    \<and> (slot_reader s = RTake \<or> (\<exists>st. slot_reader s = RClean st) \<longrightarrow> slot_writer s = WGone)
    \<and> length (slot_reads s) + slot_drops s + (if slot_value s = None then 0 else 1)
        = (if slot_written s = None then 0 else 1)
    \<and> set (slot_reads s) \<union> set_option (slot_value s) \<subseteq> set_option (slot_written s)
    \<and> (slot_writer s = WGone \<and> slot_reader s = RGone \<longrightarrow> \<not> slot_alive s \<and> slot_value s = None)
    \<and> (slot_reader s = RLive \<longrightarrow> fst (try_read s) = expected_answer s)"
proof -
  have inv: "slot_inv s" using assms by (rule slot_reach_inv)
  have acc: "length (slot_reads s) + slot_drops s + (if slot_value s = None then 0 else 1)
      = (if slot_written s = None then 0 else 1)"
    "set (slot_reads s) \<union> set_option (slot_value s) \<subseteq> set_option (slot_written s)"
    using inv by (auto simp: slot_inv_def slot_account_def split: option.splits)
  have tab: "slot_reader s = RTake \<or> (\<exists>st. slot_reader s = RClean st) \<longrightarrow> slot_writer s = WGone"
    "slot_writer s = WGone \<and> slot_reader s = RGone \<longrightarrow> \<not> slot_alive s \<and> slot_value s = None"
    using inv by (cases "slot_writer s"; auto simp: slot_inv_def)+
  from acc tab inv try_read_answer [OF inv] show ?thesis
    by (simp add: slot_inv_def)
qed

text \<open>A value is written; then it is read.\<close>

definition written_slot :: "nat slot_sys" where
  "written_slot = snd (write_publish (write_value 5 slot_init))"

theorem slot_contract_witness: "slot_reach written_slot \<and> fst (try_read written_slot) = ReadOk 5"
proof -
  have "slot_reach (write_value 5 slot_init)"
    by (rule slot_reach.step [OF slot_reach.start slot_step.wvalue]) (simp add: slot_init_def)
  moreover have "slot_step (write_value 5 slot_init) WriteOk written_slot"
    by (rule slot_step.publish) (simp_all add: written_slot_def slot_init_def slot_defs)
  ultimately have "slot_reach written_slot" by (rule slot_reach.step)
  moreover have "slot_reader written_slot = RLive" "expected_answer written_slot = ReadOk 5"
    by (simp_all add: written_slot_def slot_init_def slot_defs expected_answer_def)
  ultimately show ?thesis using slot_contract by metis
qed

end
