(* ===== verification/Injector.thy ===== *)
theory Injector
  imports Nexo_Prelude
begin

text \<open>
  The injector queue of the multi-threaded executor (\<open>executor/mt_executor/injector.rs\<close>): buckets
  of at most \<open>BUCKET_CAPACITY\<close> tasks, pushed and popped at the back, with single tasks collected
  in the bucket at the front, and a flag that lets workers skip the lock of an empty queue.

  An operation is one step: the buckets are only visible to the holder of the lock, and the flag is
  written before the lock is released, so that a reader of the flag sees an insertion when the flag
  is written.  The capacity is an argument; \<open>injector_wf\<close> is the well-formedness of the queue, which
  every operation keeps.
\<close>

section \<open>Buckets\<close>

type_synonym 'r bucket = "'r list"

definition bucket_new :: "'r bucket" where
  "bucket_new = []"

text \<open>\<open>Inl\<close> gives the task back when the bucket is full.\<close>

definition bucket_push :: "nat \<Rightarrow> 'r \<Rightarrow> 'r bucket \<Rightarrow> 'r + 'r bucket" where
  "bucket_push capacity task b = (if length b < capacity then Inr (b @ [task]) else Inl task)"

definition bucket_from_iter :: "nat \<Rightarrow> 'r list \<Rightarrow> 'r bucket" where
  "bucket_from_iter capacity tasks = take capacity tasks"

section \<open>The queue\<close>

record 'r injector =
  inj_inner :: "'r bucket list"
  inj_is_empty :: bool

definition injector_new :: "nat \<Rightarrow> 'r injector option" where
  "injector_new capacity = (if 1 \<le> capacity then Some \<lparr>inj_inner = [], inj_is_empty = True\<rparr> else None)"

text \<open>A bucket with one task; pushing onto a new bucket cannot fail provided the capacity is positive.\<close>

definition singleton_bucket :: "nat \<Rightarrow> 'r \<Rightarrow> 'r bucket" where
  "singleton_bucket capacity task =
     (case bucket_push capacity task bucket_new of Inr b \<Rightarrow> b | Inl _ \<Rightarrow> bucket_new)"

definition insert_task :: "nat \<Rightarrow> 'r \<Rightarrow> 'r injector \<Rightarrow> 'r injector" where
  "insert_task capacity task q =
     (case inj_inner q of
        b # bs \<Rightarrow>
          (case bucket_push capacity task b of
             Inr b' \<Rightarrow> q\<lparr>inj_inner := b' # bs\<rparr>
           | Inl task \<Rightarrow> q\<lparr>inj_inner := (singleton_bucket capacity task # bs) @ [b]\<rparr>)
      | [] \<Rightarrow> q\<lparr>inj_inner := [singleton_bucket capacity task], inj_is_empty := False\<rparr>)"

definition push_bucket :: "'r bucket \<Rightarrow> 'r injector \<Rightarrow> 'r injector" where
  "push_bucket b q =
     (let was_empty = (inj_inner q = []); q = q\<lparr>inj_inner := inj_inner q @ [b]\<rparr>
      in if was_empty then q\<lparr>inj_is_empty := False\<rparr> else q)"

definition pop_bucket :: "'r injector \<Rightarrow> 'r injector \<times> 'r bucket option" where
  "pop_bucket q =
     (if inj_is_empty q then (q, None)
      else
        let (inner, bucket) = (if inj_inner q = [] then ([], None) else (butlast (inj_inner q), Some (last (inj_inner q))));
            q = q\<lparr>inj_inner := inner\<rparr>
        in (if inner = [] then q\<lparr>inj_is_empty := True\<rparr> else q, bucket))"

definition injector_is_empty :: "'r injector \<Rightarrow> bool" where
  "injector_is_empty q = inj_is_empty q"

section \<open>Well-formedness and contents\<close>

definition injector_wf :: "nat \<Rightarrow> 'r injector \<Rightarrow> bool" where
  "injector_wf capacity q \<longleftrightarrow> 1 \<le> capacity \<and> (inj_is_empty q \<longleftrightarrow> inj_inner q = [])
     \<and> (\<forall>b \<in> set (inj_inner q). b \<noteq> [] \<and> length b \<le> capacity)"

definition injector_tasks :: "'r injector \<Rightarrow> 'r multiset" where
  "injector_tasks q = mset (concat (inj_inner q))"

lemma singleton_bucket_eq: "1 \<le> capacity \<Longrightarrow> singleton_bucket capacity task = [task]"
  by (simp add: singleton_bucket_def bucket_push_def bucket_new_def)

lemma injector_new_wf: "injector_new capacity = Some q \<Longrightarrow> injector_wf capacity q \<and> injector_tasks q = {#}"
  by (auto simp: injector_new_def injector_wf_def injector_tasks_def split: if_splits)

lemma insert_task_wf:
  assumes "injector_wf capacity q"
  shows "injector_wf capacity (insert_task capacity task q)"
    "injector_tasks (insert_task capacity task q) = add_mset task (injector_tasks q)"
  using assms
  by (auto simp: injector_wf_def insert_task_def injector_tasks_def singleton_bucket_eq bucket_push_def
      split: list.splits)

lemma push_bucket_wf:
  assumes "injector_wf capacity q" "b \<noteq> []" "length b \<le> capacity"
  shows "injector_wf capacity (push_bucket b q)" "injector_tasks (push_bucket b q) = mset b + injector_tasks q"
  using assms by (auto simp: injector_wf_def push_bucket_def injector_tasks_def Let_def)

lemma pop_bucket_wf:
  assumes "injector_wf capacity q"
  shows "case pop_bucket q of
      (q', None) \<Rightarrow> q' = q \<and> injector_tasks q = {#}
    | (q', Some b) \<Rightarrow> injector_wf capacity q' \<and> b \<noteq> [] \<and> length b \<le> capacity
        \<and> injector_tasks q = mset b + injector_tasks q'"
proof (cases "inj_inner q" rule: rev_cases)
  case Nil
  then show ?thesis using assms by (simp add: pop_bucket_def injector_wf_def injector_tasks_def)
next
  case (snoc bs b)
  then show ?thesis
    using assms by (auto simp: pop_bucket_def injector_wf_def injector_tasks_def Let_def)
qed

lemma injector_is_empty_iff: "injector_wf capacity q \<Longrightarrow> injector_is_empty q \<longleftrightarrow> injector_tasks q = {#}"
  by (cases "inj_inner q") (auto simp: injector_is_empty_def injector_wf_def injector_tasks_def)

lemma bucket_from_iter_length: "length (bucket_from_iter capacity tasks) \<le> capacity"
  by (simp add: bucket_from_iter_def)

section \<open>Sequences of operations\<close>

text \<open>The operations the executor and its workers perform, each with the bucket it returns.\<close>

datatype 'r injector_op = InsertTask 'r | PushBucket "'r bucket" | PopBucket

fun injector_step :: "nat \<Rightarrow> 'r injector_op \<Rightarrow> 'r injector \<Rightarrow> 'r injector \<times> 'r bucket option" where
  "injector_step capacity (InsertTask task) q = (insert_task capacity task q, None)"
| "injector_step capacity (PushBucket b) q = (push_bucket b q, None)"
| "injector_step capacity PopBucket q = pop_bucket q"

fun injector_run :: "nat \<Rightarrow> 'r injector_op list \<Rightarrow> 'r injector \<Rightarrow> 'r injector \<times> 'r bucket list" where
  "injector_run capacity [] q = (q, [])"
| "injector_run capacity (op # ops) q =
     (let (q, b) = injector_step capacity op q; (q, bs) = injector_run capacity ops q
      in (q, case b of None \<Rightarrow> bs | Some b \<Rightarrow> b # bs))"

text \<open>Workers push buckets collected from a full queue: not empty and within the capacity.\<close>

fun injector_op_ok :: "nat \<Rightarrow> 'r injector_op \<Rightarrow> bool" where
  "injector_op_ok capacity (PushBucket b) \<longleftrightarrow> b \<noteq> [] \<and> length b \<le> capacity"
| "injector_op_ok capacity _ \<longleftrightarrow> True"

fun injector_inserted :: "'r injector_op list \<Rightarrow> 'r list" where
  "injector_inserted [] = []"
| "injector_inserted (InsertTask task # ops) = task # injector_inserted ops"
| "injector_inserted (PushBucket b # ops) = b @ injector_inserted ops"
| "injector_inserted (PopBucket # ops) = injector_inserted ops"

lemma injector_run_wf:
  assumes "injector_wf capacity q" "\<forall>op \<in> set ops. injector_op_ok capacity op" "injector_run capacity ops q = (q', bs)"
  shows "injector_wf capacity q' \<and> (\<forall>b \<in> set bs. b \<noteq> [] \<and> length b \<le> capacity)
    \<and> mset (injector_inserted ops) + injector_tasks q = mset (concat bs) + injector_tasks q'"
  using assms
proof (induction ops arbitrary: q bs)
  case Nil
  then show ?case by simp
next
  case (Cons op ops)
  obtain q1 b where st: "injector_step capacity op q = (q1, b)" by force
  obtain bs1 where run: "injector_run capacity ops q1 = (q', bs1)"
      and bs: "bs = (case b of None \<Rightarrow> bs1 | Some b \<Rightarrow> b # bs1)"
    using Cons.prems(3) st by (auto split: prod.splits)
  show ?case
  proof (cases op)
    case (InsertTask task)
    then show ?thesis
      using Cons.IH [OF _ _ run] Cons.prems(1,2) st bs insert_task_wf [OF Cons.prems(1), of task] by auto
  next
    case (PushBucket b')
    then show ?thesis
      using Cons.IH [OF _ _ run] Cons.prems(1,2) st bs push_bucket_wf [OF Cons.prems(1), of b']
      by (auto simp: ac_simps)
  next
    case PopBucket
    then show ?thesis
      using Cons.IH [OF _ _ run] Cons.prems(1,2) st bs pop_bucket_wf [OF Cons.prems(1)] by (cases b) auto
  qed
qed

text \<open>
  C39. The type invariant of the injector queue and what it is worth: whatever sequence of operations
  starts from a new queue, the queue is well formed (no empty bucket, none above the capacity, the
  flag set exactly when there is no bucket), each bucket returned is one the queue could hold, the
  tasks inserted are those returned and those still queued, each as many times, and the test without
  lock of a queue tells whether it holds a task.
\<close>
theorem injector_well_formed:
  assumes "injector_new capacity = Some q0" "\<forall>op \<in> set ops. injector_op_ok capacity op"
    "injector_run capacity ops q0 = (q, bs)"
  shows "injector_wf capacity q \<and> (\<forall>b \<in> set bs. b \<noteq> [] \<and> length b \<le> capacity)
    \<and> mset (injector_inserted ops) = mset (concat bs) + injector_tasks q
    \<and> (injector_is_empty q \<longleftrightarrow> injector_tasks q = {#})"
proof -
  have "injector_wf capacity q0" "injector_tasks q0 = {#}"
    using injector_new_wf [OF assms(1)] by simp_all
  then show ?thesis using injector_run_wf [OF _ assms(2,3)] injector_is_empty_iff [of capacity q] by simp
qed

text \<open>
  Three tasks in a queue of buckets of two, and a bucket pushed by a worker: the bucket is popped first,
  then the full bucket that the third task moved to the back.
\<close>

theorem injector_well_formed_witness:
  "\<exists>q0 q. injector_new 2 = Some q0
    \<and> injector_run 2 [InsertTask 1, InsertTask 2, PushBucket [3], PopBucket, InsertTask 4, PopBucket] q0
        = (q, [[3 :: nat], [1, 2]])
    \<and> injector_wf 2 q \<and> mset [1, 2, 3, 4] = mset [3, 1, 2] + injector_tasks q \<and> \<not> injector_is_empty q"
proof -
  let ?ops = "[InsertTask (1 :: nat), InsertTask 2, PushBucket [3], PopBucket, InsertTask 4, PopBucket]"
  let ?new = "\<lparr>inj_inner = [], inj_is_empty = True\<rparr> :: nat injector"
    and ?q = "\<lparr>inj_inner = [[4]], inj_is_empty = False\<rparr> :: nat injector"
  have new: "injector_new 2 = Some ?new" by (simp add: injector_new_def)
  have run: "injector_run 2 ?ops ?new = (?q, [[3], [1, 2]])"
    by (simp add: insert_task_def push_bucket_def pop_bucket_def bucket_push_def singleton_bucket_def bucket_new_def)
  have ok: "\<forall>op \<in> set ?ops. injector_op_ok 2 op" by simp
  note r = injector_well_formed [OF new ok run]
  show ?thesis
    by (rule exI [of _ ?new], rule exI [of _ ?q]) (use new run r in \<open>simp add: injector_tasks_def\<close>)
qed

end
