(* ===== verification/Pool_Manager.thy ===== *)
theory Pool_Manager
  imports Bit_Search
begin

text \<open>
  The manager of the worker threads (\<open>executor/mt_executor/pool_manager.rs\<close>) and the random
  numbers it uses (\<open>util/rng.rs\<close>): the bit field of the active workers, the count of searching
  workers, the first panic, and the iterator over the stealers of the active workers.

  Each function below is one atomic access and the code up to the next; \<open>activate_worker\<close> and
  \<open>activate_worker_relaxed\<close>, which have several, are step functions on the state of their caller,
  of type \<open>activation\<close>.  Stealers are designated by the index of their
  worker.  Shifts by the width of a word and failed assertions are panics (\<open>None\<close>).
\<close>

section \<open>Random numbers\<close>

type_synonym u128 = "128 word"

definition rng_gen :: "u64 \<Rightarrow> u64 \<times> u64" where
  "rng_gen seed0 =
     (let seed = seed0 + 0xA0761D6478BD642F;
          t = (ucast seed :: u128) * ucast (seed XOR 0xE7037ED1A0B428DB)
      in (seed, ucast t XOR ucast (drop_bit 64 t)))"

definition gen_bounded :: "u64 \<Rightarrow> u64 \<Rightarrow> u64 \<times> u64" where
  "gen_bounded seed0 upper_bound =
     (let (seed, r) = rng_gen seed0 in (seed, ucast (drop_bit 64 ((ucast r :: u128) * ucast upper_bound))))"

section \<open>The pool\<close>

record 'p pool =
  pool_size :: nat
  active_workers :: usize
  searching_workers :: usize
  worker_panic :: "(nat option \<times> 'p) option"

definition pool_new :: "nat \<Rightarrow> 'p pool option" where
  "pool_new workers =
     (if 1 \<le> workers \<and> workers \<le> 64
      then Some \<lparr>pool_size = workers, active_workers = 0, searching_workers = 0, worker_panic = None\<rparr>
      else None)"

definition trailing_ones :: "usize \<Rightarrow> nat" where
  "trailing_ones w = length (takeWhile (bit w) [0 ..< 64])"

definition trailing_zeros :: "usize \<Rightarrow> nat" where
  "trailing_zeros w = length (takeWhile (\<lambda>i. \<not> bit w i) [0 ..< 64])"

definition worker_bit :: "nat \<Rightarrow> usize" where
  "worker_bit i = push_bit i 1"

definition begin_worker_search :: "'p pool \<Rightarrow> 'p pool" where
  "begin_worker_search p = p\<lparr>searching_workers := searching_workers p + 1\<rparr>"

definition end_worker_search :: "'p pool \<Rightarrow> 'p pool" where
  "end_worker_search p = p\<lparr>searching_workers := searching_workers p - 1\<rparr>"

text \<open>
  A caller of the activation functions: it loads the bit field, sets the bit of the first worker that
  seems idle, counts the worker as searching and unparks it; or it returns.  A step gives the pool, the
  next state of the caller and the worker unparked, if any.
\<close>

datatype activation = ActLoad | ActLoaded usize | ActSearch nat | ActNotify nat | ActReturn

definition claim_worker :: "nat \<Rightarrow> 'p pool \<Rightarrow> 'p pool \<times> activation" where
  "claim_worker first_idle_worker p =
     (let old = active_workers p; p = p\<lparr>active_workers := old OR worker_bit first_idle_worker\<rparr> in
      if old AND worker_bit first_idle_worker = 0 then (p, ActSearch first_idle_worker) else (p, ActLoaded old))"

fun activate_worker_relaxed :: "activation \<Rightarrow> 'p pool \<Rightarrow> 'p pool \<times> activation \<times> nat option" where
  "activate_worker_relaxed ActLoad p = (p, ActLoaded (active_workers p), None)"
| "activate_worker_relaxed (ActLoaded loaded) p =
     (let first_idle_worker = trailing_ones loaded in
      if pool_size p \<le> first_idle_worker then (p, ActReturn, None)
      else let (p, a) = claim_worker first_idle_worker p in (p, a, None))"
| "activate_worker_relaxed (ActSearch i) p = (begin_worker_search p, ActNotify i, None)"
| "activate_worker_relaxed (ActNotify i) p = (p, ActReturn, Some i)"
| "activate_worker_relaxed ActReturn p = (p, ActReturn, None)"

text \<open>\<open>activate_worker\<close> returns only once a second access to the bit field confirms that no worker is idle.\<close>

fun activate_worker :: "activation \<Rightarrow> 'p pool \<Rightarrow> 'p pool \<times> activation \<times> nat option" where
  "activate_worker ActLoad p = (p, ActLoaded (active_workers p), None)"
| "activate_worker (ActLoaded loaded) p =
     (let first_idle_worker = trailing_ones loaded in
      if pool_size p \<le> first_idle_worker then
        (if active_workers p = loaded then (p, ActReturn, None) else (p, ActLoaded (active_workers p), None))
      else let (p, a) = claim_worker first_idle_worker p in (p, a, None))"
| "activate_worker (ActSearch i) p = (begin_worker_search p, ActNotify i, None)"
| "activate_worker (ActNotify i) p = (p, ActReturn, Some i)"
| "activate_worker ActReturn p = (p, ActReturn, None)"

definition searching_worker_count :: "'p pool \<Rightarrow> usize" where
  "searching_worker_count p = searching_workers p"

definition try_set_worker_inactive :: "nat \<Rightarrow> 'p pool \<Rightarrow> ('p pool \<times> bool) option" where
  "try_set_worker_inactive worker_id p =
     (let active = active_workers p in
      if active AND worker_bit worker_id = 0 then None
      else if active = worker_bit worker_id then Some (p, False)
      else Some (p\<lparr>active_workers := active AND NOT (worker_bit worker_id)\<rparr>, True))"

definition set_all_workers_active :: "'p pool \<Rightarrow> 'p pool option" where
  "set_all_workers_active p =
     (if 64 - pool_size p < 64 then Some (p\<lparr>active_workers := drop_bit (64 - pool_size p) (NOT 0)\<rparr>) else None)"

definition set_all_workers_inactive :: "'p pool \<Rightarrow> 'p pool" where
  "set_all_workers_inactive p = p\<lparr>active_workers := 0\<rparr>"

definition pool_is_idle :: "'p pool \<Rightarrow> bool" where
  "pool_is_idle p \<longleftrightarrow> active_workers p = 0"

text \<open>Activating all the workers also unparks them all: the list of the workers to unpark.\<close>

definition activate_all_workers :: "'p pool \<Rightarrow> ('p pool \<times> nat list) option" where
  "activate_all_workers p = map_option (\<lambda>p. (p, [0 ..< pool_size p])) (set_all_workers_active p)"

definition register_panic :: "nat option \<Rightarrow> 'p \<Rightarrow> 'p pool \<Rightarrow> 'p pool" where
  "register_panic model_id payload p =
     (if worker_panic p = None then p\<lparr>worker_panic := Some (model_id, payload)\<rparr> else p)"

definition take_panic :: "'p pool \<Rightarrow> 'p pool \<times> (nat option \<times> 'p) option" where
  "take_panic p = (p\<lparr>worker_panic := None\<rparr>, worker_panic p)"

section \<open>Stealers\<close>

record stealers =
  st_count :: nat
  st_candidates :: usize
  st_next :: nat

text \<open>The iterator is created with the seed of the random numbers, which it advances.\<close>

definition stealers_new :: "usize \<Rightarrow> nat \<Rightarrow> u64 \<Rightarrow> (stealers \<times> u64) option" where
  "stealers_new candidates candidate_count seed =
     (if candidates = 0 then Some (\<lparr>st_count = candidate_count, st_candidates = 0, st_next = 0\<rparr>, seed)
      else
        let (seed', _) = rng_gen seed;
            next_candidate = unat (find_bit candidates (\<lambda>count. snd (gen_bounded seed count) + 1));
            lower_bits = candidates AND (push_bit next_candidate 1 - 1)
        in if candidate_count < next_candidate \<or> 64 \<le> candidate_count - next_candidate then None
           else Some (\<lparr>st_count = candidate_count,
             st_candidates = drop_bit next_candidate candidates OR push_bit (candidate_count - next_candidate) lower_bits,
             st_next = next_candidate\<rparr>, seed'))"

definition shuffled_stealers :: "nat option \<Rightarrow> u64 \<Rightarrow> 'p pool \<Rightarrow> (stealers \<times> u64) option" where
  "shuffled_stealers excluded_worker_id seed p =
     (let candidates = (case excluded_worker_id of
            None \<Rightarrow> active_workers p
          | Some i \<Rightarrow> active_workers p AND NOT (worker_bit i))
      in stealers_new candidates (pool_size p) seed)"

text \<open>\<open>Iterator::next\<close>: the index of the next stealer.\<close>

definition stealers_next :: "stealers \<Rightarrow> stealers \<times> nat option" where
  "stealers_next it =
     (if st_candidates it = 0 then (it, None)
      else
        let candidates = st_candidates it AND NOT 1; current_candidate = st_next it in
        if candidates \<noteq> 0 then
          let shift = trailing_zeros candidates; next = st_next it + shift in
          (it\<lparr>st_candidates := drop_bit shift candidates,
              st_next := (if st_count it \<le> next then next - st_count it else next)\<rparr>, Some current_candidate)
        else (it\<lparr>st_candidates := candidates\<rparr>, Some current_candidate))"

fun stealers_take :: "nat \<Rightarrow> stealers \<Rightarrow> nat list" where
  "stealers_take 0 it = []"
| "stealers_take (Suc n) it =
     (case stealers_next it of (_, None) \<Rightarrow> [] | (it', Some i) \<Rightarrow> i # stealers_take n it')"

section \<open>Bits of the workers\<close>

lemma bit_worker_bit: "bit (worker_bit i) j \<longleftrightarrow> j = i \<and> j < 64"
  by (auto simp: worker_bit_def bit_exp_iff)

lemma word_bits: "v = w \<longleftrightarrow> (\<forall>n < 64. bit v n = bit w n)" for v w :: u64
  by (auto intro: bit_word_eqI)

lemma and_worker_bit: "i < 64 \<Longrightarrow> w AND worker_bit i = 0 \<longleftrightarrow> \<not> bit w i"
  by (auto simp: word_bits bit_and_iff bit_worker_bit)

lemma bit_or_worker_bit: "bit (w OR worker_bit i) j \<longleftrightarrow> bit w j \<or> j = i \<and> j < 64"
  by (simp add: bit_or_iff bit_worker_bit)

lemma bit_clear_worker_bit: "bit (w AND NOT (worker_bit i)) j \<longleftrightarrow> bit w j \<and> j \<noteq> i"
  by (auto simp: bit_and_iff bit_not_iff bit_worker_bit possible_bit_def dest: bit_imp_le_length)

lemma takeWhile_upt:
  fixes P :: "nat \<Rightarrow> bool"
  shows "i < length (takeWhile P [0 ..< n]) \<Longrightarrow> P i"
    "length (takeWhile P [0 ..< n]) < n \<Longrightarrow> \<not> P (length (takeWhile P [0 ..< n]))"
proof -
  assume i: "i < length (takeWhile P [0 ..< n])"
  then have "takeWhile P [0 ..< n] ! i \<in> set (takeWhile P [0 ..< n])" by (rule nth_mem)
  then have "P (takeWhile P [0 ..< n] ! i)" by (blast dest: set_takeWhileD)
  moreover have "i < n" using i length_takeWhile_le [of P "[0 ..< n]"] by simp
  ultimately show "P i" using i by (simp add: takeWhile_nth)
next
  assume "length (takeWhile P [0 ..< n]) < n"
  with nth_length_takeWhile [of P "[0 ..< n]"] show "\<not> P (length (takeWhile P [0 ..< n]))" by simp
qed

lemma trailing_ones_idle: "trailing_ones w < 64 \<Longrightarrow> \<not> bit w (trailing_ones w)"
  unfolding trailing_ones_def by (rule takeWhile_upt(2))

lemma trailing_ones_active: "i < trailing_ones w \<Longrightarrow> bit w i"
  unfolding trailing_ones_def by (rule takeWhile_upt(1))

lemma last_worker: "i < 64 \<Longrightarrow> w = worker_bit i \<longleftrightarrow> (\<forall>j. bit w j \<longleftrightarrow> j = i)"
  using bit_imp_le_length [of w] by (auto simp: word_bits bit_worker_bit)

lemma trailing_zeros_bit:
  assumes "w \<noteq> 0"
  shows "trailing_zeros w < 64" "bit w (trailing_zeros w)" "i < trailing_zeros w \<Longrightarrow> \<not> bit w i"
proof -
  show below: "\<not> bit w i" if "i < trailing_zeros w" for i
    using that unfolding trailing_zeros_def by (rule takeWhile_upt(1) [where P = "\<lambda>i. \<not> bit w i"])
  obtain i where "bit w i" using assms by (auto simp: bit_eq_iff)
  then have "i < 64" using bit_imp_le_length by fastforce
  moreover have "trailing_zeros w \<le> i" using below \<open>bit w i\<close> by (meson not_le)
  ultimately show "trailing_zeros w < 64" by simp
  then show "bit w (trailing_zeros w)"
    unfolding trailing_zeros_def using takeWhile_upt(2) [of "\<lambda>i. \<not> bit w i" 64] by simp
qed

section \<open>The order of the stealers\<close>

text \<open>The workers the iterator still has to yield: the set bits, counted from the next worker around the pool.\<close>

definition around :: "nat \<Rightarrow> nat \<Rightarrow> usize \<Rightarrow> nat list" where
  "around n k w = map (\<lambda>j. (k + j) mod n) (filter (bit w) [0 ..< n])"

definition stealers_ok :: "stealers \<Rightarrow> bool" where
  "stealers_ok it \<longleftrightarrow> 0 < st_count it \<and> st_count it \<le> 64 \<and> st_next it < st_count it
     \<and> (\<forall>j. bit (st_candidates it) j \<longrightarrow> j < st_count it) \<and> (st_candidates it \<noteq> 0 \<longrightarrow> bit (st_candidates it) 0)"

lemma filter_upt_shift:
  assumes "\<forall>i < s. \<not> P i" "s \<le> n"
  shows "filter P [0 ..< n] = map (\<lambda>j. j + s) (filter (\<lambda>j. P (j + s)) [0 ..< n - s])"
proof -
  have "[0 ..< n] = [0 ..< s] @ map (\<lambda>j. j + s) [0 ..< n - s]"
    using assms(2) upt_add_eq_append [of 0 s "n - s"] by (simp add: map_add_upt)
  moreover have "filter P [0 ..< s] = []" using assms(1) by (simp add: filter_empty_conv)
  ultimately show ?thesis by (simp add: filter_map comp_def)
qed

lemma stealers_next_around:
  assumes "stealers_ok it" "st_candidates it \<noteq> 0"
  obtains it' where "stealers_next it = (it', Some (st_next it))" "stealers_ok it'" "st_count it' = st_count it"
    "around (st_count it) (st_next it) (st_candidates it)
      = st_next it # around (st_count it') (st_next it') (st_candidates it')"
proof -
  let ?n = "st_count it" and ?k = "st_next it" and ?w = "st_candidates it"
  define c where "c = ?w AND NOT 1"
  have n: "0 < ?n" "?n \<le> 64" "?k < ?n" and wn: "\<And>j. bit ?w j \<Longrightarrow> j < ?n" and w0: "bit ?w 0"
    using assms by (auto simp: stealers_ok_def)
  have cb: "bit c j \<longleftrightarrow> bit ?w j \<and> j \<noteq> 0" for j
    using bit_clear_worker_bit [of ?w 0 j] by (simp add: worker_bit_def c_def)
  have "[0 ..< ?n] = 0 # [1 ..< ?n]" using n(1) by (simp add: upt_conv_Cons)
  moreover have "filter (bit ?w) [1 ..< ?n] = filter (bit c) [1 ..< ?n]"
    by (rule filter_cong) (auto simp: cb)
  moreover have "filter (bit c) [0 ..< ?n] = filter (bit c) [1 ..< ?n]"
    using n(1) cb [of 0] by (simp add: upt_conv_Cons)
  ultimately have "filter (bit ?w) [0 ..< ?n] = 0 # filter (bit c) [0 ..< ?n]"
    using w0 by simp
  then have head: "around ?n ?k ?w = ?k # map (\<lambda>j. (?k + j) mod ?n) (filter (bit c) [0 ..< ?n])"
    using n(3) by (simp add: around_def)
  show thesis
  proof (cases "c = 0")
    case True
    let ?it' = "it\<lparr>st_candidates := 0\<rparr>"
    have "stealers_next it = (?it', Some ?k)" using assms(2) True by (simp add: stealers_next_def c_def)
    moreover have "stealers_ok ?it'" using n by (simp add: stealers_ok_def)
    ultimately show thesis using that head True by (simp add: around_def)
  next
    case False
    define s where "s = trailing_zeros c"
    note z = trailing_zeros_bit [OF False, folded s_def]
    have sn: "s < ?n" using wn z(2) cb by blast
    have s0: "s \<noteq> 0" using z(2) cb by metis
    let ?k' = "if ?n \<le> ?k + s then ?k + s - ?n else ?k + s"
    let ?it' = "it\<lparr>st_candidates := drop_bit s c, st_next := ?k'\<rparr>"
    have k': "?k' = (?k + s) mod ?n"
      using n(3) sn by (auto simp: mod_if)
    have d: "bit (drop_bit s c) j \<longleftrightarrow> bit c (j + s)" for j
      by (simp add: bit_drop_bit_eq add.commute)
    have nx: "stealers_next it = (?it', Some ?k)"
      using assms(2) False by (simp add: stealers_next_def Let_def s_def c_def)
    have "j < ?n" if "bit (drop_bit s c) j" for j
      using that wn [of "j + s"] by (simp add: d cb)
    moreover have "bit (drop_bit s c) 0" using z(2) by (simp add: d)
    ultimately have ok: "stealers_ok ?it'"
      using n sn by (auto simp: stealers_ok_def)
    have "filter (bit c) [0 ..< ?n] = map (\<lambda>j. j + s) (filter (bit (drop_bit s c)) [0 ..< ?n - s])"
      using filter_upt_shift [of s "bit c" ?n] z(3) sn d by (simp add: fun_eq_iff cong: filter_cong)
    moreover have "filter (bit (drop_bit s c)) [0 ..< ?n] = filter (bit (drop_bit s c)) [0 ..< ?n - s]"
    proof -
      have "[0 ..< ?n] = [0 ..< ?n - s] @ [?n - s ..< ?n]"
        using upt_add_eq_append [of 0 "?n - s" s] sn by simp
      moreover have "filter (bit (drop_bit s c)) [?n - s ..< ?n] = []"
        unfolding filter_empty_conv
      proof
        fix j assume "j \<in> set [?n - s ..< ?n]"
        then have "\<not> j + s < ?n" by auto
        then show "\<not> bit (drop_bit s c) j" using wn [of "j + s"] by (auto simp: d cb)
      qed
      ultimately show ?thesis by simp
    qed
    ultimately have "map (\<lambda>j. (?k + j) mod ?n) (filter (bit c) [0 ..< ?n]) = around ?n ?k' (drop_bit s c)"
      by (simp add: around_def k' mod_add_left_eq add.assoc add.commute [of s])
    with that [OF nx ok] head show thesis by simp
  qed
qed

lemma stealers_take_around:
  "stealers_ok it \<Longrightarrow> length (around (st_count it) (st_next it) (st_candidates it)) \<le> n \<Longrightarrow>
    stealers_take n it = around (st_count it) (st_next it) (st_candidates it)"
proof (induction n arbitrary: it)
  case 0
  then show ?case by simp
next
  case (Suc n)
  show ?case
  proof (cases "st_candidates it = 0")
    case True
    then show ?thesis by (simp add: stealers_next_def around_def)
  next
    case False
    obtain it' where "stealers_next it = (it', Some (st_next it))" "stealers_ok it'" "st_count it' = st_count it"
      "around (st_count it) (st_next it) (st_candidates it)
        = st_next it # around (st_count it') (st_next it') (st_candidates it')"
      by (rule stealers_next_around [OF Suc.prems(1) False])
    with Suc.IH [of it'] Suc.prems(2) show ?thesis by simp
  qed
qed

lemma add_mod_cancel:
  fixes j :: nat
  assumes "(k + j) mod n = (k + j') mod n" "j < n" "j' < n"
  shows "j = j'"
proof -
  have *: "a = b" if "(k + a) mod n = (k + b) mod n" "a \<le> b" "b < n" for a b
  proof -
    have "n dvd b - a" using that mod_eq_dvd_iff_nat [of "k + a" "k + b" n] by simp
    then show ?thesis using that nat_dvd_not_less [of "b - a" n] by fastforce
  qed
  show ?thesis using * [of j j'] * [of j' j] assms by (cases "j \<le> j'") auto
qed

lemma around_distinct: "distinct (around n k w)"
  by (auto simp: around_def distinct_map inj_on_def dest: add_mod_cancel)

lemma gen_bounded_less:
  assumes "0 < b"
  shows "snd (gen_bounded seed b) < b"
proof -
  define r where "r = snd (rng_gen seed)"
  have "unat ((ucast r :: u128) * ucast b) = unat r * unat b"
  proof -
    have "unat r * unat b < 2 ^ 64 * 2 ^ 64"
      using unsigned_less [of r] unsigned_less [of b] by (intro mult_strict_mono) auto
    then show ?thesis by (simp add: unat_word_ariths unsigned_ucast_eq take_bit_eq_mod mod_mult_eq)
  qed
  then have "unat (drop_bit 64 ((ucast r :: u128) * ucast b)) = unat r * unat b div 2 ^ 64"
    unfolding unat_drop_bit_eq by (simp only: drop_bit_eq_div)
  moreover have "unat r * unat b div 2 ^ 64 < unat b"
  proof -
    have "unat r * unat b < 2 ^ 64 * unat b"
      using unsigned_less [of r] assms by (intro mult_strict_right_mono) (auto simp: word_less_nat_alt)
    then show ?thesis by (simp add: less_mult_imp_div_less mult.commute)
  qed
  moreover have "unat b < 2 ^ 64" using unsigned_less [of b] by simp
  ultimately show ?thesis
    by (simp add: gen_bounded_def r_def split_def Let_def word_less_nat_alt unsigned_ucast_eq take_bit_eq_mod)
qed

text \<open>The rotation of the candidates that makes the chosen worker the first.\<close>

lemma bit_rotated:
  assumes "\<forall>j. bit c j \<longrightarrow> j < n" "k < n" "n \<le> 64"
  shows "bit (drop_bit k c OR push_bit (n - k) (c AND (push_bit k 1 - 1)) :: usize) j
    \<longleftrightarrow> j < n \<and> bit c ((k + j) mod n)"
proof -
  have m: "push_bit k 1 - 1 = (mask k :: usize)" by (simp add: mask_eq_exp_minus_1)
  show ?thesis
  proof (cases "k + j < n")
    case True
    then show ?thesis
      unfolding m using assms by (auto simp: bit_or_iff bit_drop_bit_eq bit_push_bit_iff bit_and_iff bit_mask_iff)
  next
    case False
    then have "\<not> bit c (k + j)" using assms(1) by blast
    moreover have "(k + j) mod n = j - (n - k)" if "j < n"
      using that False assms(2) by (auto simp: mod_if)
    moreover have "j < n" if "bit c (j - (n - k))" "j - (n - k) < k" "n - k \<le> j"
      using that assms(2) by linarith
    ultimately show ?thesis
      unfolding m using False assms by (auto simp: bit_or_iff bit_drop_bit_eq bit_push_bit_iff bit_and_iff bit_mask_iff)
  qed
qed


lemma find_bit_random:
  assumes "c \<noteq> 0"
  shows "bit c (unat (find_bit c (\<lambda>count. snd (gen_bounded seed count) + 1)))"
proof -
  let ?f = "\<lambda>count. snd (gen_bounded seed count) + 1" and ?m = "ones c 0 64"
  define g where "g = snd (gen_bounded seed (of_nat ?m))"
  obtain i where "bit c i" using assms by (auto simp: bit_eq_iff)
  then have "0 < ?m" using bit_imp_le_length [of c i] by (auto simp: ones_def filter_empty_conv)
  moreover have m: "?m \<le> 64" using ones_le [of c 0 64] by simp
  ultimately have "unat (of_nat ?m :: u64) = ?m" "0 < (of_nat ?m :: u64)"
    by (simp_all add: unat_word_of_nat word_less_nat_alt)
  then have g: "unat g < ?m" using gen_bounded_less [of "of_nat ?m" seed] by (simp add: g_def word_less_nat_alt)
  then have "unat (g + 1) = Suc (unat g)"
    using m by (simp add: unat_word_ariths)
  then have r: "unat (?f (of_nat ?m)) = Suc (unat g)" by (simp add: g_def)
  obtain s where "unat (find_bit c ?f) = s"
    "0 < Suc (unat g) \<and> Suc (unat g) \<le> ?m \<longrightarrow> bit c s \<and> Suc (ones c 0 s) = Suc (unat g)"
    by (rule find_bit_found [of ?f c "Suc (unat g)"]) (use r g m in simp_all)
  then show ?thesis using g by simp
qed

lemma stealers_new_result:
  assumes c: "\<forall>j. bit c j \<longrightarrow> j < n" and n: "0 < n" "n \<le> 64"
  shows "case stealers_new c n seed of
      None \<Rightarrow> n = 64 \<and> bit c 0
    | Some (it, _) \<Rightarrow> stealers_ok it \<and> st_count it = n \<and> set (around n (st_next it) (st_candidates it)) = {i. bit c i}"
proof (cases "c = 0")
  case True
  then show ?thesis using n by (simp add: stealers_new_def stealers_ok_def around_def)
next
  case False
  define f where "f = (\<lambda>count. snd (gen_bounded seed count) + 1)"
  define k where "k = unat (find_bit c f)"
  define w :: usize where "w = drop_bit k c OR push_bit (n - k) (c AND (push_bit k 1 - 1))"
  have k: "bit c k" unfolding k_def f_def by (rule find_bit_random [OF False])
  then have kn: "k < n" using c by blast
  have w: "bit w j \<longleftrightarrow> j < n \<and> bit c ((k + j) mod n)" for j
    unfolding w_def by (rule bit_rotated [OF c kn n(2)])
  have eq: "stealers_new c n seed = (if n - k = 64 then None
      else Some (\<lparr>st_count = n, st_candidates = w, st_next = k\<rparr>, fst (rng_gen seed)))"
    unfolding stealers_new_def Let_def split_def f_def [symmetric] k_def [symmetric] w_def [symmetric]
    using False kn n by auto
  have "set (around n k w) = {i. bit c i}"
  proof (intro set_eqI iffI)
    fix i assume "i \<in> set (around n k w)"
    then show "i \<in> {i. bit c i}" by (auto simp: around_def w)
  next
    fix i assume i: "i \<in> {i. bit c i}"
    then have "i < n" using c by blast
    let ?j = "(i + (n - k)) mod n"
    have "(k + ?j) mod n = (i + n) mod n" using kn by (simp add: mod_add_right_eq)
    then have "(k + ?j) mod n = i" using \<open>i < n\<close> by simp
    moreover have "?j < n" using n by simp
    ultimately show "i \<in> set (around n k w)"
      using i by (force simp: around_def w)
  qed
  moreover have "stealers_ok \<lparr>st_count = n, st_candidates = w, st_next = k\<rparr>"
    using n kn k by (auto simp: stealers_ok_def w)
  moreover have "n = 64 \<and> bit c 0" if "n - k = 64" using that kn n k by (cases k) auto
  ultimately show ?thesis by (simp add: eq)
qed

section \<open>Well-formed pools\<close>

definition pool_wf :: "'p pool \<Rightarrow> bool" where
  "pool_wf p \<longleftrightarrow> 1 \<le> pool_size p \<and> pool_size p \<le> 64 \<and> (\<forall>i. bit (active_workers p) i \<longrightarrow> i < pool_size p)"

lemma pool_new_wf: "pool_new n = Some p \<Longrightarrow> pool_wf p \<and> pool_is_idle p"
  by (auto simp: pool_new_def pool_wf_def pool_is_idle_def split: if_splits)

lemma set_all_workers_active_eq:
  assumes "pool_wf p"
  obtains w where "set_all_workers_active p = Some (p\<lparr>active_workers := w\<rparr>)" "\<forall>i. bit w i \<longleftrightarrow> i < pool_size p"
proof -
  define w :: usize where "w = drop_bit (64 - pool_size p) (NOT 0)"
  have "bit w i \<longleftrightarrow> i < pool_size p" for i
  proof -
    have "bit w i \<longleftrightarrow> 64 - pool_size p + i < 64"
      unfolding w_def bit_drop_bit_eq bit_not_iff by (simp add: possible_bit_def)
    then show ?thesis using assms by (auto simp: pool_wf_def)
  qed
  moreover have "set_all_workers_active p = Some (p\<lparr>active_workers := w\<rparr>)"
    using assms unfolding set_all_workers_active_def w_def pool_wf_def by simp
  ultimately show thesis using that by blast
qed

lemma claim_worker_cases:
  assumes "i < 64"
  shows "claim_worker i p = (if bit (active_workers p) i then (p, ActLoaded (active_workers p))
    else (p\<lparr>active_workers := active_workers p OR worker_bit i\<rparr>, ActSearch i))"
proof -
  have "active_workers p OR worker_bit i = active_workers p" if "bit (active_workers p) i"
    using that by (auto simp: word_bits bit_or_worker_bit)
  then show ?thesis using assms by (simp add: claim_worker_def Let_def and_worker_bit)
qed

lemma try_set_worker_inactive_cases:
  assumes "bit (active_workers p) i" "i < 64"
  shows "try_set_worker_inactive i p =
    Some (if \<exists>j. bit (active_workers p) j \<and> j \<noteq> i
      then (p\<lparr>active_workers := active_workers p AND NOT (worker_bit i)\<rparr>, True) else (p, False))"
proof -
  define others where "others \<longleftrightarrow> (\<exists>j. bit (active_workers p) j \<and> j \<noteq> i)"
  have "active_workers p = worker_bit i \<longleftrightarrow> \<not> others"
    using assms last_worker [of i "active_workers p"] by (auto simp: others_def)
  then show ?thesis
    using assms unfolding others_def [symmetric] by (simp add: try_set_worker_inactive_def Let_def and_worker_bit)
qed

lemma pool_is_idle_iff: "pool_is_idle p \<longleftrightarrow> (\<forall>i. \<not> bit (active_workers p) i)"
proof -
  have "pool_is_idle p \<longleftrightarrow> (\<forall>i < 64. \<not> bit (active_workers p) i)" by (simp add: pool_is_idle_def word_bits)
  moreover have "i < 64" if "bit (active_workers p) i" for i
    using bit_imp_le_length [OF that] by simp
  ultimately show ?thesis by blast
qed

text \<open>
  C40. The iterator over the stealers, for every seed of the random numbers: it yields the workers that
  were active when it was created, except the excluded one, each once, and then ends.  Creating it
  fails only in a pool of 64 workers, when worker 0 is a candidate: the rotation of the bit field may
  then shift a word by its width.
\<close>
theorem shuffled_stealers_all:
  assumes "pool_wf p"
  shows "case shuffled_stealers excluded seed p of
      None \<Rightarrow> pool_size p = 64 \<and> bit (active_workers p) 0
    | Some (it, seed') \<Rightarrow>
        distinct (stealers_take (pool_size p) it)
        \<and> set (stealers_take (pool_size p) it) = {i. bit (active_workers p) i \<and> excluded \<noteq> Some i}
        \<and> stealers_take (Suc (pool_size p)) it = stealers_take (pool_size p) it"
proof -
  define c where "c = (case excluded of None \<Rightarrow> active_workers p
    | Some i \<Rightarrow> active_workers p AND NOT (worker_bit i))"
  have c: "bit c i \<longleftrightarrow> bit (active_workers p) i \<and> excluded \<noteq> Some i" for i
    by (cases excluded) (auto simp: c_def bit_clear_worker_bit)
  have eq: "shuffled_stealers excluded seed p = stealers_new c (pool_size p) seed"
    by (simp add: shuffled_stealers_def c_def)
  have res: "case stealers_new c (pool_size p) seed of
      None \<Rightarrow> pool_size p = 64 \<and> bit c 0
    | Some (it, _) \<Rightarrow> stealers_ok it \<and> st_count it = pool_size p
        \<and> set (around (pool_size p) (st_next it) (st_candidates it)) = {i. bit c i}"
    by (rule stealers_new_result) (use assms c in \<open>auto simp: pool_wf_def\<close>)
  show ?thesis
  proof (cases "stealers_new c (pool_size p) seed")
    case None
    then show ?thesis using res by (simp add: eq c)
  next
    case (Some r)
    obtain it seed' where r: "r = (it, seed')" by force
    have ok: "stealers_ok it" "st_count it = pool_size p"
      "set (around (pool_size p) (st_next it) (st_candidates it)) = {i. bit c i}"
      using res Some r by simp_all
    have "length (around (pool_size p) (st_next it) (st_candidates it)) \<le> pool_size p"
      unfolding around_def by (metis length_filter_le length_map length_upt minus_nat.diff_0)
    with ok have "stealers_take n it = around (pool_size p) (st_next it) (st_candidates it)"
      if "pool_size p \<le> n" for n
      using stealers_take_around [of it n] that by simp
    with ok show ?thesis by (simp add: eq Some r around_distinct c del: stealers_take.simps)
  qed
qed

text \<open>Workers 0, 2 and 3 of four are active and worker 2 looks for a task.\<close>

theorem shuffled_stealers_all_witness:
  "let p = \<lparr>pool_size = 4, active_workers = 13, searching_workers = 0, worker_panic = None\<rparr> :: unit pool in
   \<exists>it seed'. shuffled_stealers (Some 2) 5 p = Some (it, seed') \<and> set (stealers_take 4 it) = {0, 3}"
proof -
  define w :: usize where "w = 13"
  let ?p = "\<lparr>pool_size = 4, active_workers = w, searching_workers = 0, worker_panic = None\<rparr> :: unit pool"
  have b: "bit w i \<longleftrightarrow> i \<in> {0, 2, 3}" for i
  proof -
    consider "i = 0" | "i = Suc 0" | "i = Suc (Suc 0)" | "i = Suc (Suc (Suc 0))" | k where "i = Suc (Suc (Suc (Suc k)))"
      by (metis not0_implies_Suc)
    then show ?thesis by cases (auto simp: w_def)
  qed
  have "pool_wf ?p" by (auto simp: pool_wf_def b)
  from shuffled_stealers_all [OF this, of "Some 2" 5] have
    "\<exists>it seed'. shuffled_stealers (Some 2) 5 ?p = Some (it, seed')
      \<and> set (stealers_take 4 it) = {i. i \<in> {0, 2, 3} \<and> i \<noteq> (2 :: nat)}"
    by (auto simp: b split: option.splits)
  moreover have "{i. i \<in> {0, 2, 3} \<and> i \<noteq> (2 :: nat)} = {0, 3}" by auto
  ultimately show ?thesis by (simp add: w_def)
qed

end
