(* ===== verification/Mt_Executor.thy ===== *)
theory Mt_Executor
  imports Injector Pool_Manager Simulation
begin

text \<open>
  The multi-threaded executor (\<open>executor/mt_executor.rs\<close>): worker threads with a local queue and a
  fast slot each, a shared injector queue and pool manager, and the main thread, which spawns tasks
  and waits in \<open>run\<close> until the pool is idle.

  A thread between two accesses to shared data is at a program point, of type \<open>worker_pc\<close> or
  \<open>main_pc\<close>; a step performs one access and goes to the next point, \<open>None\<close> meaning that the thread
  is blocked.  What a step cannot know is part of the choice that drives it: what a running task does
  (wake a task, send or receive a message, enter a model, panic), whether a third-party operation is
  momentarily refused, whether time is up.  The local queues (package \<open>st3\<close>) and the parkers (package
  \<open>parking\<close>) are arguments, with the behaviour they document as the hypotheses \<open>local_queue_laws\<close> and
  \<open>parker_laws\<close>.  Runnables are values of an arbitrary type \<open>'r\<close>; their life is the subject of the
  theories on tasks.
\<close>

section \<open>Third-party operations\<close>

record ('r, 'q, 'k) exec_ops =
  lq_new :: "nat \<Rightarrow> 'q"
  lq_push :: "'r \<Rightarrow> 'q \<Rightarrow> 'r + 'q"
  lq_pop :: "'q \<Rightarrow> 'q \<times> 'r option"
  lq_drain :: "(nat \<Rightarrow> nat) \<Rightarrow> 'q \<Rightarrow> ('q \<times> 'r list) option"
  lq_spare_capacity :: "'q \<Rightarrow> nat"
  lq_extend :: "'r list \<Rightarrow> 'q \<Rightarrow> 'q"
  lq_steal_and_pop :: "(nat \<Rightarrow> nat) \<Rightarrow> 'q \<Rightarrow> 'q \<Rightarrow> ('q \<times> 'q \<times> 'r) option"
  pk_new :: 'k
  pk_unpark :: "'k \<Rightarrow> 'k"
  pk_park :: "'k \<Rightarrow> 'k option"

text \<open>
  What the operations of a local queue do to its items: pushing and extending add items or refuse, popping,
  draining and stealing move items out, and none is lost.  Stealing takes the victim, then the queue of
  the thief.
\<close>

definition local_queue_laws :: "('r, 'q, 'k) exec_ops \<Rightarrow> ('q \<Rightarrow> 'r multiset) \<Rightarrow> bool" where
  "local_queue_laws X items \<longleftrightarrow>
     (\<forall>n. items (lq_new X n) = {#})
     \<and> (\<forall>r q r'. lq_push X r q = Inl r' \<longrightarrow> r' = r)
     \<and> (\<forall>r q q'. lq_push X r q = Inr q' \<longrightarrow> items q' = add_mset r (items q))
     \<and> (\<forall>q q'. lq_pop X q = (q', None) \<longrightarrow> items q = {#} \<and> items q' = {#})
     \<and> (\<forall>q q' r. lq_pop X q = (q', Some r) \<longrightarrow> items q = add_mset r (items q'))
     \<and> (\<forall>f q q' rs. lq_drain X f q = Some (q', rs) \<longrightarrow>
          rs \<noteq> [] \<and> length rs \<le> f (size (items q)) \<and> items q = mset rs + items q')
     \<and> (\<forall>rs q. length rs \<le> lq_spare_capacity X q \<longrightarrow> items (lq_extend X rs q) = mset rs + items q)
     \<and> (\<forall>f v q v' q' r. lq_steal_and_pop X f v q = Some (v', q', r) \<longrightarrow>
          items v + items q = add_mset r (items v' + items q'))"

text \<open>A parker holds at most one token: unparking puts it there, parking waits for it and takes it.\<close>

definition parker_laws :: "('r, 'q, 'k) exec_ops \<Rightarrow> ('k \<Rightarrow> bool) \<Rightarrow> bool" where
  "parker_laws X token \<longleftrightarrow>
     \<not> token (pk_new X) \<and> (\<forall>k. token (pk_unpark X k))
     \<and> (\<forall>k. pk_park X k = None \<longleftrightarrow> \<not> token k) \<and> (\<forall>k k'. pk_park X k = Some k' \<longrightarrow> \<not> token k')"

section \<open>State\<close>

definition BUCKET_SIZE :: nat where
  "BUCKET_SIZE = 128"

definition QUEUE_SIZE :: nat where
  "QUEUE_SIZE = BUCKET_SIZE * 2"

text \<open>The payload of a panic: that of user code, or the message of a failed assertion of the executor.\<close>

datatype 'p worker_payload = UserPanic 'p | AssertionFailed string

type_synonym 'p panic_payload = "'p worker_payload payload"

text \<open>Program points of a worker: the signal barrier, the search for tasks, the loop over tasks.\<close>

datatype barrier_pc =
    TryInactive | UpdateCount | CheckInjector | SetAllInactive | UpdateCountLast | UnparkExecutor
  | ParkWorker | BeginSearch | CheckAbort

datatype 'r search_pc = PopInjector | ExtendQueue "'r list" | NewStealers | StealNext stealers | SearchTime | EndSearch

datatype 'r loop_pc = PopTask | CheckAbortTask 'r | RunningTask | ResumeSearch

text \<open>Program points of \<open>schedule_task\<close>, called by the running task, and of the report of a panic.\<close>

datatype 'r sched_pc =
    PushLocal 'r | DrainLocal 'r | PushInjector 'r "'r list" | PushAgain 'r | InsertInjector 'r
  | ReadSearching | ActivateOther activation

datatype 'p panic_pc = Register "'p panic_payload" | SetAbort | StoreActive | UnparkAll "nat list" | UnparkMain

datatype ('r, 'p) worker_pc =
    Barrier barrier_pc | Search "'r search_pc" | RunLoop "'r loop_pc" | Schedule "'r sched_pc"
  | PanicExit "'p panic_pc" | WorkerExit

record ('r, 'q, 'k, 'p) worker =
  local_queue :: 'q
  fast_slot :: "'r option"
  w_parker :: 'k
  thread_msg_count :: usize
  w_rng :: u64
  current_model :: "nat option"
  w_pc :: "('r, 'p) worker_pc"

text \<open>
  Program points of the main thread: creation, between two calls, in \<open>run\<close>, in \<open>drop\<close>, and after a
  failed assertion.  Between two calls it holds the result of the last one.
\<close>

datatype 'p main_pc =
    NewPark | NewCheckIdle | MainIdle "('p worker_payload executor_error option) option"
  | ActivateFirst activation | TakePanic | CheckIdle | ReadCount | MainPark
  | TimeoutStore | TimeoutUnpark "nat list" | DropStore | DropUnpark "nat list" | JoinWorkers | MainDropped | MainFailed

text \<open>
  \<open>x_balance\<close> is a ghost: the messages sent minus the messages received by all the workers so far.  The
  counts are words, read as signed numbers.
\<close>

record ('r, 'q, 'k, 'p) executor =
  x_pool :: "'p panic_payload pool"
  x_injector :: "'r injector"
  x_workers :: "nat \<Rightarrow> ('r, 'q, 'k, 'p) worker"
  x_parker :: 'k
  x_msg_count :: usize
  x_abort :: bool
  x_timeout :: duration
  x_main :: "'p main_pc"
  x_balance :: usize

definition worker_new :: "('r, 'q, 'k) exec_ops \<Rightarrow> nat \<Rightarrow> ('r, 'q, 'k, 'p) worker" where
  "worker_new X i = \<lparr>local_queue = lq_new X QUEUE_SIZE, fast_slot = None, w_parker = pk_new X,
     thread_msg_count = 0, w_rng = of_nat i, current_model = None, w_pc = Barrier TryInactive\<rparr>"

text \<open>The state in which \<open>Executor::new\<close> waits for the workers it has spawned, all marked as active.\<close>

definition executor_new :: "('r, 'q, 'k) exec_ops \<Rightarrow> nat \<Rightarrow> ('r, 'q, 'k, 'p) executor option" where
  "executor_new X num_threads =
     do { p0 \<leftarrow> pool_new num_threads;
          p \<leftarrow> set_all_workers_active p0;
          q \<leftarrow> injector_new BUCKET_SIZE;
          Some \<lparr>x_pool = p, x_injector = q, x_workers = worker_new X, x_parker = pk_new X, x_msg_count = 0,
            x_abort = False, x_timeout = 0, x_main = NewPark, x_balance = 0\<rparr> }"

section \<open>Steps of a worker\<close>

text \<open>
  \<open>Proceed\<close> is the only choice where nothing is left open; \<open>Refused\<close> is a local queue that is busy, or the
  end of the time allotted to the search; the others are what a running task does.
\<close>

datatype ('r, 'p) choice = Proceed | Refused | Wake 'r | Message bool | EnterModel "nat option" | Raise "'p payload"

definition put_worker ::
  "nat \<Rightarrow> ('r, 'q, 'k, 'p) worker \<Rightarrow> ('r, 'q, 'k, 'p) executor \<Rightarrow> ('r, 'q, 'k, 'p) executor" where
  "put_worker i w s = s\<lparr>x_workers := (x_workers s)(i := w)\<rparr>"

definition goto ::
  "nat \<Rightarrow> ('r, 'p) worker_pc \<Rightarrow> ('r, 'q, 'k, 'p) executor \<Rightarrow> ('r, 'q, 'k, 'p) executor" where
  "goto i pc s = put_worker i ((x_workers s i)\<lparr>w_pc := pc\<rparr>) s"

definition unpark_worker ::
  "('r, 'q, 'k) exec_ops \<Rightarrow> nat \<Rightarrow> ('r, 'q, 'k, 'p) executor \<Rightarrow> ('r, 'q, 'k, 'p) executor" where
  "unpark_worker X i s = put_worker i ((x_workers s i)\<lparr>w_parker := pk_unpark X (w_parker (x_workers s i))\<rparr>) s"

definition unpark_main ::
  "('r, 'q, 'k) exec_ops \<Rightarrow> ('r, 'q, 'k, 'p) executor \<Rightarrow> ('r, 'q, 'k, 'p) executor" where
  "unpark_main X s = s\<lparr>x_parker := pk_unpark X (x_parker s)\<rparr>"

definition fail_assertion ::
  "nat \<Rightarrow> string \<Rightarrow> ('r, 'q, 'k, 'p) executor \<Rightarrow> ('r, 'q, 'k, 'p) executor" where
  "fail_assertion i msg s = goto i (PanicExit (Register (OtherPayload (AssertionFailed msg)))) s"

definition update_msg_count ::
  "nat \<Rightarrow> ('r, 'q, 'k, 'p) executor \<Rightarrow> ('r, 'q, 'k, 'p) executor" where
  "update_msg_count i s =
     (let w = x_workers s i in
      put_worker i (w\<lparr>thread_msg_count := 0\<rparr>) (s\<lparr>x_msg_count := x_msg_count s + thread_msg_count w\<rparr>))"

text \<open>The signal barrier: the worker parks, or resumes because it is the last one and tasks are queued.\<close>

fun barrier_step ::
  "('r, 'q, 'k) exec_ops \<Rightarrow> nat \<Rightarrow> barrier_pc \<Rightarrow> ('r, 'q, 'k, 'p) executor \<Rightarrow> ('r, 'q, 'k, 'p) executor option"
where
  "barrier_step X i TryInactive s =
     (case try_set_worker_inactive i (x_pool s) of
        None \<Rightarrow> Some (fail_assertion i ''worker inactive'' s)
      | Some (p, True) \<Rightarrow> Some (goto i (Barrier UpdateCount) (s\<lparr>x_pool := p\<rparr>))
      | Some (p, False) \<Rightarrow> Some (goto i (Barrier CheckInjector) (s\<lparr>x_pool := p\<rparr>)))"
| "barrier_step X i UpdateCount s = Some (goto i (Barrier ParkWorker) (update_msg_count i s))"
| "barrier_step X i CheckInjector s =
     Some (goto i (Barrier (if injector_is_empty (x_injector s) then SetAllInactive else BeginSearch)) s)"
| "barrier_step X i SetAllInactive s =
     Some (goto i (Barrier UpdateCountLast) (s\<lparr>x_pool := set_all_workers_inactive (x_pool s)\<rparr>))"
| "barrier_step X i UpdateCountLast s = Some (goto i (Barrier UnparkExecutor) (update_msg_count i s))"
| "barrier_step X i UnparkExecutor s = Some (goto i (Barrier ParkWorker) (unpark_main X s))"
| "barrier_step X i ParkWorker s =
     (case pk_park X (w_parker (x_workers s i)) of
        None \<Rightarrow> None
      | Some k \<Rightarrow> Some (put_worker i ((x_workers s i)\<lparr>w_parker := k, w_pc := Barrier CheckAbort\<rparr>) s))"
| "barrier_step X i BeginSearch s =
     Some (goto i (Barrier CheckAbort) (s\<lparr>x_pool := begin_worker_search (x_pool s)\<rparr>))"
| "barrier_step X i CheckAbort s = Some (goto i (if x_abort s then WorkerExit else Search PopInjector) s)"

text \<open>
  The search: a bucket of the injector queue, or the tasks of another worker; a worker that has searched
  for too long goes back to the barrier.  Extending the queue waits for enough spare capacity.
\<close>

fun search_loop_step ::
  "('r, 'q, 'k) exec_ops \<Rightarrow> nat \<Rightarrow> ('r, 'p) choice \<Rightarrow> 'r search_pc \<Rightarrow> ('r, 'q, 'k, 'p) executor \<Rightarrow>
   ('r, 'q, 'k, 'p) executor option"
where
  "search_loop_step X i c PopInjector s =
     (case pop_bucket (x_injector s) of
        (q, Some bucket) \<Rightarrow> Some (goto i (Search (ExtendQueue bucket)) (s\<lparr>x_injector := q\<rparr>))
      | (q, None) \<Rightarrow> Some (goto i (Search NewStealers) (s\<lparr>x_injector := q\<rparr>)))"
| "search_loop_step X i c (ExtendQueue bucket) s =
     (let w = x_workers s i in
      if lq_spare_capacity X (local_queue w) < length bucket then Some s
      else Some (put_worker i (w\<lparr>local_queue := lq_extend X bucket (local_queue w), w_pc := Search EndSearch\<rparr>) s))"
| "search_loop_step X i c NewStealers s =
     (let w = x_workers s i in
      case shuffled_stealers (Some i) (w_rng w) (x_pool s) of
        None \<Rightarrow> Some (fail_assertion i ''shift overflow'' s)
      | Some (it, seed) \<Rightarrow> Some (put_worker i (w\<lparr>w_rng := seed, w_pc := Search (StealNext it)\<rparr>) s))"
| "search_loop_step X i c (StealNext it) s =
     (case stealers_next it of
        (it', None) \<Rightarrow> Some (goto i (Search SearchTime) s)
      | (it', Some v) \<Rightarrow>
          let w = x_workers s i; victim = x_workers s v in
          case (if c = Refused then None
                else lq_steal_and_pop X (\<lambda>n. n - n div 2) (local_queue victim) (local_queue w)) of
            None \<Rightarrow> Some (goto i (Search (StealNext it')) s)
          | Some (victim_queue, queue, task) \<Rightarrow>
              let s = put_worker v (victim\<lparr>local_queue := victim_queue\<rparr>) s;
                  s = put_worker i (w\<lparr>local_queue := queue, fast_slot := Some task, w_pc := Search EndSearch\<rparr>) s
              in if fast_slot w = None then Some s else Some (fail_assertion i ''fast slot occupied'' s))"
| "search_loop_step X i c SearchTime s =
     (if c = Refused then Some (goto i (Barrier TryInactive) (s\<lparr>x_pool := end_worker_search (x_pool s)\<rparr>))
      else Some (goto i (Search PopInjector) s))"
| "search_loop_step X i c EndSearch s = Some (goto i (RunLoop PopTask) (s\<lparr>x_pool := end_worker_search (x_pool s)\<rparr>))"

text \<open>
  \<open>schedule_task\<close>, first access: the task takes the fast slot, and the former one has to be queued.  Tasks
  are woken by the workers of the executor that spawned them; the assertions on the executor identifier and on
  the presence of a local worker, which exclude other callers, are not part of the model.
\<close>

definition schedule_task ::
  "nat \<Rightarrow> 'r \<Rightarrow> ('r, 'q, 'k, 'p) executor \<Rightarrow> ('r, 'q, 'k, 'p) executor" where
  "schedule_task i task s =
     (let w = x_workers s i in
      put_worker i (w\<lparr>fast_slot := Some task,
        w_pc := (case fast_slot w of None \<Rightarrow> RunLoop RunningTask | Some prev \<Rightarrow> Schedule (PushLocal prev))\<rparr>) s)"

text \<open>
  The loop over the tasks.  A running task, by its choice, returns, wakes a task, sends or receives a
  message, sets the current model, or panics.
\<close>

fun run_step ::
  "('r, 'q, 'k) exec_ops \<Rightarrow> nat \<Rightarrow> ('r, 'p) choice \<Rightarrow> 'r loop_pc \<Rightarrow> ('r, 'q, 'k, 'p) executor \<Rightarrow>
   ('r, 'q, 'k, 'p) executor option"
where
  "run_step X i c PopTask s =
     (let w = x_workers s i in
      case fast_slot w of
        Some task \<Rightarrow> Some (put_worker i (w\<lparr>fast_slot := None, w_pc := RunLoop (CheckAbortTask task)\<rparr>) s)
      | None \<Rightarrow>
          let (queue, popped) = lq_pop X (local_queue w) in
          Some (put_worker i (w\<lparr>local_queue := queue,
            w_pc := RunLoop (case popped of Some task \<Rightarrow> CheckAbortTask task | None \<Rightarrow> ResumeSearch)\<rparr>) s))"
| "run_step X i c (CheckAbortTask task) s = Some (goto i (if x_abort s then WorkerExit else RunLoop RunningTask) s)"
| "run_step X i c RunningTask s =
     (let w = x_workers s i in
      case c of
        Wake task \<Rightarrow> Some (schedule_task i task s)
      | Message sent \<Rightarrow>
          let d = (if sent then 1 else - 1) in
          Some (put_worker i (w\<lparr>thread_msg_count := thread_msg_count w + d\<rparr>) (s\<lparr>x_balance := x_balance s + d\<rparr>))
      | EnterModel m \<Rightarrow> Some (put_worker i (w\<lparr>current_model := m\<rparr>) s)
      | Raise payload \<Rightarrow> Some (goto i (PanicExit (Register (map_payload UserPanic payload))) s)
      | _ \<Rightarrow> Some (goto i (RunLoop PopTask) s))"
| "run_step X i c ResumeSearch s =
     Some (goto i (Search PopInjector) (s\<lparr>x_pool := begin_worker_search (x_pool s)\<rparr>))"

text \<open>
  \<open>schedule_task\<close>, next accesses: the task is pushed on the local queue, half of which moves to the injector
  when it is full, and another worker is activated when none is searching.
\<close>

fun schedule_step ::
  "('r, 'q, 'k) exec_ops \<Rightarrow> nat \<Rightarrow> ('r, 'p) choice \<Rightarrow> 'r sched_pc \<Rightarrow> ('r, 'q, 'k, 'p) executor \<Rightarrow>
   ('r, 'q, 'k, 'p) executor option"
where
  "schedule_step X i c (PushLocal prev) s =
     (let w = x_workers s i in
      case lq_push X prev (local_queue w) of
        Inr queue \<Rightarrow> Some (put_worker i (w\<lparr>local_queue := queue, w_pc := Schedule ReadSearching\<rparr>) s)
      | Inl prev \<Rightarrow> Some (goto i (Schedule (DrainLocal prev)) s))"
| "schedule_step X i c (DrainLocal prev) s =
     (let w = x_workers s i in
      case (if c = Refused then None else lq_drain X (\<lambda>_. BUCKET_SIZE) (local_queue w)) of
        Some (queue, tasks) \<Rightarrow>
          Some (put_worker i (w\<lparr>local_queue := queue, w_pc := Schedule (PushInjector prev tasks)\<rparr>) s)
      | None \<Rightarrow> Some (goto i (Schedule (InsertInjector prev)) s))"
| "schedule_step X i c (PushInjector prev tasks) s =
     Some (goto i (Schedule (PushAgain prev))
       (s\<lparr>x_injector := push_bucket (bucket_from_iter BUCKET_SIZE tasks) (x_injector s)\<rparr>))"
| "schedule_step X i c (PushAgain prev) s =
     (let w = x_workers s i in
      case lq_push X prev (local_queue w) of
        Inr queue \<Rightarrow> Some (put_worker i (w\<lparr>local_queue := queue, w_pc := Schedule ReadSearching\<rparr>) s)
      | Inl prev \<Rightarrow> Some (fail_assertion i ''local queue full'' s))"
| "schedule_step X i c (InsertInjector prev) s =
     Some (goto i (Schedule ReadSearching) (s\<lparr>x_injector := insert_task BUCKET_SIZE prev (x_injector s)\<rparr>))"
| "schedule_step X i c ReadSearching s =
     Some (goto i (if searching_worker_count (x_pool s) = 0 then Schedule (ActivateOther ActLoad) else RunLoop RunningTask) s)"
| "schedule_step X i c (ActivateOther a) s =
     (let (p, a', unparked) = activate_worker_relaxed a (x_pool s);
          s = s\<lparr>x_pool := p\<rparr>;
          s = (case unparked of None \<Rightarrow> s | Some j \<Rightarrow> unpark_worker X j s)
      in Some (goto i (if a' = ActReturn then RunLoop RunningTask else Schedule (ActivateOther a')) s))"

text \<open>The report of a panic, which makes every worker and the main thread return.\<close>

fun panic_step ::
  "('r, 'q, 'k) exec_ops \<Rightarrow> nat \<Rightarrow> 'p panic_pc \<Rightarrow> ('r, 'q, 'k, 'p) executor \<Rightarrow> ('r, 'q, 'k, 'p) executor option"
where
  "panic_step X i (Register payload) s =
     (let w = x_workers s i in
      Some (put_worker i (w\<lparr>current_model := None, w_pc := PanicExit SetAbort\<rparr>)
        (s\<lparr>x_pool := register_panic (current_model w) payload (x_pool s)\<rparr>)))"
| "panic_step X i SetAbort s = Some (goto i (PanicExit StoreActive) (s\<lparr>x_abort := True\<rparr>))"
| "panic_step X i StoreActive s =
     map_option (\<lambda>(p, ws). goto i (PanicExit (UnparkAll ws)) (s\<lparr>x_pool := p\<rparr>)) (activate_all_workers (x_pool s))"
| "panic_step X i (UnparkAll (j # js)) s = Some (goto i (PanicExit (UnparkAll js)) (unpark_worker X j s))"
| "panic_step X i (UnparkAll []) s = Some (goto i (PanicExit UnparkMain) s)"
| "panic_step X i UnparkMain s = Some (goto i WorkerExit (unpark_main X s))"

definition worker_step ::
  "('r, 'q, 'k) exec_ops \<Rightarrow> nat \<Rightarrow> ('r, 'p) choice \<Rightarrow> ('r, 'q, 'k, 'p) executor \<Rightarrow> ('r, 'q, 'k, 'p) executor option"
where
  "worker_step X i c s =
     (case w_pc (x_workers s i) of
        Barrier pc \<Rightarrow> barrier_step X i pc s
      | Search pc \<Rightarrow> search_loop_step X i c pc s
      | RunLoop pc \<Rightarrow> run_step X i c pc s
      | Schedule pc \<Rightarrow> schedule_step X i c pc s
      | PanicExit pc \<Rightarrow> panic_step X i pc s
      | WorkerExit \<Rightarrow> None)"

section \<open>Steps of the main thread\<close>

text \<open>Between two calls the main thread spawns tasks, calls \<open>run\<close> with a timeout, or drops the executor.\<close>

datatype 'r main_choice = MainProceed | SpawnTask 'r | CallRun duration | TimedOut | DropExecutor

definition executor_spawn :: "'r \<Rightarrow> ('r, 'q, 'k, 'p) executor \<Rightarrow> ('r, 'q, 'k, 'p) executor" where
  "executor_spawn task s = s\<lparr>x_injector := insert_task BUCKET_SIZE task (x_injector s)\<rparr>"

text \<open>The signed count must be convertible to an unsigned one, or the main thread panics.\<close>

definition read_msg_count :: "usize \<Rightarrow> 'p main_pc" where
  "read_msg_count n =
     (if n = 0 then MainIdle (Some None)
      else if sint n < 0 then MainFailed
      else MainIdle (Some (Some (UnprocessedMessages (unat n)))))"

fun executor_run_step ::
  "('r, 'q, 'k) exec_ops \<Rightarrow> 'r main_choice \<Rightarrow> 'p main_pc \<Rightarrow> ('r, 'q, 'k, 'p) executor \<Rightarrow>
   ('r, 'q, 'k, 'p) executor option"
where
  "executor_run_step X c (ActivateFirst a) s =
     (let (p, a', unparked) = activate_worker a (x_pool s);
          s = s\<lparr>x_pool := p, x_main := (if a' = ActReturn then TakePanic else ActivateFirst a')\<rparr>
      in Some (case unparked of None \<Rightarrow> s | Some j \<Rightarrow> unpark_worker X j s))"
| "executor_run_step X c TakePanic s =
     (case take_panic (x_pool s) of
        (p, Some (model_id, payload)) \<Rightarrow>
          Some (s\<lparr>x_pool := p, x_main := MainIdle (Some (Some (ExecPanic model_id payload)))\<rparr>)
      | (p, None) \<Rightarrow> Some (s\<lparr>x_pool := p, x_main := CheckIdle\<rparr>))"
| "executor_run_step X c CheckIdle s = Some (s\<lparr>x_main := (if pool_is_idle (x_pool s) then ReadCount else MainPark)\<rparr>)"
| "executor_run_step X c ReadCount s = Some (s\<lparr>x_main := read_msg_count (x_msg_count s)\<rparr>)"
| "executor_run_step X c MainPark s =
     (if c = TimedOut \<and> x_timeout s \<noteq> 0 then Some (s\<lparr>x_abort := True, x_main := TimeoutStore\<rparr>)
      else case pk_park X (x_parker s) of
        None \<Rightarrow> None
      | Some k \<Rightarrow> Some (s\<lparr>x_parker := k, x_main := TakePanic\<rparr>))"
| "executor_run_step X c TimeoutStore s =
     map_option (\<lambda>(p, ws). s\<lparr>x_pool := p, x_main := TimeoutUnpark ws\<rparr>) (activate_all_workers (x_pool s))"
| "executor_run_step X c (TimeoutUnpark (j # js)) s = Some (unpark_worker X j (s\<lparr>x_main := TimeoutUnpark js\<rparr>))"
| "executor_run_step X c (TimeoutUnpark []) s = Some (s\<lparr>x_main := MainIdle (Some (Some ExecTimeout))\<rparr>)"
| "executor_run_step X c _ s = None"

text \<open>Dropping the executor joins the worker threads once they are told to return.\<close>

fun executor_drop_step ::
  "('r, 'q, 'k) exec_ops \<Rightarrow> 'p main_pc \<Rightarrow> ('r, 'q, 'k, 'p) executor \<Rightarrow> ('r, 'q, 'k, 'p) executor option"
where
  "executor_drop_step X DropStore s =
     map_option (\<lambda>(p, ws). s\<lparr>x_pool := p, x_main := DropUnpark ws\<rparr>) (activate_all_workers (x_pool s))"
| "executor_drop_step X (DropUnpark (j # js)) s = Some (unpark_worker X j (s\<lparr>x_main := DropUnpark js\<rparr>))"
| "executor_drop_step X (DropUnpark []) s = Some (s\<lparr>x_main := JoinWorkers\<rparr>)"
| "executor_drop_step X JoinWorkers s =
     (if \<forall>i \<in> set [0 ..< pool_size (x_pool s)]. w_pc (x_workers s i) = WorkerExit then Some (s\<lparr>x_main := MainDropped\<rparr>)
      else None)"
| "executor_drop_step X _ s = None"

text \<open>The end of \<open>Executor::new\<close>: a worker unparks the main thread once all are parked.\<close>

fun executor_new_step ::
  "('r, 'q, 'k) exec_ops \<Rightarrow> 'p main_pc \<Rightarrow> ('r, 'q, 'k, 'p) executor \<Rightarrow> ('r, 'q, 'k, 'p) executor option"
where
  "executor_new_step X NewPark s =
     (case pk_park X (x_parker s) of None \<Rightarrow> None | Some k \<Rightarrow> Some (s\<lparr>x_parker := k, x_main := NewCheckIdle\<rparr>))"
| "executor_new_step X NewCheckIdle s =
     Some (s\<lparr>x_main := (if pool_is_idle (x_pool s) then MainIdle None else MainFailed)\<rparr>)"
| "executor_new_step X _ s = None"

fun main_step ::
  "('r, 'q, 'k) exec_ops \<Rightarrow> 'r main_choice \<Rightarrow> ('r, 'q, 'k, 'p) executor \<Rightarrow> ('r, 'q, 'k, 'p) executor option"
where
  "main_step X c s =
     (case x_main s of
        MainIdle res \<Rightarrow>
          (case c of
             SpawnTask task \<Rightarrow> Some (executor_spawn task s)
           | CallRun timeout \<Rightarrow> Some (s\<lparr>x_timeout := timeout, x_main := ActivateFirst ActLoad\<rparr>)
           | DropExecutor \<Rightarrow> Some (s\<lparr>x_abort := True, x_main := DropStore\<rparr>)
           | _ \<Rightarrow> None)
      | NewPark \<Rightarrow> executor_new_step X (x_main s) s
      | NewCheckIdle \<Rightarrow> executor_new_step X (x_main s) s
      | DropStore \<Rightarrow> executor_drop_step X (x_main s) s
      | DropUnpark js \<Rightarrow> executor_drop_step X (x_main s) s
      | JoinWorkers \<Rightarrow> executor_drop_step X (x_main s) s
      | _ \<Rightarrow> executor_run_step X c (x_main s) s)"

section \<open>Executions\<close>

datatype ('r, 'p) act = WorkerAct nat "('r, 'p) choice" | MainAct "'r main_choice"

fun executor_step ::
  "('r, 'q, 'k) exec_ops \<Rightarrow> ('r, 'p) act \<Rightarrow> ('r, 'q, 'k, 'p) executor \<Rightarrow> ('r, 'q, 'k, 'p) executor option" where
  "executor_step X (WorkerAct i c) s = (if i < pool_size (x_pool s) then worker_step X i c s else None)"
| "executor_step X (MainAct c) s = main_step X c s"

fun executor_steps ::
  "('r, 'q, 'k) exec_ops \<Rightarrow> ('r, 'p) act list \<Rightarrow> ('r, 'q, 'k, 'p) executor \<Rightarrow> ('r, 'q, 'k, 'p) executor option" where
  "executor_steps X [] s = Some s"
| "executor_steps X (a # as) s = Option.bind (executor_step X a s) (executor_steps X as)"

inductive executor_reach :: "('r, 'q, 'k) exec_ops \<Rightarrow> nat \<Rightarrow> ('r, 'q, 'k, 'p) executor \<Rightarrow> bool"
  for X :: "('r, 'q, 'k) exec_ops" and n :: nat where
  init: "executor_new X n = Some s \<Longrightarrow> executor_reach X n s"
| step: "executor_reach X n s \<Longrightarrow> executor_step X a s = Some s' \<Longrightarrow> executor_reach X n s'"

end
