(* ===== verification/Mt_Safety.thy ===== *)
theory Mt_Safety
  imports Mt_Executor
begin

text \<open>
  The invariant of the multi-threaded executor, kept by every step of every thread as long as the abort
  signal is not set.  Its core is a count: a worker is marked as active exactly when one and only one of
  the following holds: it is awake, its parker holds a token, or some thread has marked it and is about
  to unpark it.  The other parts say which workers may hold tasks, what the last active worker knows,
  and what the main thread relies on at each of its program points.
\<close>

section \<open>Program points\<close>

text \<open>A worker that has given up its mark and has not been unparked.\<close>

fun asleep :: "('r, 'p) worker_pc \<Rightarrow> bool" where
  "asleep (Barrier pc) \<longleftrightarrow> pc \<in> {UpdateCount, ParkWorker, UpdateCountLast, UnparkExecutor}"
| "asleep _ \<longleftrightarrow> False"

text \<open>Program points at which the local queue and the fast slot are empty.\<close>

fun quiet :: "('r, 'p) worker_pc \<Rightarrow> bool" where
  "quiet (Barrier pc) \<longleftrightarrow> True"
| "quiet (Search pc) \<longleftrightarrow> pc \<noteq> EndSearch"
| "quiet (RunLoop pc) \<longleftrightarrow> pc = ResumeSearch"
| "quiet _ \<longleftrightarrow> False"

text \<open>A thread that has marked worker \<open>j\<close> as active and has not unparked it yet.\<close>

fun act_claims :: "activation \<Rightarrow> nat \<Rightarrow> bool" where
  "act_claims (ActSearch i) j \<longleftrightarrow> i = j"
| "act_claims (ActNotify i) j \<longleftrightarrow> i = j"
| "act_claims _ j \<longleftrightarrow> False"

fun claims :: "('r, 'p) worker_pc \<Rightarrow> nat \<Rightarrow> bool" where
  "claims (Schedule (ActivateOther a)) j \<longleftrightarrow> act_claims a j"
| "claims _ j \<longleftrightarrow> False"

fun main_claims :: "'p main_pc \<Rightarrow> nat \<Rightarrow> bool" where
  "main_claims (ActivateFirst a) j \<longleftrightarrow> act_claims a j"
| "main_claims _ j \<longleftrightarrow> False"

fun panicking :: "('r, 'p) worker_pc \<Rightarrow> bool" where
  "panicking (PanicExit pc) \<longleftrightarrow> True"
| "panicking _ \<longleftrightarrow> False"

text \<open>
  What is known at a program point while the abort signal is not set: a bucket to push is not empty, a
  failed assertion is not one of those on the bookkeeping of the executor, and a panic is not yet reported.
\<close>

fun pc_ok :: "('r, 'p) worker_pc \<Rightarrow> bool" where
  "pc_ok (PanicExit (Register (OtherPayload (AssertionFailed msg)))) \<longleftrightarrow>
     msg \<in> {''shift overflow'', ''local queue full''}"
| "pc_ok (PanicExit StoreActive) \<longleftrightarrow> False"
| "pc_ok (PanicExit (UnparkAll js)) \<longleftrightarrow> False"
| "pc_ok (PanicExit UnparkMain) \<longleftrightarrow> False"
| "pc_ok (Schedule (PushInjector prev tasks)) \<longleftrightarrow> tasks \<noteq> []"
| "pc_ok _ \<longleftrightarrow> True"

section \<open>Laws of the third-party operations\<close>

lemma queue_laws:
  assumes "local_queue_laws X items"
  shows "items (lq_new X n) = {#}"
    "lq_push X r q = Inl r' \<Longrightarrow> r' = r"
    "lq_push X r q = Inr q' \<Longrightarrow> items q' = add_mset r (items q)"
    "lq_pop X q = (q', None) \<Longrightarrow> items q = {#} \<and> items q' = {#}"
    "lq_pop X q = (q', Some r) \<Longrightarrow> items q = add_mset r (items q')"
    "lq_drain X f q = Some (q', rs) \<Longrightarrow> rs \<noteq> [] \<and> length rs \<le> f (size (items q)) \<and> items q = mset rs + items q'"
    "length rs \<le> lq_spare_capacity X q \<Longrightarrow> items (lq_extend X rs q) = mset rs + items q"
    "lq_steal_and_pop X f v q = Some (v', q', r) \<Longrightarrow> items v + items q = add_mset r (items v' + items q')"
proof -
  note l = assms [unfolded local_queue_laws_def]
  note l2 = l [THEN conjunct2] note l3 = l2 [THEN conjunct2] note l4 = l3 [THEN conjunct2]
  note l5 = l4 [THEN conjunct2] note l6 = l5 [THEN conjunct2] note l7 = l6 [THEN conjunct2]
  show "items (lq_new X n) = {#}" by (rule l [THEN conjunct1, rule_format])
  show "lq_push X r q = Inl r' \<Longrightarrow> r' = r" by (rule l2 [THEN conjunct1, rule_format])
  show "lq_push X r q = Inr q' \<Longrightarrow> items q' = add_mset r (items q)" by (rule l3 [THEN conjunct1, rule_format])
  show "lq_pop X q = (q', None) \<Longrightarrow> items q = {#} \<and> items q' = {#}" by (rule l4 [THEN conjunct1, rule_format])
  show "lq_pop X q = (q', Some r) \<Longrightarrow> items q = add_mset r (items q')" by (rule l5 [THEN conjunct1, rule_format])
  show "lq_drain X f q = Some (q', rs) \<Longrightarrow> rs \<noteq> [] \<and> length rs \<le> f (size (items q)) \<and> items q = mset rs + items q'"
    by (rule l6 [THEN conjunct1, rule_format])
  show "length rs \<le> lq_spare_capacity X q \<Longrightarrow> items (lq_extend X rs q) = mset rs + items q"
    by (rule l7 [THEN conjunct1, rule_format])
  show "lq_steal_and_pop X f v q = Some (v', q', r) \<Longrightarrow> items v + items q = add_mset r (items v' + items q')"
    by (rule l7 [THEN conjunct2, rule_format])
qed

lemma parker_facts:
  assumes "parker_laws X token"
  shows "\<not> token (pk_new X)" "token (pk_unpark X k)" "pk_park X k = None \<longleftrightarrow> \<not> token k"
    "pk_park X k = Some k' \<Longrightarrow> token k \<and> \<not> token k'"
  using assms unfolding parker_laws_def by (simp_all, metis option.distinct(1))

section \<open>The count of owners\<close>

definition pending :: "nat \<Rightarrow> (nat \<Rightarrow> ('r, 'q, 'k, 'p) worker) \<Rightarrow> nat \<Rightarrow> nat" where
  "pending n W j = (\<Sum>u < n. of_bool (claims (w_pc (W u)) j))"

definition owners ::
  "('k \<Rightarrow> bool) \<Rightarrow> nat \<Rightarrow> (nat \<Rightarrow> ('r, 'q, 'k, 'p) worker) \<Rightarrow> 'p main_pc \<Rightarrow> nat \<Rightarrow> nat" where
  "owners token n W m j = of_bool (\<not> asleep (w_pc (W j))) + of_bool (token (w_parker (W j)))
     + pending n W j + of_bool (main_claims m j)"

lemma pending_upd:
  assumes "i < n"
  shows "pending n (W(i := w)) j + of_bool (claims (w_pc (W i)) j) = pending n W j + of_bool (claims (w_pc w) j)"
  unfolding pending_def by (rule sum_fun_upd [OF assms])

lemma owners_upd:
  assumes "i < n"
  shows "owners token n (W(i := w)) m j + of_bool (claims (w_pc (W i)) j)
      + (if j = i then of_bool (\<not> asleep (w_pc (W i))) + of_bool (token (w_parker (W i))) else 0)
    = owners token n W m j + of_bool (claims (w_pc w) j)
      + (if j = i then of_bool (\<not> asleep (w_pc w)) + of_bool (token (w_parker w)) else 0)"
  using pending_upd [OF assms, of W w j] unfolding owners_def by (cases "j = i") simp_all

lemma owners_same:
  assumes "i < n" "claims (w_pc w) = claims (w_pc (W i))" "asleep (w_pc w) = asleep (w_pc (W i))"
    "token (w_parker w) = token (w_parker (W i))"
  shows "owners token n (W(i := w)) m = owners token n W m"
proof
  show "owners token n (W(i := w)) m j = owners token n W m j" for j
    using owners_upd [OF assms(1), where token = token and W = W and w = w and m = m and j = j] assms(2-)
    by (auto split: if_splits)
qed

lemma pending_claimed: "u < n \<Longrightarrow> claims (w_pc (W u)) j \<Longrightarrow> 1 \<le> pending n W j"
  unfolding pending_def
  using member_le_sum [of u "{..<n}" "\<lambda>u. of_bool (claims (w_pc (W u)) j) :: nat"] by simp

lemma pending_pos: "0 < pending n W j \<Longrightarrow> \<exists>u < n. claims (w_pc (W u)) j"
proof (rule ccontr)
  assume "\<not> (\<exists>u < n. claims (w_pc (W u)) j)"
  then have "pending n W j = 0" unfolding pending_def by (intro sum.neutral) auto
  moreover assume "0 < pending n W j"
  ultimately show False by simp
qed

section \<open>The invariant\<close>

definition active :: "('r, 'q, 'k, 'p) executor \<Rightarrow> nat \<Rightarrow> bool" where
  "active s i \<longleftrightarrow> bit (active_workers (x_pool s)) i"

definition workers_inv ::
  "('k \<Rightarrow> bool) \<Rightarrow> ('q \<Rightarrow> 'r multiset) \<Rightarrow> ('r, 'q, 'k, 'p) executor \<Rightarrow> bool" where
  "workers_inv token items s \<longleftrightarrow> pool_wf (x_pool s) \<and> injector_wf BUCKET_SIZE (x_injector s)
     \<and> (\<forall>i < pool_size (x_pool s).
          owners token (pool_size (x_pool s)) (x_workers s) (x_main s) i = of_bool (active s i)
          \<and> (quiet (w_pc (x_workers s i)) \<longrightarrow> items (local_queue (x_workers s i)) = {#} \<and> fast_slot (x_workers s i) = None)
          \<and> w_pc (x_workers s i) \<noteq> WorkerExit \<and> pc_ok (w_pc (x_workers s i))
          \<and> (\<forall>j. claims (w_pc (x_workers s i)) j \<longrightarrow> j < pool_size (x_pool s)))
     \<and> (\<forall>j. main_claims (x_main s) j \<longrightarrow> j < pool_size (x_pool s))"

definition last_inv :: "('r, 'q, 'k, 'p) executor \<Rightarrow> bool" where
  "last_inv s \<longleftrightarrow> (\<forall>i < pool_size (x_pool s).
     (w_pc (x_workers s i) \<in> {Barrier CheckInjector, Barrier SetAllInactive} \<longrightarrow> (\<forall>j. active s j \<longrightarrow> j = i))
     \<and> (w_pc (x_workers s i) = Barrier SetAllInactive \<longrightarrow> injector_tasks (x_injector s) = {#}))"

text \<open>The main thread will be unparked: its parker holds a token or a worker is about to put one there.\<close>

definition wake_coming :: "('k \<Rightarrow> bool) \<Rightarrow> ('r, 'q, 'k, 'p) executor \<Rightarrow> bool" where
  "wake_coming token s \<longleftrightarrow> token (x_parker s)
     \<or> (\<exists>i < pool_size (x_pool s). w_pc (x_workers s i) \<in> {Barrier UpdateCountLast, Barrier UnparkExecutor})"

fun main_inv :: "('k \<Rightarrow> bool) \<Rightarrow> 'p main_pc \<Rightarrow> ('r, 'q, 'k, 'p) executor \<Rightarrow> bool" where
  "main_inv token (MainIdle res) s \<longleftrightarrow> (\<forall>i. \<not> active s i)"
| "main_inv token (ActivateFirst ActLoad) s \<longleftrightarrow> (\<forall>i. \<not> active s i)"
| "main_inv token (ActivateFirst (ActLoaded w)) s \<longleftrightarrow> (\<forall>i. \<not> active s i) \<and> w = 0"
| "main_inv token (ActivateFirst (ActSearch j)) s \<longleftrightarrow> (\<forall>i. active s i \<longleftrightarrow> i = j)"
| "main_inv token (ActivateFirst (ActNotify j)) s \<longleftrightarrow> (\<forall>i. active s i \<longleftrightarrow> i = j)"
| "main_inv token TakePanic s \<longleftrightarrow> ((\<forall>i. \<not> active s i) \<longrightarrow> injector_tasks (x_injector s) = {#})"
| "main_inv token CheckIdle s \<longleftrightarrow> ((\<forall>i. \<not> active s i) \<longrightarrow> injector_tasks (x_injector s) = {#})"
| "main_inv token MainPark s \<longleftrightarrow>
     ((\<forall>i. \<not> active s i) \<longrightarrow> injector_tasks (x_injector s) = {#} \<and> wake_coming token s)"
| "main_inv token ReadCount s \<longleftrightarrow> (\<forall>i. \<not> active s i) \<and> injector_tasks (x_injector s) = {#}"
| "main_inv token NewPark s \<longleftrightarrow> injector_tasks (x_injector s) = {#}
     \<and> (\<forall>i < pool_size (x_pool s). \<exists>b. w_pc (x_workers s i) = Barrier b \<and> b \<notin> {BeginSearch, CheckAbort})
     \<and> (\<forall>i < pool_size (x_pool s). \<not> token (w_parker (x_workers s i)))
     \<and> (wake_coming token s \<longleftrightarrow> (\<forall>i. \<not> active s i))"
| "main_inv token NewCheckIdle s \<longleftrightarrow> injector_tasks (x_injector s) = {#} \<and> (\<forall>i. \<not> active s i)"
| "main_inv token MainFailed s \<longleftrightarrow> (\<forall>i. \<not> active s i)"
| "main_inv token _ s \<longleftrightarrow> False"

definition exec_inv ::
  "('k \<Rightarrow> bool) \<Rightarrow> ('q \<Rightarrow> 'r multiset) \<Rightarrow> ('r, 'q, 'k, 'p) executor \<Rightarrow> bool" where
  "exec_inv token items s \<longleftrightarrow> workers_inv token items s \<and> last_inv s
     \<and> ((\<exists>i < pool_size (x_pool s). panicking (w_pc (x_workers s i)))
        \<or> main_inv token (x_main s) s \<and> worker_panic (x_pool s) = None)"

section \<open>Consequences\<close>

lemma workers_inv_wf: "workers_inv token items s \<Longrightarrow> pool_wf (x_pool s)" "workers_inv token items s \<Longrightarrow> injector_wf BUCKET_SIZE (x_injector s)"
  by (auto simp: workers_inv_def)

lemma active_below: "workers_inv token items s \<Longrightarrow> active s i \<Longrightarrow> i < pool_size (x_pool s)"
  by (auto simp: workers_inv_def pool_wf_def active_def)

lemma pool_size_le: "workers_inv token items s \<Longrightarrow> pool_size (x_pool s) \<le> 64"
  by (auto simp: workers_inv_def pool_wf_def)

lemma owners_eq:
  "workers_inv token items s \<Longrightarrow> i < pool_size (x_pool s) \<Longrightarrow>
    owners token (pool_size (x_pool s)) (x_workers s) (x_main s) i = of_bool (active s i)"
  by (simp add: workers_inv_def)

lemma awake_active:
  assumes "workers_inv token items s" "i < pool_size (x_pool s)" "\<not> asleep (w_pc (x_workers s i))"
  shows "active s i" "\<not> token (w_parker (x_workers s i))" "pending (pool_size (x_pool s)) (x_workers s) i = 0"
    "\<not> main_claims (x_main s) i"
  using owners_eq [OF assms(1,2)] assms(3) unfolding owners_def by (auto split: if_splits simp: of_bool_def)

lemma token_active:
  assumes "workers_inv token items s" "i < pool_size (x_pool s)" "token (w_parker (x_workers s i))"
  shows "active s i" "asleep (w_pc (x_workers s i))"
  using owners_eq [OF assms(1,2)] assms(3) unfolding owners_def by (auto split: if_splits simp: of_bool_def)

lemma main_claims_active:
  assumes "workers_inv token items s" "i < pool_size (x_pool s)" "main_claims (x_main s) i"
  shows "active s i" "asleep (w_pc (x_workers s i))" "\<not> token (w_parker (x_workers s i))"
    "pending (pool_size (x_pool s)) (x_workers s) i = 0"
  using owners_eq [OF assms(1,2)] assms(3) unfolding owners_def by (auto split: if_splits simp: of_bool_def)

lemma quiet_empty:
  assumes "workers_inv token items s" "i < pool_size (x_pool s)" "quiet (w_pc (x_workers s i))"
  shows "items (local_queue (x_workers s i)) = {#}" "fast_slot (x_workers s i) = None"
  using assms by (auto simp: workers_inv_def)

text \<open>When a worker is awake no other one is the last.\<close>

lemma awake_not_last:
  assumes "workers_inv token items s" "last_inv s" "i < pool_size (x_pool s)" "\<not> asleep (w_pc (x_workers s i))"
    "j < pool_size (x_pool s)" "w_pc (x_workers s j) \<in> {Barrier CheckInjector, Barrier SetAllInactive}"
  shows "j = i"
  using awake_active(1) [OF assms(1,3,4)] assms unfolding last_inv_def by blast

lemma claims_active:
  assumes "workers_inv token items s" "u < pool_size (x_pool s)" "claims (w_pc (x_workers s u)) j"
  shows "j < pool_size (x_pool s)" "active s j" "asleep (w_pc (x_workers s j))" "\<not> token (w_parker (x_workers s j))"
    "\<not> main_claims (x_main s) j"
proof -
  show j: "j < pool_size (x_pool s)" using assms by (auto simp: workers_inv_def)
  show "active s j" "asleep (w_pc (x_workers s j))" "\<not> token (w_parker (x_workers s j))" "\<not> main_claims (x_main s) j"
    using owners_eq [OF assms(1) j] pending_claimed [of u _ "x_workers s" j, OF assms(2,3)] unfolding owners_def
    by (auto split: if_splits simp: of_bool_def)
qed

section \<open>Frame lemmas\<close>

text \<open>A step that changes one worker and neither its role nor the set of active workers.\<close>

lemma workers_inv_put:
  assumes inv: "workers_inv token items s" and i: "i < pool_size (x_pool s)"
    and "x_workers s' = (x_workers s)(i := w)" "x_main s' = x_main s"
    and "pool_size (x_pool s') = pool_size (x_pool s)" "active_workers (x_pool s') = active_workers (x_pool s)"
    and "injector_wf BUCKET_SIZE (x_injector s')"
    and "token (w_parker w) = token (w_parker (x_workers s i))"
      "asleep (w_pc w) = asleep (w_pc (x_workers s i))" "claims (w_pc w) = claims (w_pc (x_workers s i))"
    and "quiet (w_pc w) \<Longrightarrow> items (local_queue w) = {#} \<and> fast_slot w = None"
      "w_pc w \<noteq> WorkerExit" "pc_ok (w_pc w)"
  shows "workers_inv token items s'"
proof -
  have "owners token (pool_size (x_pool s')) (x_workers s') (x_main s') j
      = owners token (pool_size (x_pool s)) (x_workers s) (x_main s) j" for j
    using assms owners_same [OF i, of w "x_workers s" token "x_main s"] by simp
  moreover have "active s' j \<longleftrightarrow> active s j" for j using assms by (simp add: active_def)
  ultimately show ?thesis
    using assms unfolding workers_inv_def pool_wf_def by auto
qed

text \<open>A step of an awake worker after which some worker is active.\<close>

lemma awake_rest:
  assumes inv: "exec_inv token items s" and i: "i < pool_size (x_pool s)" "\<not> asleep (w_pc (x_workers s i))"
    and new: "\<nexists>b. w_pc (x_workers s i) = Barrier b \<and> b \<notin> {BeginSearch, CheckAbort}"
    and "pool_size (x_pool s') = pool_size (x_pool s)" "x_main s' = x_main s" "active s' j"
    and others: "\<And>u. u < pool_size (x_pool s) \<Longrightarrow> u \<noteq> i \<Longrightarrow> w_pc (x_workers s' u) = w_pc (x_workers s u)"
    and own: "w_pc (x_workers s' i) \<notin> {Barrier CheckInjector, Barrier SetAllInactive}"
      "panicking (w_pc (x_workers s i)) \<Longrightarrow> panicking (w_pc (x_workers s' i))"
    and "panicking (w_pc (x_workers s' i)) \<or> worker_panic (x_pool s') = worker_panic (x_pool s)"
  shows "last_inv s' \<and> ((\<exists>i < pool_size (x_pool s'). panicking (w_pc (x_workers s' i)))
        \<or> main_inv token (x_main s') s' \<and> worker_panic (x_pool s') = None)"
proof
  have w: "workers_inv token items s" "last_inv s" using inv by (auto simp: exec_inv_def)
  note a = awake_active [OF w(1) i]
  have "w_pc (x_workers s' u) \<notin> {Barrier CheckInjector, Barrier SetAllInactive}" if "u < pool_size (x_pool s)" for u
    using awake_not_last [OF w i that] others [OF that] own(1) by (cases "u = i") auto
  then show "last_inv s'" using assms(5) by (auto simp: last_inv_def)
  show "(\<exists>i < pool_size (x_pool s'). panicking (w_pc (x_workers s' i)))
        \<or> main_inv token (x_main s') s' \<and> worker_panic (x_pool s') = None"
  proof (cases "\<exists>u < pool_size (x_pool s). panicking (w_pc (x_workers s u))")
    case True
    then obtain u where u: "u < pool_size (x_pool s)" "panicking (w_pc (x_workers s u))" by blast
    then have "panicking (w_pc (x_workers s' u))" using others [of u] own(2) by (cases "u = i") auto
    then show ?thesis using u assms(5) by auto
  next
    case False
    then have m: "main_inv token (x_main s) s" "worker_panic (x_pool s) = None" using inv by (auto simp: exec_inv_def)
    have "main_inv token (x_main s) s'"
    proof (cases "x_main s")
      case NewPark
      then show ?thesis using m(1) i(1) new by auto
    next
      case (ActivateFirst act)
      then show ?thesis using m(1) a(1,4) by (cases act) auto
    qed (use m(1) a(1) assms(7) in auto)
    then show ?thesis using m(2) assms(6,11) i(1) assms(5) by auto
  qed
qed

end
