(* ===== verification/Mt_Steps.thy ===== *)
theory Mt_Steps
  imports Mt_Safety
begin

text \<open>Every step of a thread keeps the invariant of the executor until the abort signal is set.\<close>

lemmas state_defs = put_worker_def goto_def unpark_worker_def unpark_main_def fail_assertion_def

section \<open>Workers\<close>

lemma awake_step:
  assumes inv: "exec_inv token items s" and i: "i < pool_size (x_pool s)" "\<not> asleep (w_pc (x_workers s i))"
    and new: "\<nexists>b. w_pc (x_workers s i) = Barrier b \<and> b \<notin> {BeginSearch, CheckAbort}"
    and s': "x_main s' = x_main s" "pool_size (x_pool s') = pool_size (x_pool s)"
      "active_workers (x_pool s') = active_workers (x_pool s)" "injector_wf BUCKET_SIZE (x_injector s')"
      "(x_workers s)(i := x_workers s' i) = x_workers s'" "w_parker (x_workers s' i) = w_parker (x_workers s i)"
    and role: "\<not> asleep (w_pc (x_workers s' i))" "claims (w_pc (x_workers s' i)) = claims (w_pc (x_workers s i))"
      "w_pc (x_workers s' i) \<notin> {Barrier CheckInjector, Barrier SetAllInactive}"
      "panicking (w_pc (x_workers s i)) \<longrightarrow> panicking (w_pc (x_workers s' i))"
      "panicking (w_pc (x_workers s' i)) \<or> worker_panic (x_pool s') = worker_panic (x_pool s)"
    and tasks: "quiet (w_pc (x_workers s' i)) \<longrightarrow> items (local_queue (x_workers s' i)) = {#} \<and> fast_slot (x_workers s' i) = None"
      "w_pc (x_workers s' i) \<noteq> WorkerExit" "pc_ok (w_pc (x_workers s' i))"
  shows "exec_inv token items s'"
proof -
  have w: "workers_inv token items s" using inv by (simp add: exec_inv_def)
  have "workers_inv token items s'"
    by (rule workers_inv_put [OF w i(1) s'(5) [symmetric] s'(1-4)]) (use s' role tasks i in auto)
  moreover have "active s' i" using awake_active(1) [OF w i] s'(3) by (simp add: active_def)
  then have "last_inv s' \<and> ((\<exists>i < pool_size (x_pool s'). panicking (w_pc (x_workers s' i)))
        \<or> main_inv token (x_main s') s' \<and> worker_panic (x_pool s') = None)"
  proof (rule awake_rest [OF inv i new s'(2,1)])
    show "w_pc (x_workers s' u) = w_pc (x_workers s u)" if "u \<noteq> i" for u
      using fun_cong [OF s'(5), of u] that by simp
  qed (use role in auto)
  ultimately show ?thesis by (simp add: exec_inv_def)
qed

lemma pc_ok_user [simp]: "pc_ok (PanicExit (Register (map_payload UserPanic payload)))"
  by (cases payload) auto

text \<open>The local queue of a worker that may hold tasks can change at any time.\<close>

lemma exec_inv_queue:
  assumes inv: "exec_inv token items s" and v: "v < pool_size (x_pool s) \<longrightarrow> \<not> quiet (w_pc (x_workers s v))"
  shows "exec_inv token items (put_worker v ((x_workers s v)\<lparr>local_queue := q\<rparr>) s)"
proof -
  let ?s = "put_worker v ((x_workers s v)\<lparr>local_queue := q\<rparr>) s"
  have [simp]: "x_pool ?s = x_pool s" "x_injector ?s = x_injector s" "x_main ?s = x_main s" "x_parker ?s = x_parker s"
    by (simp_all add: put_worker_def)
  have [simp]: "w_pc (x_workers ?s u) = w_pc (x_workers s u)" "w_parker (x_workers ?s u) = w_parker (x_workers s u)" for u
    by (simp_all add: put_worker_def)
  have own: "owners token n (x_workers ?s) m = owners token n (x_workers s) m" for n m
    by (simp add: fun_eq_iff owners_def pending_def)
  have act: "active ?s = active s" by (simp add: fun_eq_iff active_def)
  have "workers_inv token items ?s"
    using inv v unfolding exec_inv_def workers_inv_def own act by (auto simp: put_worker_def)
  moreover have "last_inv ?s" using inv unfolding exec_inv_def last_inv_def act by simp
  moreover have wake: "wake_coming token ?s \<longleftrightarrow> wake_coming token s" by (simp add: wake_coming_def)
  have "main_inv token m ?s \<longleftrightarrow> main_inv token m s" for m
    by (cases "(token, m, s)" rule: main_inv.cases) (simp_all add: act wake)
  ultimately show ?thesis using inv unfolding exec_inv_def by simp
qed

lemma search_loop_step_inv:
  assumes laws: "local_queue_laws X items" and inv: "exec_inv token items s" and i: "i < pool_size (x_pool s)"
    and pc: "w_pc (x_workers s i) = Search pc" and step: "search_loop_step X i c pc s = Some s'"
  shows "exec_inv token items s'"
proof -
  have w: "workers_inv token items s" using inv by (simp add: exec_inv_def)
  note wf = workers_inv_wf [OF w]
  note awake = awake_step [OF inv i]
  have q: "items (local_queue (x_workers s i)) = {#}" "fast_slot (x_workers s i) = None" if "pc \<noteq> EndSearch"
    using quiet_empty [OF w i] pc that by auto
  show ?thesis
  proof (cases pc)
    case PopInjector
    obtain q' b where pop: "pop_bucket (x_injector s) = (q', b)" by force
    then have "injector_wf BUCKET_SIZE q'" using pop_bucket_wf [OF wf(2)] wf(2) by (cases b) auto
    then show ?thesis
      using step q PopInjector pop by (cases b) (auto simp: state_defs pc intro!: awake)
  next
    case (ExtendQueue b)
    then show ?thesis
      using step q wf inv by (auto simp: state_defs pc Let_def split: if_splits intro!: awake)
  next
    case NewStealers
    then show ?thesis
      using step q wf by (auto simp: state_defs pc Let_def split: option.splits intro!: awake)
  next
    case SearchTime
    then show ?thesis
      using step q wf by (auto simp: state_defs pc end_worker_search_def split: if_splits intro!: awake)
  next
    case EndSearch
    then show ?thesis
      using step wf by (auto simp: state_defs pc end_worker_search_def intro!: awake)
  next
    case (StealNext it)
    obtain it' r where nx: "stealers_next it = (it', r)" by force
    show ?thesis
    proof (cases "r = None \<or> c = Refused \<or> lq_steal_and_pop X (\<lambda>n. n - n div 2)
        (local_queue (x_workers s (the r))) (local_queue (x_workers s i)) = None")
      case True
      then show ?thesis
        using step q wf StealNext nx
        by (auto simp: state_defs pc Let_def split: option.splits if_splits intro!: awake)
    next
      case False
      then obtain v victim_queue queue task where r: "r = Some v" "c \<noteq> Refused"
        and steal: "lq_steal_and_pop X (\<lambda>n. n - n div 2) (local_queue (x_workers s v)) (local_queue (x_workers s i))
          = Some (victim_queue, queue, task)" by auto
      define s1 where "s1 = put_worker v ((x_workers s v)\<lparr>local_queue := victim_queue\<rparr>) s"
      have s': "s' = put_worker i ((x_workers s i)\<lparr>local_queue := queue, fast_slot := Some task, w_pc := Search EndSearch\<rparr>) s1"
        using step q StealNext nx r steal by (simp add: Let_def s1_def)
      show ?thesis
      proof (cases "v = i")
        case True
        then show ?thesis using wf by (auto simp: s' s1_def state_defs pc intro!: awake)
      next
        case False
        have "\<not> quiet (w_pc (x_workers s v))" if "v < pool_size (x_pool s)"
          using queue_laws(8) [OF laws steal] q quiet_empty(1) [OF w that] StealNext by auto
        then have inv1: "exec_inv token items s1"
          unfolding s1_def by (intro exec_inv_queue [OF inv]) auto
        show ?thesis
          by (rule awake_step [OF inv1, of i]) (use False i wf in \<open>auto simp: s' s1_def state_defs pc\<close>)
      qed
    qed
  qed
qed

lemma run_step_inv:
  assumes laws: "local_queue_laws X items" and inv: "exec_inv token items s" and i: "i < pool_size (x_pool s)"
    and pc: "w_pc (x_workers s i) = RunLoop pc" and step: "run_step X i c pc s = Some s'" and abort: "\<not> x_abort s"
  shows "exec_inv token items s'"
proof -
  have w: "workers_inv token items s" using inv by (simp add: exec_inv_def)
  note wf = workers_inv_wf [OF w]
  note awake = awake_step [OF inv i]
  show ?thesis
  proof (cases pc)
    case PopTask
    then show ?thesis
      using step wf by (auto simp: state_defs pc Let_def split: option.splits prod.splits
          dest: queue_laws(4) [OF laws] intro!: awake)
  next
    case (CheckAbortTask task)
    then show ?thesis
      using step wf abort by (auto simp: state_defs pc intro!: awake)
  next
    case RunningTask
    then show ?thesis
      using step wf by (cases c) (auto simp: state_defs pc Let_def schedule_task_def split: option.splits intro!: awake)
  next
    case ResumeSearch
    then show ?thesis
      using step wf quiet_empty [OF w i] by (auto simp: state_defs pc begin_worker_search_def intro!: awake)
  qed
qed

text \<open>Activating another worker: its mark is new, and then its token.\<close>

lemma or_worker_bit_active:
  assumes "workers_inv token items s" "j < pool_size (x_pool s)"
    "x_pool s' = (x_pool s)\<lparr>active_workers := active_workers (x_pool s) OR worker_bit j\<rparr>"
  shows "active s' u \<longleftrightarrow> active s u \<or> u = j"
  using assms(2) pool_size_le [OF assms(1)] by (auto simp: active_def assms(3) bit_or_worker_bit)

lemma trailing_ones_bounds:
  "pool_wf p \<Longrightarrow> \<not> pool_size p \<le> trailing_ones w \<Longrightarrow> trailing_ones w < pool_size p \<and> trailing_ones w < 64"
  by (auto simp: pool_wf_def)

text \<open>An awake worker sets the mark of another one.\<close>

lemma claim_inv:
  assumes inv: "exec_inv token items s" and i: "i < pool_size (x_pool s)"
    and j: "j < pool_size (x_pool s)" "\<not> active s j"
    and pc: "\<not> asleep (w_pc (x_workers s i))" "claims (w_pc (x_workers s i)) = (\<lambda>_. False)" "\<not> panicking (w_pc (x_workers s i))"
      "\<nexists>b. w_pc (x_workers s i) = Barrier b"
    and s': "s' = goto i (Schedule (ActivateOther (ActSearch j)))
        (s\<lparr>x_pool := (x_pool s)\<lparr>active_workers := active_workers (x_pool s) OR worker_bit j\<rparr>\<rparr>)"
  shows "exec_inv token items s'"
proof -
  let ?n = "pool_size (x_pool s)" and ?w = "(x_workers s i)\<lparr>w_pc := Schedule (ActivateOther (ActSearch j))\<rparr>"
  have w: "workers_inv token items s" using inv by (simp add: exec_inv_def)
  have act: "active s' u \<longleftrightarrow> active s u \<or> u = j" for u
    by (rule or_worker_bit_active [OF w j(1)]) (simp add: s' state_defs)
  have W: "x_workers s' = (x_workers s)(i := ?w)" "pool_size (x_pool s') = ?n" "x_main s' = x_main s"
    "x_injector s' = x_injector s" "worker_panic (x_pool s') = worker_panic (x_pool s)"
    by (simp_all add: s' state_defs)
  have own: "owners token ?n (x_workers s') (x_main s) u = owners token ?n (x_workers s) (x_main s) u + of_bool (u = j)" for u
    using owners_upd [OF i, of token "x_workers s" ?w "x_main s" u] pc(1,2) by (auto simp: W split: if_splits)
  have "pool_wf (x_pool s')"
    using workers_inv_wf(1) [OF w] act j(1) by (auto simp: pool_wf_def active_def W)
  moreover have "owners token ?n (x_workers s') (x_main s) u = of_bool (active s' u)" if "u < ?n" for u
    using own [of u] owners_eq [OF w that] j(2) act [of u] by auto
  ultimately have "workers_inv token items s'"
    using w j(1) unfolding workers_inv_def W by auto
  moreover have "last_inv s' \<and> ((\<exists>i < pool_size (x_pool s'). panicking (w_pc (x_workers s' i)))
        \<or> main_inv token (x_main s') s' \<and> worker_panic (x_pool s') = None)"
    by (rule awake_rest [OF inv i pc(1), of s' j]) (use pc act in \<open>auto simp: W\<close>)
  ultimately show ?thesis by (simp add: exec_inv_def)
qed

text \<open>The token takes the place of the claim.\<close>

lemma notify_inv:
  assumes laws: "parker_laws X token" and inv: "exec_inv token items s" and i: "i < pool_size (x_pool s)"
    and pc: "\<not> asleep (w_pc (x_workers s i))" "claims (w_pc (x_workers s i)) = (\<lambda>u. u = j)" "\<not> panicking (w_pc (x_workers s i))"
      "\<nexists>b. w_pc (x_workers s i) = Barrier b" "\<not> quiet (w_pc (x_workers s i))"
    and s': "s' = goto i (RunLoop RunningTask) (unpark_worker X j s)"
  shows "exec_inv token items s'"
proof -
  let ?n = "pool_size (x_pool s)" and ?w = "(x_workers s i)\<lparr>w_pc := RunLoop RunningTask\<rparr>"
    and ?v = "(x_workers s j)\<lparr>w_parker := pk_unpark X (w_parker (x_workers s j))\<rparr>"
  have w: "workers_inv token items s" using inv by (simp add: exec_inv_def)
  note j = claims_active [OF w i, of j, unfolded pc(2), OF refl]
  have ij: "i \<noteq> j" using j(3) pc(1) by auto
  have W: "x_workers s' = (x_workers s)(j := ?v, i := ?w)" "x_pool s' = x_pool s" "x_main s' = x_main s"
    "x_injector s' = x_injector s"
    using ij by (simp_all add: s' state_defs)
  have act: "active s' = active s" by (simp add: fun_eq_iff active_def W)
  have own: "owners token ?n (x_workers s') (x_main s) = owners token ?n (x_workers s) (x_main s)"
  proof
    fix u
    show "owners token ?n (x_workers s') (x_main s) u = owners token ?n (x_workers s) (x_main s) u"
      using owners_upd [OF j(1), of token "x_workers s" ?v "x_main s" u]
        owners_upd [OF i, of token "(x_workers s)(j := ?v)" ?w "x_main s" u] pc(1,2) ij j(4)
        parker_facts(2) [OF laws, of "w_parker (x_workers s j)"]
      unfolding W by (cases "u = j"; cases "u = i") auto
  qed
  have "workers_inv token items s'"
    using w ij unfolding workers_inv_def W(2-) act own by (auto simp: W(1))
  moreover have "last_inv s' \<and> ((\<exists>i < pool_size (x_pool s'). panicking (w_pc (x_workers s' i)))
        \<or> main_inv token (x_main s') s' \<and> worker_panic (x_pool s') = None)"
    by (rule awake_rest [OF inv i pc(1), of s' j]) (use pc act j in \<open>auto simp: W\<close>)
  ultimately show ?thesis by (simp add: exec_inv_def)
qed

lemma schedule_step_inv:
  assumes laws: "local_queue_laws X items" "parker_laws X token" and inv: "exec_inv token items s"
    and i: "i < pool_size (x_pool s)"
    and pc: "w_pc (x_workers s i) = Schedule pc" and step: "schedule_step X i c pc s = Some s'"
  shows "exec_inv token items s'"
proof -
  have w: "workers_inv token items s" using inv by (simp add: exec_inv_def)
  note wf = workers_inv_wf [OF w]
  note awake = awake_step [OF inv i]
  show ?thesis
  proof (cases pc)
    case (PushLocal prev)
    then show ?thesis
      using step wf by (auto simp: state_defs pc Let_def split: sum.splits intro!: awake)
  next
    case (DrainLocal prev)
    then show ?thesis
      using step wf
      by (auto simp: state_defs pc Let_def split: option.splits if_splits dest: queue_laws(6) [OF laws(1)] intro!: awake)
  next
    case (PushInjector prev tasks)
    have "tasks \<noteq> []" using w i pc PushInjector by (auto simp: workers_inv_def)
    then have "bucket_from_iter BUCKET_SIZE tasks \<noteq> []" by (simp add: bucket_from_iter_def BUCKET_SIZE_def)
    then have "injector_wf BUCKET_SIZE (push_bucket (bucket_from_iter BUCKET_SIZE tasks) (x_injector s))"
      by (rule push_bucket_wf(1) [OF wf(2) _ bucket_from_iter_length])
    then show ?thesis
      using step wf PushInjector by (auto simp: state_defs pc intro!: awake)
  next
    case (PushAgain prev)
    then show ?thesis
      using step wf by (auto simp: state_defs pc Let_def split: sum.splits intro!: awake)
  next
    case (InsertInjector prev)
    then show ?thesis
      using step insert_task_wf(1) [OF wf(2)] by (auto simp: state_defs pc intro!: awake)
  next
    case ReadSearching
    then show ?thesis
      using step wf by (cases "searching_worker_count (x_pool s) = 0") (auto simp: state_defs pc intro!: awake)
  next
    case (ActivateOther a)
    show ?thesis
    proof (cases a)
      case ActLoad
      then show ?thesis using step wf ActivateOther by (auto simp: state_defs pc intro!: awake)
    next
      case (ActLoaded loaded)
      let ?j = "trailing_ones loaded"
      show ?thesis
      proof (cases "pool_size (x_pool s) \<le> ?j \<or> active s ?j")
        case True
        then show ?thesis
          using step wf ActivateOther ActLoaded trailing_ones_bounds [OF wf(1), of loaded]
          by (auto simp: state_defs pc Let_def claim_worker_cases active_def split: if_splits intro!: awake)
      next
        case False
        then have s': "s' = goto i (Schedule (ActivateOther (ActSearch ?j)))
            (s\<lparr>x_pool := (x_pool s)\<lparr>active_workers := active_workers (x_pool s) OR worker_bit ?j\<rparr>\<rparr>)"
          using step ActivateOther ActLoaded trailing_ones_bounds [OF wf(1), of loaded]
          by (auto simp: Let_def claim_worker_cases active_def)
        show ?thesis
          by (rule claim_inv [OF inv i, of ?j]) (use False in \<open>auto simp: s' state_defs pc ActivateOther ActLoaded\<close>)
      qed
    next
      case (ActSearch j)
      then show ?thesis
        using step wf ActivateOther claims_active(1) [OF w i, of j]
        by (auto simp: state_defs pc begin_worker_search_def intro!: awake)
    next
      case (ActNotify j)
      have "claims (w_pc (x_workers s i)) j" by (simp add: pc ActivateOther ActNotify)
      then show ?thesis
        using step ActivateOther ActNotify by (intro notify_inv [OF laws(2) inv i]) (auto simp: pc)
    next
      case ActReturn
      then show ?thesis using step wf ActivateOther by (auto simp: state_defs pc intro!: awake)
    qed
  qed
qed

section \<open>The signal barrier\<close>

lemma wake_coming_put:
  assumes "x_workers s' = (x_workers s)(i := w)" "pool_size (x_pool s') = pool_size (x_pool s)" "x_parker s' = x_parker s"
    "w_pc w \<in> {Barrier UpdateCountLast, Barrier UnparkExecutor}
      \<longleftrightarrow> w_pc (x_workers s i) \<in> {Barrier UpdateCountLast, Barrier UnparkExecutor}"
  shows "wake_coming token s' \<longleftrightarrow> wake_coming token s"
proof -
  have "w_pc (x_workers s' u) \<in> {Barrier UpdateCountLast, Barrier UnparkExecutor}
      \<longleftrightarrow> w_pc (x_workers s u) \<in> {Barrier UpdateCountLast, Barrier UnparkExecutor}" for u
    using assms by (cases "u = i") auto
  then show ?thesis unfolding wake_coming_def assms(2,3) by simp
qed

lemma asleep_barrier: "asleep pc \<Longrightarrow> \<exists>b. pc = Barrier b"
  by (cases pc) auto

text \<open>A worker without mark goes on to its parker.\<close>

lemma asleep_step:
  assumes inv: "exec_inv token items s" and i: "i < pool_size (x_pool s)" "asleep (w_pc (x_workers s i))"
    and s': "x_main s' = x_main s" "x_pool s' = x_pool s" "x_injector s' = x_injector s"
      "(x_workers s)(i := x_workers s' i) = x_workers s'" "w_parker (x_workers s' i) = w_parker (x_workers s i)"
      "local_queue (x_workers s' i) = local_queue (x_workers s i)" "fast_slot (x_workers s' i) = fast_slot (x_workers s i)"
      "asleep (w_pc (x_workers s' i))"
    and main: "w_pc (x_workers s i) = Barrier UnparkExecutor \<and> token (x_parker s')
      \<or> x_parker s' = x_parker s \<and> (w_pc (x_workers s' i) \<in> {Barrier UpdateCountLast, Barrier UnparkExecutor}
          \<longleftrightarrow> w_pc (x_workers s i) \<in> {Barrier UpdateCountLast, Barrier UnparkExecutor})"
  shows "exec_inv token items s'"
proof -
  have w: "workers_inv token items s" using inv by (simp add: exec_inv_def)
  have wake: "wake_coming token s' \<longleftrightarrow> wake_coming token s"
    using main
  proof
    assume "w_pc (x_workers s i) = Barrier UnparkExecutor \<and> token (x_parker s')"
    then show ?thesis using i(1) by (auto simp: wake_coming_def)
  qed (intro wake_coming_put [OF s'(4) [symmetric]], auto simp: s')
  obtain b1 where b1: "w_pc (x_workers s i) = Barrier b1" using asleep_barrier [OF i(2)] by blast
  obtain b2 where b2: "w_pc (x_workers s' i) = Barrier b2" using asleep_barrier [OF s'(8)] by blast
  note bs = b1 b2 i(2) [unfolded b1] s'(8) [unfolded b2]
  have pcs: "w_pc (x_workers s' u) = (if u = i then Barrier b2 else w_pc (x_workers s u))"
    "w_parker (x_workers s' u) = w_parker (x_workers s u)" for u
    using fun_cong [OF s'(4), of u] s'(5) b2 by (cases "u = i"; simp)+
  have "workers_inv token items s'"
    by (rule workers_inv_put [OF w i(1) s'(4) [symmetric] s'(1)])
      (use s' i bs workers_inv_wf(2) [OF w] quiet_empty [OF w i(1)] in \<open>auto simp: fun_eq_iff\<close>)
  moreover have act: "active s' = active s" by (simp add: fun_eq_iff active_def s')
  moreover have "last_inv s'"
    using inv bs unfolding exec_inv_def last_inv_def act by (auto simp: pcs s'(2,3))
  moreover have "main_inv token m s' \<longleftrightarrow> main_inv token m s" for m
  proof -
    have "(\<exists>b. w_pc (x_workers s' u) = Barrier b \<and> b \<notin> {BeginSearch, CheckAbort})
        \<longleftrightarrow> (\<exists>b. w_pc (x_workers s u) = Barrier b \<and> b \<notin> {BeginSearch, CheckAbort})" for u
      using bs by (auto simp: pcs)
    then show ?thesis
      by (cases "(token, m, s)" rule: main_inv.cases) (simp_all add: act wake pcs(2) s'(2,3))
  qed
  moreover have "panicking (w_pc (x_workers s' u)) \<longleftrightarrow> panicking (w_pc (x_workers s u))" for u
    using bs by (auto simp: pcs)
  ultimately show ?thesis using inv unfolding exec_inv_def by (simp add: s')
qed

text \<open>While a worker is awake the main thread is waiting for the pool, unless a worker has panicked.\<close>

lemma awake_main:
  assumes "exec_inv token items s" "i < pool_size (x_pool s)" "\<not> asleep (w_pc (x_workers s i))"
    "\<not> (\<exists>u < pool_size (x_pool s). panicking (w_pc (x_workers s u)))"
  shows "x_main s \<in> {TakePanic, CheckIdle, MainPark, NewPark}" "main_inv token (x_main s) s" "worker_panic (x_pool s) = None"
proof -
  have w: "workers_inv token items s" using assms(1) by (simp add: exec_inv_def)
  show m: "main_inv token (x_main s) s" "worker_panic (x_pool s) = None" using assms(1,4) by (auto simp: exec_inv_def)
  show "x_main s \<in> {TakePanic, CheckIdle, MainPark, NewPark}"
    using m(1) awake_active(1,4) [OF w assms(2,3)] by (cases "(token, x_main s, s)" rule: main_inv.cases) auto
qed

text \<open>A marked worker goes from one point of the barrier to the next.\<close>

lemma barrier_same:
  assumes inv: "exec_inv token items s" and i: "i < pool_size (x_pool s)"
    and pc: "w_pc (x_workers s i) = Barrier b" "\<not> asleep (Barrier b :: ('r, 'p) worker_pc)"
    and s': "s' = goto i (Barrier b') (s :: ('r, 'q, 'k, 'p) executor)"
    and b': "\<not> asleep (Barrier b' :: ('r, 'p) worker_pc)" "b' \<notin> {BeginSearch, CheckAbort} \<or> injector_tasks (x_injector s) \<noteq> {#}"
    and last: "last_inv s'"
  shows "exec_inv token items s'"
proof -
  have w: "workers_inv token items s" using inv by (simp add: exec_inv_def)
  have up: "\<not> asleep (w_pc (x_workers s i))" using pc by simp
  let ?w = "(x_workers s i)\<lparr>w_pc := Barrier b'\<rparr>"
  have W: "x_workers s' = (x_workers s)(i := ?w)" "x_pool s' = x_pool s" "x_main s' = x_main s" "x_parker s' = x_parker s"
    "x_injector s' = x_injector s"
    by (simp_all add: s' state_defs)
  have act: "active s' = active s" by (simp add: fun_eq_iff active_def W)
  have "workers_inv token items s'"
    by (rule workers_inv_put [OF w i W(1,3)])
      (use W b' pc workers_inv_wf(2) [OF w] quiet_empty [OF w i] in \<open>auto simp: fun_eq_iff\<close>)
  moreover have "panicking (w_pc (x_workers s' u)) \<longleftrightarrow> panicking (w_pc (x_workers s u))" for u
    by (auto simp: W pc)
  moreover have "main_inv token (x_main s) s'"
    if m: "x_main s \<in> {TakePanic, CheckIdle, MainPark, NewPark}" "main_inv token (x_main s) s"
  proof -
    have "wake_coming token s' \<longleftrightarrow> wake_coming token s"
      using b' pc by (intro wake_coming_put [OF W(1)]) (auto simp: W)
    then show ?thesis using m b' by (auto simp: act W)
  qed
  ultimately show ?thesis
    using inv last awake_main [OF inv i up] unfolding exec_inv_def W by blast
qed

text \<open>The mark of a worker that is not the last one is cleared.\<close>

lemma try_inactive_inv:
  assumes inv: "exec_inv token items s" and i: "i < pool_size (x_pool s)"
    and pc: "w_pc (x_workers s i) = Barrier TryInactive" and step: "barrier_step X i TryInactive s = Some s'"
  shows "exec_inv token items s'"
proof -
  let ?n = "pool_size (x_pool s)"
  have w: "workers_inv token items s" and l: "last_inv s" using inv by (auto simp: exec_inv_def)
  have up: "\<not> asleep (w_pc (x_workers s i))" by (simp add: pc)
  note a = awake_active [OF w i up]
  have i64: "i < 64" using i pool_size_le [OF w] by simp
  note tsi = try_set_worker_inactive_cases [OF a(1) [unfolded active_def] i64]
  have nl: "w_pc (x_workers s u) \<notin> {Barrier CheckInjector, Barrier SetAllInactive}" if "u < ?n" for u
    using awake_not_last [OF w l i up that] pc by auto
  show ?thesis
  proof (cases "\<exists>j. active s j \<and> j \<noteq> i")
    case True
    let ?p = "(x_pool s)\<lparr>active_workers := active_workers (x_pool s) AND NOT (worker_bit i)\<rparr>"
    have s': "s' = goto i (Barrier UpdateCount) (s\<lparr>x_pool := ?p\<rparr>)"
      using step True tsi by (auto simp: active_def)
    let ?w = "(x_workers s i)\<lparr>w_pc := Barrier UpdateCount\<rparr>"
    have W: "x_workers s' = (x_workers s)(i := ?w)" "pool_size (x_pool s') = ?n" "x_main s' = x_main s" "x_parker s' = x_parker s"
      "x_injector s' = x_injector s" "worker_panic (x_pool s') = worker_panic (x_pool s)"
      by (simp_all add: s' state_defs)
    have act: "active s' u \<longleftrightarrow> active s u \<and> u \<noteq> i" for u
      by (simp add: active_def s' state_defs bit_clear_worker_bit)
    have own: "owners token ?n (x_workers s') (x_main s) u = of_bool (active s' u)" if "u < ?n" for u
      using owners_upd [OF i, of token "x_workers s" ?w "x_main s" u] owners_eq [OF w that] a act [of u]
      by (cases "u = i") (auto simp: W pc)
    have "workers_inv token items s'"
      using w own act unfolding workers_inv_def W pool_wf_def by (auto simp: pc active_def)
    moreover have "last_inv s'" using nl by (auto simp: last_inv_def W)
    moreover have "panicking (w_pc (x_workers s' u)) \<longleftrightarrow> panicking (w_pc (x_workers s u))" for u
      by (auto simp: W pc)
    moreover have "main_inv token (x_main s) s'" if m: "x_main s \<in> {TakePanic, CheckIdle, MainPark, NewPark}" "main_inv token (x_main s) s"
    proof -
      have "wake_coming token s' \<longleftrightarrow> wake_coming token s"
        by (intro wake_coming_put [OF W(1)]) (auto simp: W pc)
      then show ?thesis using m True a(1) by (auto simp: act W)
    qed
    ultimately show ?thesis
      using inv awake_main [OF inv i up] unfolding exec_inv_def W by blast
  next
    case False
    then have "try_set_worker_inactive i (x_pool s) = Some (x_pool s, False)"
      unfolding tsi by (simp only: active_def if_False)
    then have s': "s' = goto i (Barrier CheckInjector) s" using step by simp
    have "last_inv s'" using nl False by (auto simp: last_inv_def active_def s' state_defs)
    then show ?thesis by (intro barrier_same [OF inv i pc _ s']) auto
  qed
qed

text \<open>The last active worker looks at the injector queue.\<close>

lemma check_injector_inv:
  assumes inv: "exec_inv token items s" and i: "i < pool_size (x_pool s)"
    and pc: "w_pc (x_workers s i) = Barrier CheckInjector" and step: "barrier_step X i CheckInjector s = Some s'"
  shows "exec_inv token items s'"
proof -
  have w: "workers_inv token items s" and l: "last_inv s" using inv by (auto simp: exec_inv_def)
  have up: "\<not> asleep (w_pc (x_workers s i))" by (simp add: pc)
  have nl: "w_pc (x_workers s u) \<notin> {Barrier CheckInjector, Barrier SetAllInactive}" if "u < pool_size (x_pool s)" "u \<noteq> i" for u
    using awake_not_last [OF w l i up that(1)] that(2) by auto
  have only: "active s u \<Longrightarrow> u = i" for u using l i pc by (auto simp: last_inv_def)
  note empty = injector_is_empty_iff [OF workers_inv_wf(2) [OF w]]
  show ?thesis
  proof (cases "injector_is_empty (x_injector s)")
    case True
    then have s': "s' = goto i (Barrier SetAllInactive) s" using step by simp
    have "last_inv s'" using nl only True empty by (auto simp: last_inv_def active_def s' state_defs)
    then show ?thesis by (intro barrier_same [OF inv i pc _ s']) auto
  next
    case False
    then have s': "s' = goto i (Barrier BeginSearch) s" using step by simp
    have "last_inv s'" using nl only by (auto simp: last_inv_def active_def s' state_defs)
    then show ?thesis using False empty by (intro barrier_same [OF inv i pc _ s']) auto
  qed
qed

text \<open>The last active worker clears all the marks: its own.\<close>

lemma set_all_inactive_inv:
  assumes inv: "exec_inv token items s" and i: "i < pool_size (x_pool s)"
    and pc: "w_pc (x_workers s i) = Barrier SetAllInactive" and step: "barrier_step X i SetAllInactive s = Some s'"
  shows "exec_inv token items s'"
proof -
  let ?n = "pool_size (x_pool s)" and ?w = "(x_workers s i)\<lparr>w_pc := Barrier UpdateCountLast\<rparr>"
  have w: "workers_inv token items s" and l: "last_inv s" using inv by (auto simp: exec_inv_def)
  have up: "\<not> asleep (w_pc (x_workers s i))" by (simp add: pc)
  note a = awake_active [OF w i up]
  have only: "active s u \<longleftrightarrow> u = i" for u using l i pc a(1) by (auto simp: last_inv_def)
  have empty: "injector_tasks (x_injector s) = {#}" using l i pc by (auto simp: last_inv_def)
  have W: "x_workers s' = (x_workers s)(i := ?w)" "pool_size (x_pool s') = ?n" "x_main s' = x_main s"
    "x_injector s' = x_injector s" "worker_panic (x_pool s') = worker_panic (x_pool s)"
    using step by (auto simp: state_defs set_all_workers_inactive_def)
  have act: "\<not> active s' u" for u
    using step by (auto simp: active_def state_defs set_all_workers_inactive_def)
  have own: "owners token ?n (x_workers s') (x_main s) u = 0" if "u < ?n" for u
    using owners_upd [OF i, of token "x_workers s" ?w "x_main s" u] owners_eq [OF w that] a only [of u]
    by (cases "u = i") (auto simp: W pc)
  have "workers_inv token items s'"
    using w own act unfolding workers_inv_def W pool_wf_def by (auto simp: pc active_def)
  moreover have "w_pc (x_workers s' u) \<notin> {Barrier CheckInjector, Barrier SetAllInactive}" if "u < ?n" for u
    using awake_not_last [OF w l i up that] by (cases "u = i") (auto simp: W)
  then have "last_inv s'" unfolding last_inv_def W by auto
  moreover have "panicking (w_pc (x_workers s' u)) \<longleftrightarrow> panicking (w_pc (x_workers s u))" for u
    by (auto simp: W pc)
  moreover have "main_inv token (x_main s) s'"
    if m: "x_main s \<in> {TakePanic, CheckIdle, MainPark, NewPark}" "main_inv token (x_main s) s"
  proof -
    have "wake_coming token s'" using i by (auto simp: wake_coming_def W)
    then show ?thesis using m empty by (auto simp: act W)
  qed
  ultimately show ?thesis
    using inv awake_main [OF inv i up] unfolding exec_inv_def W by blast
qed

text \<open>A worker takes its token and is awake.\<close>

lemma park_inv:
  assumes laws: "parker_laws X token" and inv: "exec_inv token items s" and i: "i < pool_size (x_pool s)"
    and pc: "w_pc (x_workers s i) = Barrier ParkWorker" and park: "pk_park X (w_parker (x_workers s i)) = Some k"
    and s': "s' = put_worker i ((x_workers s i)\<lparr>w_parker := k, w_pc := Barrier CheckAbort\<rparr>) s"
  shows "exec_inv token items s'"
proof -
  let ?n = "pool_size (x_pool s)" and ?w = "(x_workers s i)\<lparr>w_parker := k, w_pc := Barrier CheckAbort\<rparr>"
  have w: "workers_inv token items s" and l: "last_inv s" using inv by (auto simp: exec_inv_def)
  have tok: "token (w_parker (x_workers s i))" "\<not> token k" using parker_facts(4) [OF laws park] by auto
  note a = token_active [OF w i tok(1)]
  have W: "x_workers s' = (x_workers s)(i := ?w)" "x_pool s' = x_pool s" "x_main s' = x_main s"
    "x_injector s' = x_injector s" "x_parker s' = x_parker s"
    by (simp_all add: s' state_defs)
  have act: "active s' = active s" by (simp add: fun_eq_iff active_def W)
  have own: "owners token ?n (x_workers s') (x_main s) u = owners token ?n (x_workers s) (x_main s) u" for u
    using owners_upd [OF i, of token "x_workers s" ?w "x_main s" u] tok by (cases "u = i") (auto simp: W pc)
  have "workers_inv token items s'"
    using w quiet_empty [OF w i] unfolding workers_inv_def W(2-) own act by (auto simp: W(1) pc)
  moreover have "last_inv s'"
    using l a(1) unfolding last_inv_def act by (auto simp: W)
  moreover have "panicking (w_pc (x_workers s' u)) \<longleftrightarrow> panicking (w_pc (x_workers s u))" for u
    by (auto simp: W pc)
  moreover have "main_inv token m s'" if "main_inv token m s" "m = x_main s" for m
    using that a(1) i tok(1) pc main_claims_active(3) [OF w i]
    by (cases "(token, m, s)" rule: main_inv.cases) (auto simp: act W wake_coming_def)
  ultimately show ?thesis
    using inv unfolding exec_inv_def W by blast
qed

lemma barrier_step_inv:
  assumes laws: "parker_laws X token" and inv: "exec_inv token items s"
    and i: "i < pool_size (x_pool s)" and abort: "\<not> x_abort s"
    and pc: "w_pc (x_workers s i) = Barrier pc" and step: "barrier_step X i pc s = Some s'"
  shows "exec_inv token items s'"
proof -
  have w: "workers_inv token items s" using inv by (simp add: exec_inv_def)
  note wf = workers_inv_wf [OF w]
  note awake = awake_step [OF inv i]
  note sleep = asleep_step [OF inv i]
  have q: "items (local_queue (x_workers s i)) = {#}" "fast_slot (x_workers s i) = None"
    using quiet_empty [OF w i] pc by auto
  show ?thesis
  proof (cases pc)
    case UpdateCount
    then show ?thesis
      using step by (auto simp: state_defs update_msg_count_def Let_def pc intro!: sleep)
  next
    case UpdateCountLast
    then show ?thesis
      using step by (auto simp: state_defs update_msg_count_def Let_def pc intro!: sleep)
  next
    case UnparkExecutor
    then show ?thesis
      using step parker_facts(2) [OF laws] by (auto simp: state_defs pc intro!: sleep)
  next
    case BeginSearch
    then show ?thesis
      using step wf q by (auto simp: state_defs begin_worker_search_def pc intro!: awake)
  next
    case CheckAbort
    then show ?thesis
      using step wf q abort by (auto simp: state_defs pc intro!: awake)
  next
    case TryInactive
    then show ?thesis using step pc by (intro try_inactive_inv [OF inv i]) auto
  next
    case CheckInjector
    then show ?thesis using step pc by (intro check_injector_inv [OF inv i]) auto
  next
    case SetAllInactive
    then show ?thesis using step pc by (intro set_all_inactive_inv [OF inv i]) auto
  next
    case ParkWorker
    then obtain k where "pk_park X (w_parker (x_workers s i)) = Some k"
      "s' = put_worker i ((x_workers s i)\<lparr>w_parker := k, w_pc := Barrier CheckAbort\<rparr>) s"
      using step by (auto split: option.splits)
    then show ?thesis using ParkWorker pc by (intro park_inv [OF laws inv i]) auto
  qed
qed

end
