(* ===== verification/Mt_Reach.thy ===== *)
theory Mt_Reach
  imports Mt_Steps
begin

text \<open>
  The invariant in every reachable state of the executor: the report of a panic, the steps of the main
  thread, and the induction over executions.
\<close>

section \<open>Panics\<close>

lemma panic_step_inv:
  fixes s :: "('r, 'q, 'k, 'p) executor"
  assumes inv: "exec_inv token items s" and i: "i < pool_size (x_pool s)"
    and pc: "w_pc (x_workers s i) = PanicExit pc" and step: "panic_step X i pc s = Some s'" and abort: "\<not> x_abort s'"
  shows "exec_inv token items s'"
proof -
  have w: "workers_inv token items s" using inv by (simp add: exec_inv_def)
  have "pc_ok (w_pc (x_workers s i))" using w i by (simp add: workers_inv_def)
  then have ok: "pc_ok (PanicExit pc :: ('r, 'p) worker_pc)" by (simp add: pc)
  show ?thesis
  proof (cases pc)
    case (Register payload)
    then show ?thesis
      using step pc workers_inv_wf(2) [OF w]
      by (auto simp: state_defs register_panic_def Let_def intro!: awake_step [OF inv i])
  next
    case SetAbort
    then show ?thesis using step abort by (auto simp: state_defs)
  qed (use ok in auto)
qed

section \<open>The main thread\<close>

lemma active_upd [simp]:
  "active (s\<lparr>x_main := m\<rparr>) = active s" "active (s\<lparr>x_injector := q\<rparr>) = active s" "active (s\<lparr>x_timeout := d\<rparr>) = active s"
  "active (s\<lparr>x_parker := k\<rparr>) = active s" "active (s\<lparr>x_pool := p\<rparr>) i \<longleftrightarrow> bit (active_workers p) i"
  by (simp_all add: fun_eq_iff active_def)

lemma wake_coming_main [simp]: "wake_coming token (s\<lparr>x_main := m\<rparr>) = wake_coming token s"
  by (simp add: wake_coming_def)

text \<open>Program points that the main thread reaches after setting the abort signal.\<close>

fun aborting :: "'p main_pc \<Rightarrow> bool" where
  "aborting TimeoutStore = True"
| "aborting (TimeoutUnpark js) = True"
| "aborting DropStore = True"
| "aborting (DropUnpark js) = True"
| "aborting JoinWorkers = True"
| "aborting MainDropped = True"
| "aborting _ = False"

lemma no_last_worker:
  assumes inv: "exec_inv token items s"
    and calm: "(\<forall>i. \<not> active s i) \<or> (\<exists>i < pool_size (x_pool s). panicking (w_pc (x_workers s i)))"
    and u: "u < pool_size (x_pool s)"
  shows "w_pc (x_workers s u) \<notin> {Barrier CheckInjector, Barrier SetAllInactive}"
proof
  assume last: "w_pc (x_workers s u) \<in> {Barrier CheckInjector, Barrier SetAllInactive}"
  have w: "workers_inv token items s" "last_inv s" using inv by (auto simp: exec_inv_def)
  have "active s u" using awake_active(1) [OF w(1) u] last by auto
  with calm obtain k where k: "k < pool_size (x_pool s)" "panicking (w_pc (x_workers s k))" by blast
  then have "\<not> asleep (w_pc (x_workers s k))" by (cases "w_pc (x_workers s k)") auto
  from awake_not_last [OF w k(1) this u last] k last show False by auto
qed

text \<open>A step of the main thread that neither marks nor unparks a worker.\<close>

lemma main_put:
  fixes s :: "('r, 'q, 'k, 'p) executor"
  assumes inv: "exec_inv token items s"
    and s': "x_workers s' = x_workers s" "pool_size (x_pool s') = pool_size (x_pool s)"
      "active_workers (x_pool s') = active_workers (x_pool s)" "injector_wf BUCKET_SIZE (x_injector s')"
      "main_claims (x_main s') = main_claims (x_main s)"
    and inj: "x_injector s' = x_injector s \<or> (\<forall>i. \<not> active s i) \<or> (\<exists>i < pool_size (x_pool s). panicking (w_pc (x_workers s i)))"
    and main: "main_inv token (x_main s) s \<Longrightarrow> worker_panic (x_pool s) = None \<Longrightarrow>
      main_inv token (x_main s') s' \<and> worker_panic (x_pool s') = None"
  shows "exec_inv token items s'"
proof -
  have act: "active s' = active s" by (simp add: fun_eq_iff active_def s')
  have own: "owners token n W (x_main s') = owners token n W (x_main s)" for n and W :: "nat \<Rightarrow> ('r, 'q, 'k, 'p) worker"
    by (simp add: fun_eq_iff owners_def s'(5))
  have "workers_inv token items s'"
    using inv s'(2-4) unfolding exec_inv_def workers_inv_def own act s'(1,2,5) pool_wf_def by (simp add: active_def)
  moreover have "last_inv s'"
  proof (cases "x_injector s' = x_injector s")
    case True
    then show ?thesis using inv unfolding exec_inv_def last_inv_def act s'(1,2) by simp
  next
    case False
    then have "w_pc (x_workers s u) \<notin> {Barrier CheckInjector, Barrier SetAllInactive}" if "u < pool_size (x_pool s)" for u
      using no_last_worker [OF inv _ that] inj by blast
    then show ?thesis unfolding last_inv_def s'(1,2) by auto
  qed
  ultimately show ?thesis using inv main unfolding exec_inv_def s'(1,2) by blast
qed

text \<open>The main thread sets the mark of a worker.\<close>

lemma main_claim_inv:
  fixes s :: "('r, 'q, 'k, 'p) executor"
  assumes inv: "exec_inv token items s" and m: "x_main s = ActivateFirst (ActLoaded loaded)"
    and j: "j < pool_size (x_pool s)" "\<not> active s j"
    and s': "s' = s\<lparr>x_pool := (x_pool s)\<lparr>active_workers := active_workers (x_pool s) OR worker_bit j\<rparr>,
      x_main := ActivateFirst (ActSearch j)\<rparr>"
  shows "exec_inv token items s'"
proof -
  let ?n = "pool_size (x_pool s)"
  have w: "workers_inv token items s" using inv by (simp add: exec_inv_def)
  have act: "active s' u \<longleftrightarrow> active s u \<or> u = j" for u
    by (rule or_worker_bit_active [OF w j(1)]) (simp add: s')
  have W: "x_workers s' = x_workers s" "pool_size (x_pool s') = ?n" "x_main s' = ActivateFirst (ActSearch j)"
    "x_injector s' = x_injector s" "worker_panic (x_pool s') = worker_panic (x_pool s)"
    by (simp_all add: s')
  have own: "owners token ?n (x_workers s) (ActivateFirst (ActSearch j)) u = of_bool (active s' u)" if "u < ?n" for u
    using owners_eq [OF w that] act [of u] j(2) by (auto simp: owners_def m)
  have calm: "(\<forall>i. \<not> active s i) \<or> (\<exists>i < ?n. panicking (w_pc (x_workers s i)))"
    using inv unfolding exec_inv_def m by auto
  have "workers_inv token items s'"
    using w own act j(1) unfolding workers_inv_def W pool_wf_def by (auto simp: active_def)
  moreover have "last_inv s'"
    using no_last_worker [OF inv calm] unfolding last_inv_def W by auto
  moreover have "main_inv token (x_main s') s'" if "main_inv token (x_main s) s"
    using that by (simp add: m W act)
  ultimately show ?thesis using inv unfolding exec_inv_def W by blast
qed

text \<open>The main thread unparks the worker it has marked.\<close>

lemma main_notify_inv:
  fixes s :: "('r, 'q, 'k, 'p) executor"
  assumes laws: "parker_laws X token" and inv: "exec_inv token items s" and m: "x_main s = ActivateFirst (ActNotify j)"
    and s': "s' = unpark_worker X j (s\<lparr>x_main := TakePanic\<rparr>)"
  shows "exec_inv token items s'"
proof -
  let ?n = "pool_size (x_pool s)" and ?v = "(x_workers s j)\<lparr>w_parker := pk_unpark X (w_parker (x_workers s j))\<rparr>"
  have w: "workers_inv token items s" using inv by (simp add: exec_inv_def)
  have j: "j < ?n" "main_claims (x_main s) j" using w by (auto simp: workers_inv_def m)
  note c = main_claims_active [OF w j]
  have W: "x_workers s' = (x_workers s)(j := ?v)" "x_pool s' = x_pool s" "x_main s' = TakePanic" "x_injector s' = x_injector s"
    by (simp_all add: s' unpark_worker_def put_worker_def)
  have act: "active s' = active s" by (simp add: fun_eq_iff active_def W)
  have own: "owners token ?n (x_workers s') TakePanic u = owners token ?n (x_workers s) (x_main s) u" for u
    using owners_upd [OF j(1), of token "x_workers s" ?v TakePanic u] c(3) parker_facts(2) [OF laws, of "w_parker (x_workers s j)"]
    by (auto simp: owners_def m W split: if_splits)
  have pcs: "w_pc (x_workers s' u) = w_pc (x_workers s u)" "local_queue (x_workers s' u) = local_queue (x_workers s u)"
    "fast_slot (x_workers s' u) = fast_slot (x_workers s u)" for u
    by (simp_all add: W)
  have "workers_inv token items s'"
    using w unfolding workers_inv_def W(2-4) own act pcs by (simp add: m)
  moreover have "last_inv s'" using inv unfolding exec_inv_def last_inv_def act pcs W(2,4) by simp
  moreover have "main_inv token (x_main s') s'" using c(1) by (auto simp: W(3) act)
  ultimately show ?thesis using inv unfolding exec_inv_def W(2) pcs by blast
qed

lemma activate_first_inv:
  fixes s :: "('r, 'q, 'k, 'p) executor"
  assumes laws: "parker_laws X token" and inv: "exec_inv token items s" and m: "x_main s = ActivateFirst a"
    and step: "executor_run_step X c (ActivateFirst a) s = Some s'"
  shows "exec_inv token items s'"
proof -
  have w: "workers_inv token items s" using inv by (simp add: exec_inv_def)
  note wf = workers_inv_wf [OF w]
  note put = main_put [OF inv]
  show ?thesis
  proof (cases a)
    case ActLoad
    then show ?thesis
      using step m wf by (auto simp: fun_eq_iff active_def word_bits intro!: put)
  next
    case (ActLoaded loaded)
    let ?j = "trailing_ones loaded"
    show ?thesis
    proof (cases "pool_size (x_pool s) \<le> ?j \<or> active s ?j")
      case True
      moreover have "trailing_ones 0 = 0" using trailing_ones_active [of 0 0] by (cases "trailing_ones 0") auto
      ultimately show ?thesis
        using step wf m ActLoaded trailing_ones_bounds [OF wf(1), of loaded]
        by (auto simp: Let_def claim_worker_cases active_def fun_eq_iff pool_wf_def split: if_splits intro!: put)
    next
      case False
      then have "s' = s\<lparr>x_pool := (x_pool s)\<lparr>active_workers := active_workers (x_pool s) OR worker_bit ?j\<rparr>,
          x_main := ActivateFirst (ActSearch ?j)\<rparr>"
        using step ActLoaded trailing_ones_bounds [OF wf(1), of loaded]
        by (auto simp: Let_def claim_worker_cases active_def)
      then show ?thesis using False m ActLoaded by (intro main_claim_inv [OF inv, of loaded ?j]) auto
    qed
  next
    case (ActSearch j)
    then show ?thesis
      using step m wf by (auto simp: fun_eq_iff begin_worker_search_def active_def intro!: put)
  next
    case (ActNotify j)
    then show ?thesis
      using step m by (intro main_notify_inv [OF laws inv, of j]) auto
  next
    case ActReturn
    then show ?thesis using step m wf by (auto simp: fun_eq_iff intro!: put)
  qed
qed

lemma main_step_inv:
  fixes s :: "('r, 'q, 'k, 'p) executor"
  assumes laws: "parker_laws X token" and inv: "exec_inv token items s" and alive: "\<not> aborting (x_main s)"
    and step: "main_step X c s = Some s'" and abort: "\<not> x_abort s'"
  shows "exec_inv token items s'"
proof -
  have w: "workers_inv token items s" using inv by (simp add: exec_inv_def)
  note wf = workers_inv_wf [OF w]
  note put = main_put [OF inv]
  have idle: "pool_is_idle (x_pool s) \<longleftrightarrow> (\<forall>i. \<not> active s i)" by (simp add: pool_is_idle_iff active_def)
  show ?thesis
  proof (cases "x_main s")
    case NewPark
    then obtain k where k: "pk_park X (x_parker s) = Some k" "s' = s\<lparr>x_parker := k, x_main := NewCheckIdle\<rparr>"
      using step by (auto split: option.splits)
    then have "wake_coming token s" using parker_facts(4) [OF laws] by (auto simp: wake_coming_def)
    then show ?thesis using NewPark k wf by (auto simp: fun_eq_iff intro!: put)
  next
    case NewCheckIdle
    then show ?thesis using step wf idle by (auto simp: fun_eq_iff intro!: put split: if_splits)
  next
    case (MainIdle res)
    have calm: "(\<forall>i. \<not> active s i) \<or> (\<exists>i < pool_size (x_pool s). panicking (w_pc (x_workers s i)))"
      using inv unfolding exec_inv_def MainIdle by auto
    show ?thesis
      using step wf MainIdle abort calm insert_task_wf(1) [OF wf(2)]
      by (cases c) (auto simp: executor_spawn_def fun_eq_iff intro!: put)
  next
    case (ActivateFirst a)
    then show ?thesis using step by (intro activate_first_inv [OF laws inv]) auto
  next
    case TakePanic
    then show ?thesis
      using step wf by (auto simp: take_panic_def fun_eq_iff active_def split: option.splits intro!: put)
  next
    case CheckIdle
    then show ?thesis using step wf idle by (auto simp: fun_eq_iff intro!: put split: if_splits)
  next
    case ReadCount
    then show ?thesis using step wf by (auto simp: read_msg_count_def fun_eq_iff intro!: put split: if_splits)
  next
    case MainPark
    then show ?thesis using step wf abort by (auto simp: fun_eq_iff intro!: put split: if_splits option.splits)
  qed (use step alive in auto)
qed

end
