(* ===== verification/Mt_Frame.thy ===== *)
theory Mt_Frame
  imports Mt_Reach
begin

text \<open>
  What the steps leave unchanged, and the invariants that follow: the invariant of the executor in every
  reachable state before the abort signal, the count of messages, and the end of the workers when the
  executor is dropped.
\<close>

section \<open>Frames\<close>

lemma pool_frame [simp]:
  "pool_size (begin_worker_search p) = pool_size p" "pool_size (end_worker_search p) = pool_size p"
  "pool_size (set_all_workers_inactive p) = pool_size p" "pool_size (register_panic m d p) = pool_size p"
  "try_set_worker_inactive i p = Some (p', b) \<Longrightarrow> pool_size p' = pool_size p"
  "activate_all_workers p = Some (p', js) \<Longrightarrow> pool_size p' = pool_size p \<and> js = [0 ..< pool_size p]"
  "claim_worker i p = (p', a) \<Longrightarrow> pool_size p' = pool_size p"
  "take_panic p = (p', r) \<Longrightarrow> pool_size p' = pool_size p"
  by (auto simp: begin_worker_search_def end_worker_search_def set_all_workers_inactive_def register_panic_def
      try_set_worker_inactive_def activate_all_workers_def set_all_workers_active_def claim_worker_def take_panic_def
      Let_def split: if_splits)

lemma activate_frame:
  "activate_worker_relaxed a p = (p', a', j) \<Longrightarrow> pool_size p' = pool_size p"
  "activate_worker a p = (p', a', j) \<Longrightarrow> pool_size p' = pool_size p"
  by (cases a; auto simp: Let_def split: if_splits prod.splits)+

text \<open>What a step of worker \<open>i\<close> leaves to the other threads.\<close>

definition worker_frame ::
  "('r, 'q, 'k) exec_ops \<Rightarrow> nat \<Rightarrow> ('r, 'q, 'k, 'p) executor \<Rightarrow> ('r, 'q, 'k, 'p) executor \<Rightarrow> bool" where
  "worker_frame X i s s' \<longleftrightarrow> pool_size (x_pool s') = pool_size (x_pool s) \<and> x_main s' = x_main s
     \<and> (x_abort s \<longrightarrow> x_abort s')
     \<and> (\<forall>u. u \<noteq> i \<longrightarrow> w_pc (x_workers s' u) = w_pc (x_workers s u)
          \<and> thread_msg_count (x_workers s' u) = thread_msg_count (x_workers s u)
          \<and> w_parker (x_workers s' u) \<in> {w_parker (x_workers s u), pk_unpark X (w_parker (x_workers s u))})"

lemma worker_step_frame:
  assumes "worker_step X i c s = Some s'"
  shows "worker_frame X i s s'"
proof (cases "w_pc (x_workers s i)")
  case (Barrier pc)
  then show ?thesis
    using assms by (cases pc) (auto simp: worker_step_def worker_frame_def state_defs update_msg_count_def Let_def
        split: option.splits prod.splits bool.splits)
next
  case (Search pc)
  then show ?thesis
    using assms by (cases pc) (auto simp: worker_step_def worker_frame_def state_defs Let_def
        split: option.splits prod.splits if_splits)
next
  case (RunLoop pc)
  then show ?thesis
    using assms by (cases pc; cases c) (auto simp: worker_step_def worker_frame_def state_defs Let_def schedule_task_def
        split: option.splits prod.splits if_splits)
next
  case (Schedule pc)
  then show ?thesis
    using assms by (cases pc) (auto simp: worker_step_def worker_frame_def state_defs Let_def activate_frame
        split: option.splits prod.splits if_splits sum.splits)
next
  case (PanicExit pc)
  then show ?thesis
    using assms by (cases "(X, i, pc, s)" rule: panic_step.cases)
      (auto simp: worker_step_def worker_frame_def state_defs Let_def split: option.splits prod.splits)
next
  case WorkerExit
  then show ?thesis using assms by (simp add: worker_step_def)
qed

definition main_frame ::
  "('r, 'q, 'k) exec_ops \<Rightarrow> ('r, 'q, 'k, 'p) executor \<Rightarrow> ('r, 'q, 'k, 'p) executor \<Rightarrow> bool" where
  "main_frame X s s' \<longleftrightarrow> pool_size (x_pool s') = pool_size (x_pool s) \<and> (x_abort s \<longrightarrow> x_abort s')
     \<and> (aborting (x_main s') \<longrightarrow> aborting (x_main s) \<or> x_abort s')
     \<and> x_msg_count s' = x_msg_count s \<and> x_balance s' = x_balance s
     \<and> (\<forall>u. w_pc (x_workers s' u) = w_pc (x_workers s u)
          \<and> thread_msg_count (x_workers s' u) = thread_msg_count (x_workers s u)
          \<and> w_parker (x_workers s' u) \<in> {w_parker (x_workers s u), pk_unpark X (w_parker (x_workers s u))})"

lemma main_step_frame:
  assumes "main_step X c s = Some s'"
  shows "main_frame X s s'"
proof (cases "x_main s")
  case (MainIdle res)
  then show ?thesis using assms by (cases c) (auto simp: main_frame_def executor_spawn_def)
next
  case (ActivateFirst a)
  then show ?thesis
    using assms by (auto simp: main_frame_def state_defs activate_frame Let_def
        split: option.splits prod.splits if_splits)
next
  case (TimeoutUnpark js)
  then show ?thesis using assms by (cases js) (auto simp: main_frame_def state_defs)
next
  case (DropUnpark js)
  then show ?thesis using assms by (cases js) (auto simp: main_frame_def state_defs)
next
  case TakePanic
  then show ?thesis using assms by (auto simp: main_frame_def split: prod.splits option.splits)
next
  case ReadCount
  then show ?thesis using assms by (auto simp: main_frame_def read_msg_count_def split: if_splits)
qed (use assms in \<open>auto simp: main_frame_def split: option.splits if_splits\<close>)

section \<open>Reachable states\<close>

lemma executor_new_eq:
  assumes "executor_new X n = Some s"
  obtains w where "1 \<le> n" "n \<le> 64" "\<forall>i. bit w i \<longleftrightarrow> i < n"
    "s = \<lparr>x_pool = \<lparr>pool_size = n, active_workers = w, searching_workers = 0, worker_panic = None\<rparr>,
       x_injector = \<lparr>inj_inner = [], inj_is_empty = True\<rparr>, x_workers = worker_new X, x_parker = pk_new X,
       x_msg_count = 0, x_abort = False, x_timeout = 0, x_main = NewPark, x_balance = 0\<rparr>"
proof -
  obtain p where p: "pool_new n = Some p" and "set_all_workers_active p = Some (x_pool s)"
    using assms by (auto simp: executor_new_def bind_eq_Some_conv)
  then have n: "1 \<le> n" "n \<le> 64" and p_eq: "p = \<lparr>pool_size = n, active_workers = 0, searching_workers = 0, worker_panic = None\<rparr>"
    by (auto simp: pool_new_def split: if_splits)
  obtain w where w: "set_all_workers_active p = Some (p\<lparr>active_workers := w\<rparr>)" "\<forall>i. bit w i \<longleftrightarrow> i < pool_size p"
    using pool_new_wf [OF p] by (auto elim: set_all_workers_active_eq)
  show thesis
    by (rule that [OF n, of w])
      (use assms p w in \<open>auto simp: executor_new_def injector_new_def BUCKET_SIZE_def p_eq\<close>)
qed

lemma executor_new_fields:
  "executor_new X n = Some s \<Longrightarrow> pool_size (x_pool s) = n \<and> 1 \<le> n \<and> n \<le> 64 \<and> x_main s = NewPark
    \<and> x_msg_count s = 0 \<and> x_balance s = 0 \<and> x_workers s = worker_new X"
  by (erule executor_new_eq) simp

lemma executor_new_inv:
  assumes "local_queue_laws X items" "parker_laws X token" "executor_new X n = Some s"
  shows "exec_inv token items s"
proof -
  obtain w where n: "1 \<le> n" "n \<le> 64" and w: "\<forall>i. bit w i \<longleftrightarrow> i < n"
    and s: "s = \<lparr>x_pool = \<lparr>pool_size = n, active_workers = w, searching_workers = 0, worker_panic = None\<rparr>,
       x_injector = \<lparr>inj_inner = [], inj_is_empty = True\<rparr>, x_workers = worker_new X, x_parker = pk_new X,
       x_msg_count = 0, x_abort = False, x_timeout = 0, x_main = NewPark, x_balance = 0\<rparr>"
    by (rule executor_new_eq [OF assms(3)])
  have act: "active s i \<longleftrightarrow> i < n" for i using w by (simp add: active_def s)
  have pcs: "w_pc (worker_new X i) = Barrier TryInactive" "w_parker (worker_new X i) = pk_new X"
    "local_queue (worker_new X i) = lq_new X QUEUE_SIZE" "fast_slot (worker_new X i) = None" for i
    by (simp_all add: worker_new_def)
  have "owners token n (worker_new X) NewPark i = 1" for i
    using parker_facts(1) [OF assms(2)] by (simp add: owners_def pending_def pcs)
  then have "workers_inv token items s"
    using n w queue_laws(1) [OF assms(1)] unfolding workers_inv_def act
    by (auto simp: pcs pool_wf_def injector_wf_def BUCKET_SIZE_def s)
  moreover have "last_inv s" by (simp add: last_inv_def s pcs)
  moreover have "\<not> wake_coming token s" using parker_facts(1) [OF assms(2)] by (simp add: wake_coming_def s pcs)
  then have "main_inv token NewPark s"
    using n parker_facts(1) [OF assms(2)] unfolding main_inv.simps act
    by (auto simp: s pcs injector_tasks_def intro!: exI [of _ 0])
  ultimately show ?thesis by (simp add: exec_inv_def s)
qed

lemma executor_step_inv:
  assumes laws: "local_queue_laws X items" "parker_laws X token" and inv: "exec_inv token items s"
    and alive: "aborting (x_main s) \<longrightarrow> x_abort s"
    and step: "executor_step X a s = Some s'" and abort: "\<not> x_abort s'"
  shows "exec_inv token items s'"
proof (cases a)
  case (WorkerAct i c)
  then have i: "i < pool_size (x_pool s)" and st: "worker_step X i c s = Some s'"
    using step by (auto split: if_splits)
  have a: "\<not> x_abort s" using worker_step_frame [OF st] abort by (auto simp: worker_frame_def)
  show ?thesis
    using st barrier_step_inv [OF laws(2) inv i a] search_loop_step_inv [OF laws(1) inv i] run_step_inv [OF laws(1) inv i]
      schedule_step_inv [OF laws inv i] panic_step_inv [OF inv i] a abort
    by (cases "w_pc (x_workers s i)") (auto simp: worker_step_def)
next
  case (MainAct c)
  then have st: "main_step X c s = Some s'" using step by simp
  have a: "\<not> x_abort s" using main_step_frame [OF st] abort by (auto simp: main_frame_def)
  then show ?thesis using main_step_inv [OF laws(2) inv _ st abort] alive by blast
qed

lemma executor_reach_frame:
  "executor_reach X n s \<Longrightarrow> pool_size (x_pool s) = n \<and> 1 \<le> n \<and> n \<le> 64 \<and> (aborting (x_main s) \<longrightarrow> x_abort s)"
proof (induction rule: executor_reach.induct)
  case (init s)
  then show ?case using executor_new_fields [OF init] by simp
next
  case (step s a s')
  show ?case
  proof (cases a)
    case (WorkerAct i c)
    then have "worker_frame X i s s'" using step.hyps(2) worker_step_frame by (auto split: if_splits)
    then show ?thesis using step.IH by (auto simp: worker_frame_def)
  next
    case (MainAct c)
    then have "main_frame X s s'" using step.hyps(2) main_step_frame by auto
    then show ?thesis using step.IH by (auto simp: main_frame_def)
  qed
qed

theorem executor_reach_inv:
  assumes "local_queue_laws X items" "parker_laws X token" "executor_reach X n s" "\<not> x_abort s"
  shows "exec_inv token items s"
  using assms(3,4)
proof (induction rule: executor_reach.induct)
  case (init s)
  then show ?case using executor_new_inv [OF assms(1,2)] by blast
next
  case (step s a s')
  have "\<not> x_abort s"
  proof (cases a)
    case (WorkerAct i c)
    then have "worker_frame X i s s'" using step.hyps(2) worker_step_frame by (auto split: if_splits)
    then show ?thesis using step.prems by (auto simp: worker_frame_def)
  next
    case (MainAct c)
    then have "main_frame X s s'" using step.hyps(2) main_step_frame by auto
    then show ?thesis using step.prems by (auto simp: main_frame_def)
  qed
  then show ?case
    using executor_step_inv [OF assms(1,2) step.IH _ step.hyps(2) step.prems] executor_reach_frame [OF step.hyps(1)] by blast
qed

section \<open>The count of messages\<close>

fun counted :: "('r, 'p) worker_pc \<Rightarrow> bool" where
  "counted (Barrier pc) \<longleftrightarrow> pc \<in> {ParkWorker, UnparkExecutor}"
| "counted _ \<longleftrightarrow> False"

definition count_inv :: "('r, 'q, 'k, 'p) executor \<Rightarrow> bool" where
  "count_inv s \<longleftrightarrow> x_msg_count s + (\<Sum>i < pool_size (x_pool s). thread_msg_count (x_workers s i)) = x_balance s
     \<and> (\<forall>i < pool_size (x_pool s). counted (w_pc (x_workers s i)) \<longrightarrow> thread_msg_count (x_workers s i) = 0)"

text \<open>A step of a worker that does not touch the counts.\<close>

lemma count_same:
  assumes "count_inv s" "pool_size (x_pool s') = pool_size (x_pool s)" "x_msg_count s' = x_msg_count s" "x_balance s' = x_balance s"
    "\<And>u. thread_msg_count (x_workers s' u) = thread_msg_count (x_workers s u)"
    "\<And>u. counted (w_pc (x_workers s' u)) \<Longrightarrow> counted (w_pc (x_workers s u))"
  shows "count_inv s'"
  using assms unfolding count_inv_def by auto

lemma count_update:
  assumes inv: "count_inv s" and i: "i < pool_size (x_pool s)"
    and s': "x_workers s' = (x_workers s)(i := w)" "pool_size (x_pool s') = pool_size (x_pool s)"
    and d: "x_msg_count s' + thread_msg_count w - x_balance s' = x_msg_count s + thread_msg_count (x_workers s i) - x_balance s"
    and park: "counted (w_pc w) \<longrightarrow> thread_msg_count w = 0"
  shows "count_inv s'"
proof -
  let ?S = "\<lambda>s. \<Sum>i < pool_size (x_pool s). thread_msg_count (x_workers s i)"
  have "?S s' + thread_msg_count (x_workers s i) = ?S s + thread_msg_count w"
    unfolding s' by (rule sum_fun_upd [OF i])
  moreover have "x_msg_count s + ?S s = x_balance s" using inv by (simp add: count_inv_def)
  ultimately have "x_msg_count s' + ?S s' = x_balance s'" using d by (rule balance)
  then show ?thesis using inv park by (auto simp: count_inv_def s')
qed

lemma worker_count_inv:
  assumes inv: "count_inv s" and i: "i < pool_size (x_pool s)" and step: "worker_step X i c s = Some s'"
  shows "count_inv s'"
proof -
  have f: "worker_frame X i s s'" by (rule worker_step_frame [OF step])
  let ?same = "thread_msg_count (x_workers s' i) = thread_msg_count (x_workers s i)
    \<and> (counted (w_pc (x_workers s' i)) \<longrightarrow> counted (w_pc (x_workers s i)))
    \<and> x_msg_count s' = x_msg_count s \<and> x_balance s' = x_balance s"
  have same: "count_inv s'" if same: ?same
  proof (rule count_same [OF inv])
    show "x_msg_count s' = x_msg_count s" "x_balance s' = x_balance s" using that by auto
    show "pool_size (x_pool s') = pool_size (x_pool s)" using f by (simp add: worker_frame_def)
    show "thread_msg_count (x_workers s' u) = thread_msg_count (x_workers s u)" for u
      using f same by (cases "u = i") (auto simp: worker_frame_def)
    show "counted (w_pc (x_workers s u))" if "counted (w_pc (x_workers s' u))" for u
      using f that same by (cases "u = i") (auto simp: worker_frame_def)
  qed
  show ?thesis
  proof (cases "w_pc (x_workers s i)")
    case (Barrier pc)
    show ?thesis
    proof (cases "pc \<in> {UpdateCount, UpdateCountLast}")
      case True
      then obtain pc' where "s' = goto i (Barrier pc') (update_msg_count i s)"
        using step Barrier by (auto simp: worker_step_def)
      then have s': "x_workers s' = (x_workers s)(i := (x_workers s i)\<lparr>thread_msg_count := 0, w_pc := Barrier pc'\<rparr>)"
        "x_pool s' = x_pool s" "x_msg_count s' = x_msg_count s + thread_msg_count (x_workers s i)" "x_balance s' = x_balance s"
        by (simp_all add: state_defs update_msg_count_def Let_def)
      show ?thesis by (rule count_update [OF inv i s'(1)]) (simp_all add: s')
    next
      case False
      then have ?same
        using step Barrier by (cases pc) (auto simp: worker_step_def state_defs Let_def
            split: option.splits prod.splits bool.splits if_splits)
      then show ?thesis by (rule same)
    qed
  next
    case (Search pc)
    then have ?same
      using step by (cases pc) (auto simp: worker_step_def state_defs Let_def
          split: option.splits prod.splits if_splits)
    then show ?thesis by (rule same)
  next
    case (RunLoop pc)
    show ?thesis
    proof (cases "pc = RunningTask \<and> (\<exists>b. c = Message b)")
      case True
      then obtain b where "c = Message b" "pc = RunningTask" by blast
      define d :: usize where "d = (if b then 1 else - 1)"
      have s': "s' = put_worker i ((x_workers s i)\<lparr>thread_msg_count := thread_msg_count (x_workers s i) + d\<rparr>)
          (s\<lparr>x_balance := x_balance s + d\<rparr>)"
        using step RunLoop \<open>c = Message b\<close> \<open>pc = RunningTask\<close> by (simp add: worker_step_def Let_def d_def)
      show ?thesis
        by (rule count_update [OF inv i, of s' "(x_workers s i)\<lparr>thread_msg_count := thread_msg_count (x_workers s i) + d\<rparr>"])
          (simp_all add: s' put_worker_def RunLoop)
    next
      case False
      then have ?same
        using step RunLoop by (cases pc; cases c) (auto simp: worker_step_def state_defs Let_def schedule_task_def
            split: option.splits prod.splits if_splits)
      then show ?thesis by (rule same)
    qed
  next
    case (Schedule pc)
    then have ?same
      using step by (cases pc) (auto simp: worker_step_def state_defs Let_def
          split: option.splits prod.splits if_splits sum.splits)
    then show ?thesis by (rule same)
  next
    case (PanicExit pc)
    then have ?same
      using step by (cases "(X, i, pc, s)" rule: panic_step.cases)
        (auto simp: worker_step_def state_defs Let_def split: option.splits prod.splits)
    then show ?thesis by (rule same)
  qed (use step in \<open>simp add: worker_step_def\<close>)
qed

lemma executor_reach_count: "executor_reach X n s \<Longrightarrow> count_inv s"
proof (induction rule: executor_reach.induct)
  case (init s)
  then show ?case using executor_new_fields [OF init] by (simp add: count_inv_def worker_new_def)
next
  case (step s a s')
  show ?case
  proof (cases a)
    case (WorkerAct i c)
    then show ?thesis using step.hyps(2) step.IH worker_count_inv by (auto split: if_splits)
  next
    case (MainAct c)
    then have "main_frame X s s'" using step.hyps(2) main_step_frame by auto
    then show ?thesis by (intro count_same [OF step.IH]) (auto simp: main_frame_def)
  qed
qed

section \<open>Dropping the executor\<close>

text \<open>A worker that will find the abort signal without waiting.\<close>

definition leaving :: "('k \<Rightarrow> bool) \<Rightarrow> ('r, 'q, 'k, 'p) worker \<Rightarrow> bool" where
  "leaving token w \<longleftrightarrow> w_pc w \<in> {WorkerExit, Barrier CheckAbort} \<or> token (w_parker w)"

fun drop_inv :: "('k \<Rightarrow> bool) \<Rightarrow> 'p main_pc \<Rightarrow> ('r, 'q, 'k, 'p) executor \<Rightarrow> bool" where
  "drop_inv token (DropUnpark js) s \<longleftrightarrow> (\<forall>i < pool_size (x_pool s). i \<in> set js \<or> leaving token (x_workers s i))"
| "drop_inv token JoinWorkers s \<longleftrightarrow> (\<forall>i < pool_size (x_pool s). leaving token (x_workers s i))"
| "drop_inv token _ s \<longleftrightarrow> True"

lemma worker_own_parker:
  assumes "worker_step X i c s = Some s'" "w_pc (x_workers s i) \<noteq> Barrier ParkWorker"
  shows "w_parker (x_workers s' i) \<in> {w_parker (x_workers s i), pk_unpark X (w_parker (x_workers s i))}"
proof (cases "w_pc (x_workers s i)")
  case (Barrier pc)
  then show ?thesis
    using assms by (cases pc) (auto simp: worker_step_def state_defs update_msg_count_def Let_def
        split: option.splits prod.splits bool.splits)
next
  case (Search pc)
  then show ?thesis
    using assms by (cases pc) (auto simp: worker_step_def state_defs Let_def
        split: option.splits prod.splits if_splits)
next
  case (RunLoop pc)
  then show ?thesis
    using assms by (cases pc; cases c) (auto simp: worker_step_def state_defs Let_def schedule_task_def
        split: option.splits prod.splits if_splits)
next
  case (Schedule pc)
  then show ?thesis
    using assms by (cases pc) (auto simp: worker_step_def state_defs Let_def
        split: option.splits prod.splits if_splits sum.splits)
next
  case (PanicExit pc)
  then show ?thesis
    using assms by (cases "(X, i, pc, s)" rule: panic_step.cases)
      (auto simp: worker_step_def state_defs Let_def split: option.splits prod.splits)
qed (use assms in \<open>simp add: worker_step_def\<close>)

lemma leaving_step:
  assumes laws: "parker_laws X token" and step: "worker_step X i c s = Some s'" and abort: "x_abort s"
    and leaving: "leaving token (x_workers s u)"
  shows "leaving token (x_workers s' u)"
proof (cases "u = i")
  case True
  show ?thesis
  proof (cases "w_pc (x_workers s i) \<in> {Barrier CheckAbort, Barrier ParkWorker}")
    case True
    then show ?thesis
      using step abort \<open>u = i\<close> by (auto simp: worker_step_def leaving_def state_defs split: option.splits)
  next
    case False
    moreover have "w_pc (x_workers s i) \<noteq> WorkerExit" using step by (auto simp: worker_step_def)
    ultimately have "token (w_parker (x_workers s i))" using leaving \<open>u = i\<close> by (auto simp: leaving_def)
    then show ?thesis
      using worker_own_parker [OF step] False \<open>u = i\<close> parker_facts(2) [OF laws] by (auto simp: leaving_def)
  qed
next
  case False
  then show ?thesis
    using worker_step_frame [OF step] leaving parker_facts(2) [OF laws]
    by (auto simp: worker_frame_def leaving_def)
qed

lemma executor_reach_drop:
  assumes "parker_laws X token" "executor_reach X n s"
  shows "drop_inv token (x_main s) s"
  using assms(2)
proof (induction rule: executor_reach.induct)
  case (init s)
  then show ?case using executor_new_fields [OF init] by simp
next
  case (step s a s')
  show ?case
  proof (cases a)
    case (WorkerAct i c)
    then have st: "worker_step X i c s = Some s'" using step.hyps(2) by (auto split: if_splits)
    have f: "x_main s' = x_main s" "pool_size (x_pool s') = pool_size (x_pool s)"
      using worker_step_frame [OF st] by (auto simp: worker_frame_def)
    have "aborting (x_main s) \<longrightarrow> x_abort s" using executor_reach_frame [OF step.hyps(1)] by simp
    then show ?thesis
      using step.IH leaving_step [OF assms(1) st] unfolding f
      by (cases "(token, x_main s, s)" rule: drop_inv.cases) (auto simp: f)
  next
    case (MainAct c)
    then have st: "main_step X c s = Some s'" using step.hyps(2) by simp
    have f: "main_frame X s s'" by (rule main_step_frame [OF st])
    have keep: "leaving token (x_workers s' u)" if "leaving token (x_workers s u)" for u
    proof -
      have "w_pc (x_workers s' u) = w_pc (x_workers s u)"
        "w_parker (x_workers s' u) \<in> {w_parker (x_workers s u), pk_unpark X (w_parker (x_workers s u))}"
        using f by (auto simp: main_frame_def)
      then show ?thesis using that parker_facts(2) [OF assms(1)] by (auto simp: leaving_def)
    qed
    have n: "pool_size (x_pool s') = pool_size (x_pool s)" using f by (simp add: main_frame_def)
    show ?thesis
    proof (cases "x_main s")
      case (MainIdle res)
      then show ?thesis using st by (cases c) (auto simp: executor_spawn_def)
    next
      case (ActivateFirst a)
      then show ?thesis using st by (auto simp: state_defs Let_def split: option.splits prod.splits)
    next
      case (TimeoutUnpark js)
      then show ?thesis using st by (cases js) (auto simp: state_defs)
    next
      case DropStore
      then show ?thesis using st by (auto dest: pool_frame(6))
    next
      case (DropUnpark js)
      show ?thesis
      proof (cases js)
        case Nil
        then show ?thesis using DropUnpark st step.IH by auto
      next
        case (Cons j js')
        then have s': "s' = unpark_worker X j (s\<lparr>x_main := DropUnpark js'\<rparr>)" using DropUnpark st by simp
        have "leaving token (x_workers s' j)"
          using parker_facts(2) [OF assms(1)] by (simp add: s' unpark_worker_def put_worker_def leaving_def)
        moreover have "x_main s' = DropUnpark js'" by (simp add: s' unpark_worker_def put_worker_def)
        ultimately show ?thesis using DropUnpark Cons step.IH keep by (auto simp: n)
      qed
    next
      case JoinWorkers
      then show ?thesis using st step.IH by (auto split: if_splits)
    next
      case ReadCount
      then show ?thesis using st by (auto simp: read_msg_count_def)
    qed (use st in \<open>auto split: option.splits prod.splits if_splits\<close>)
  qed
qed

end
