(* ===== verification/Mt_Properties.thy ===== *)
theory Mt_Properties
  imports Mt_Frame
begin

text \<open>
  Properties of the multi-threaded executor, for every interleaving of its threads, and an execution in
  which the count of messages is read too early.
\<close>

section \<open>An instance of the third-party operations\<close>

text \<open>Local queues as lists with a capacity, parkers as flags.\<close>

definition list_ops :: "(nat, nat \<times> nat list, bool) exec_ops" where
  "list_ops = \<lparr>
     lq_new = (\<lambda>n. (n, [])),
     lq_push = (\<lambda>r (n, q). if length q < n then Inr (n, q @ [r]) else Inl r),
     lq_pop = (\<lambda>(n, q). case q of [] \<Rightarrow> ((n, []), None) | r # q' \<Rightarrow> ((n, q'), Some r)),
     lq_drain = (\<lambda>f (n, q). if f (length q) = 0 \<or> q = [] then None else Some ((n, drop (f (length q)) q), take (f (length q)) q)),
     lq_spare_capacity = (\<lambda>(n, q). n - length q),
     lq_extend = (\<lambda>rs (n, q). (n, q @ rs)),
     lq_steal_and_pop = (\<lambda>f (m, v) (n, q). case take (f (length v)) v of
         [] \<Rightarrow> None | r # rs \<Rightarrow> Some ((m, drop (f (length v)) v), (n, q @ rs), r)),
     pk_new = False,
     pk_unpark = (\<lambda>_. True),
     pk_park = (\<lambda>k. if k then Some False else None)\<rparr>"

definition list_items :: "nat \<times> nat list \<Rightarrow> nat multiset" where
  "list_items q = mset (snd q)"

lemma list_ops_laws: "local_queue_laws list_ops list_items" "parker_laws list_ops (\<lambda>k. k)"
proof -
  have steal: "mset v = add_mset r (mset rs) + mset (drop k v)" if "take k v = r # rs" for k r rs and v :: "nat list"
    using that append_take_drop_id [of k v] by (metis mset.simps(2) mset_append)
  show "local_queue_laws list_ops list_items"
    by (auto simp: local_queue_laws_def list_ops_def list_items_def steal mset_append [symmetric]
        simp del: mset_append split: list.splits if_splits) (auto simp: steal)
  show "parker_laws list_ops (\<lambda>k. k)" by (auto simp: parker_laws_def list_ops_def)
qed

section \<open>Idle pool\<close>

lemma read_count_idle:
  assumes laws: "local_queue_laws X items" "parker_laws X token" and "executor_reach X n s"
  shows "\<not> x_abort s \<longrightarrow> x_main s = ReadCount \<longrightarrow> (\<forall>j. \<not> active s j)"
  using assms(3)
proof (induction rule: executor_reach.induct)
  case (init s)
  then show ?case using executor_new_fields [OF init] by simp
next
  case (step s a s')
  show ?case
  proof (intro impI)
    assume prems: "\<not> x_abort s'" "x_main s' = ReadCount"
    show "\<forall>j. \<not> active s' j"
    proof (cases a)
      case (WorkerAct i c)
      then have i: "i < pool_size (x_pool s)" and st: "worker_step X i c s = Some s'"
        using step.hyps(2) by (auto split: if_splits)
      have f: "x_main s = ReadCount" "\<not> x_abort s" using worker_step_frame [OF st] prems by (auto simp: worker_frame_def)
      then have idle: "\<not> active s u" for u using step.IH by blast
      have inv: "workers_inv token items s"
        using executor_reach_inv [OF laws step.hyps(1)] f by (simp add: exec_inv_def)
      have "asleep (w_pc (x_workers s i))" using awake_active(1) [OF inv i] idle by blast
      then have "x_pool s' = x_pool s"
        using st by (cases "w_pc (x_workers s i)")
          (auto simp: worker_step_def state_defs update_msg_count_def Let_def split: option.splits)
      then show ?thesis using idle by (simp add: active_def)
    next
      case (MainAct c)
      then have st: "main_step X c s = Some s'" using step.hyps(2) by simp
      have "pool_is_idle (x_pool s) \<and> x_pool s' = x_pool s"
      proof (cases "x_main s")
        case (MainIdle res)
        then show ?thesis using st prems by (cases c) (auto simp: executor_spawn_def)
      next
        case (ActivateFirst a)
        then show ?thesis using st prems by (auto simp: state_defs Let_def split: option.splits prod.splits if_splits)
      next
        case (TimeoutUnpark js)
        then show ?thesis using st prems by (cases js) (auto simp: state_defs)
      next
        case (DropUnpark js)
        then show ?thesis using st prems by (cases js) (auto simp: state_defs)
      next
        case ReadCount
        then show ?thesis using st prems by (auto simp: read_msg_count_def split: if_splits)
      qed (use st prems in \<open>auto split: option.splits prod.splits if_splits\<close>)
      then show ?thesis by (simp add: pool_is_idle_iff active_def)
    qed
  qed
qed

text \<open>
  C36. When the main thread has found the pool idle in \<open>run\<close> and is about to return, and no thread has set
  the abort signal, no task is left anywhere: the injector queue, the local queues and the fast slots are
  empty and no worker is searching or running a task.  This holds for every number of workers, for every
  interleaving and whatever the tasks do.
\<close>
theorem idle_means_done:
  assumes "local_queue_laws X items" "parker_laws X token" "executor_reach X n s" "\<not> x_abort s" "x_main s = ReadCount"
  shows "injector_tasks (x_injector s) = {#} \<and> (\<forall>i < n. items (local_queue (x_workers s i)) = {#}
    \<and> fast_slot (x_workers s i) = None \<and> asleep (w_pc (x_workers s i)))"
proof -
  have inv: "exec_inv token items s" by (rule executor_reach_inv [OF assms(1-4)])
  then have w: "workers_inv token items s" by (simp add: exec_inv_def)
  have n: "pool_size (x_pool s) = n" using executor_reach_frame [OF assms(3)] by simp
  have idle: "\<not> active s i" for i using read_count_idle [OF assms(1-3)] assms(4,5) by blast
  have sleep: "asleep (w_pc (x_workers s i))" if "i < n" for i
    using awake_active(1) [OF w, of i] idle that n by blast
  moreover have "quiet (w_pc (x_workers s i))" if "i < n" for i
    using asleep_barrier [OF sleep [OF that]] by auto
  moreover have "\<not> panicking (w_pc (x_workers s i))" if "i < n" for i
    using asleep_barrier [OF sleep [OF that]] by auto
  then have "main_inv token ReadCount s" using inv assms(5) n by (auto simp: exec_inv_def)
  ultimately show ?thesis using quiet_empty [OF w] n by simp
qed

text \<open>One worker, one task: the task runs and the pool becomes idle.\<close>

lemma executor_steps_reach:
  "executor_reach X n s \<Longrightarrow> executor_steps X as s = Some s' \<Longrightarrow> executor_reach X n s'"
  by (induction as arbitrary: s) (auto simp: bind_eq_Some_conv intro: executor_reach.step)

definition single_trace :: "(nat, unit) act list" where
  "single_trace =
     replicate 5 (WorkerAct 0 Proceed) @ replicate 2 (MainAct MainProceed)
     @ [MainAct (SpawnTask 7), MainAct (CallRun 0)] @ replicate 4 (MainAct MainProceed)
     @ replicate 13 (WorkerAct 0 Proceed) @ [WorkerAct 0 Refused] @ replicate 4 (WorkerAct 0 Proceed)
     @ replicate 2 (MainAct MainProceed)"

lemma single_trace_runs:
  "map_option (\<lambda>s. (x_main s, x_abort s)) (Option.bind (executor_new list_ops 1) (executor_steps list_ops single_trace))
    = Some (ReadCount, False)"
  by code_simp

theorem idle_means_done_witness:
  "\<exists>s :: (nat, nat \<times> nat list, bool, unit) executor. executor_reach list_ops 1 s \<and> x_main s = ReadCount
    \<and> injector_tasks (x_injector s) = {#} \<and> list_items (local_queue (x_workers s 0)) = {#} \<and> fast_slot (x_workers s 0) = None"
proof -
  obtain s0 s where s0: "executor_new list_ops 1 = Some s0" and s: "executor_steps list_ops single_trace s0 = Some s"
    "x_main s = ReadCount" "\<not> x_abort s"
    using single_trace_runs by (auto simp: bind_eq_Some_conv)
  have "executor_reach list_ops 1 s" by (rule executor_steps_reach [OF executor_reach.init [OF s0] s(1)])
  with idle_means_done [OF list_ops_laws this s(3,2)] s(2) show ?thesis by auto
qed

section \<open>Waiting threads\<close>

lemma worker_enabled:
  assumes "parker_laws X token" "1 \<le> pool_size (x_pool s)" "w_pc (x_workers s i) \<noteq> WorkerExit"
    "w_pc (x_workers s i) = Barrier ParkWorker \<longrightarrow> token (w_parker (x_workers s i))"
  shows "worker_step X i c s \<noteq> None"
proof (cases "w_pc (x_workers s i)")
  case (Barrier pc)
  then show ?thesis
    using assms parker_facts(3) [OF assms(1), of "w_parker (x_workers s i)"]
    by (cases pc) (auto simp: worker_step_def split: option.splits bool.splits)
next
  case (Search pc)
  then show ?thesis
    by (cases pc) (auto simp: worker_step_def Let_def split: option.splits prod.splits)
next
  case (RunLoop pc)
  then show ?thesis
    by (cases pc; cases c) (auto simp: worker_step_def Let_def split: option.splits prod.splits)
next
  case (Schedule pc)
  show ?thesis
  proof (cases pc)
    case (ActivateOther a)
    obtain p a' u where "activate_worker_relaxed a (x_pool s) = (p, a', u)" by (metis prod.exhaust)
    then show ?thesis using Schedule ActivateOther by (simp add: worker_step_def Let_def)
  next
    case (DrainLocal prev)
    then show ?thesis using Schedule by (simp add: worker_step_def Let_def split: option.split prod.split)
  qed (use Schedule in \<open>simp_all add: worker_step_def Let_def split: sum.split\<close>)
next
  case (PanicExit pc)
  have "64 - pool_size (x_pool s) < 64" using assms(2) by arith
  then have "activate_all_workers (x_pool s) \<noteq> None"
    unfolding activate_all_workers_def set_all_workers_active_def by (simp only: if_True option.map option.simps simp_thms)
  then show ?thesis
    using PanicExit by (cases "(X, i, pc, s)" rule: panic_step.cases) (simp_all add: worker_step_def Let_def)
qed (use assms in auto)

lemma waiting_worker:
  assumes laws: "local_queue_laws X items" "parker_laws X token" and reach: "executor_reach X n s" and abort: "\<not> x_abort s"
    and main: "x_main s \<in> {NewPark, MainPark}" "\<not> token (x_parker s)"
  shows "\<exists>i < n. w_pc (x_workers s i) \<noteq> WorkerExit
    \<and> (w_pc (x_workers s i) = Barrier ParkWorker \<longrightarrow> token (w_parker (x_workers s i)))"
proof -
  have inv: "exec_inv token items s" by (rule executor_reach_inv [OF laws reach abort])
  then have w: "workers_inv token items s" by (simp add: exec_inv_def)
  have n: "pool_size (x_pool s) = n" using executor_reach_frame [OF reach] by simp
  let ?ready = "\<lambda>i. w_pc (x_workers s i) \<noteq> WorkerExit
    \<and> (w_pc (x_workers s i) = Barrier ParkWorker \<longrightarrow> token (w_parker (x_workers s i)))"
  have exit: "w_pc (x_workers s i) \<noteq> WorkerExit" if "i < n" for i using w that n by (simp add: workers_inv_def)
  have awake: "?ready i" if "i < n" "\<not> asleep (w_pc (x_workers s i))" for i using exit that by auto
  show ?thesis
  proof (cases "\<exists>j. active s j")
    case True
    then obtain j where j: "active s j" by blast
    then have jn: "j < n" using active_below [OF w] n by blast
    have "owners token n (x_workers s) (x_main s) j = 1" using owners_eq [OF w, of j] jn n j by simp
    then consider "\<not> asleep (w_pc (x_workers s j))" | "token (w_parker (x_workers s j))" | "0 < pending n (x_workers s) j"
      using main(1) unfolding owners_def by (auto split: if_splits simp: of_bool_def)
    then show ?thesis
    proof cases
      case 3
      then obtain u where u: "u < n" "claims (w_pc (x_workers s u)) j" using pending_pos by blast
      then have "\<not> asleep (w_pc (x_workers s u))" by (cases "w_pc (x_workers s u)") auto
      then show ?thesis using awake u by blast
    qed (use awake exit jn in blast)+
  next
    case False
    show ?thesis
    proof (cases "\<exists>u < n. panicking (w_pc (x_workers s u))")
      case True
      then obtain u where u: "u < n" "panicking (w_pc (x_workers s u))" by blast
      then have "\<not> asleep (w_pc (x_workers s u))" by (cases "w_pc (x_workers s u)") auto
      then show ?thesis using awake u by blast
    next
      case nopanic: False
      then have "main_inv token (x_main s) s" using inv n by (auto simp: exec_inv_def)
      then have "wake_coming token s" using main(1) False by auto
      then obtain i where "i < n" "w_pc (x_workers s i) \<in> {Barrier UpdateCountLast, Barrier UnparkExecutor}"
        using main(2) n by (auto simp: wake_coming_def)
      then show ?thesis by auto
    qed
  qed
qed

text \<open>
  C37. No thread waits forever for another one.  Before the abort signal, when the main thread is blocked on
  its parker, in \<open>run\<close> or while the executor is created, some worker can make a step.  When it joins the
  workers to drop the executor, every worker that has not returned can make a step: it finds a token if it
  parks, and then the abort signal.
\<close>
theorem no_thread_stuck:
  assumes "local_queue_laws X items" "parker_laws X token" "executor_reach X n s"
  shows "(\<not> x_abort s \<longrightarrow> x_main s \<in> {NewPark, MainPark} \<longrightarrow> pk_park X (x_parker s) = None \<longrightarrow>
      (\<exists>i < n. \<forall>c. worker_step X i c s \<noteq> None))
    \<and> (x_main s = JoinWorkers \<longrightarrow>
      (\<forall>i < n. w_pc (x_workers s i) \<noteq> WorkerExit \<longrightarrow> (\<forall>c. worker_step X i c s \<noteq> None)))"
proof -
  have n: "pool_size (x_pool s) = n" "1 \<le> n" using executor_reach_frame [OF assms(3)] by simp_all
  note enabled = worker_enabled [OF assms(2), of s]
  have "\<exists>i < n. \<forall>c. worker_step X i c s \<noteq> None"
    if "\<not> x_abort s" "x_main s \<in> {NewPark, MainPark}" "pk_park X (x_parker s) = None"
    using waiting_worker [OF assms that(1,2)] that(3) parker_facts(3) [OF assms(2)] enabled n by metis
  moreover have "worker_step X i c s \<noteq> None"
    if "x_main s = JoinWorkers" "i < n" "w_pc (x_workers s i) \<noteq> WorkerExit" for i c
  proof -
    have "leaving token (x_workers s i)" using executor_reach_drop [OF assms(2,3)] that n by simp
    then show ?thesis using that n by (intro enabled) (auto simp: leaving_def)
  qed
  ultimately show ?thesis by blast
qed

theorem no_thread_stuck_witness:
  "\<exists>s :: (nat, nat \<times> nat list, bool, unit) executor. executor_reach list_ops 1 s \<and> x_main s = NewPark
    \<and> pk_park list_ops (x_parker s) = None \<and> worker_step list_ops 0 Proceed s \<noteq> None"
proof -
  obtain s :: "(nat, nat \<times> nat list, bool, unit) executor" where s: "executor_new list_ops 1 = Some s"
    using single_trace_runs by (auto simp: bind_eq_Some_conv)
  have r: "executor_reach list_ops 1 s" by (rule executor_reach.init [OF s])
  have "x_main s = NewPark \<and> \<not> x_abort s \<and> pk_park list_ops (x_parker s) = None"
    by (rule executor_new_eq [OF s]) (simp add: list_ops_def)
  with no_thread_stuck [OF list_ops_laws r] r show ?thesis by auto
qed

section \<open>The count of messages\<close>

text \<open>The count is exact once every worker is parked.\<close>

lemma parked_count_exact:
  assumes "executor_reach X n s" "\<forall>i < n. w_pc (x_workers s i) = Barrier ParkWorker"
  shows "x_msg_count s = x_balance s"
proof -
  have "pool_size (x_pool s) = n" using executor_reach_frame [OF assms(1)] by simp
  then have "x_msg_count s + (\<Sum>i < n. thread_msg_count (x_workers s i)) = x_balance s"
    "(\<Sum>i < n. thread_msg_count (x_workers s i)) = 0"
    using executor_reach_count [OF assms(1)] assms(2) by (auto simp: count_inv_def intro!: sum.neutral)
  then show ?thesis by simp
qed

text \<open>With a single candidate the choice of the first stealer does not depend on the random number.\<close>

lemma single_stealer:
  assumes "i < n" "n - i < 64" "i < 64"
  shows "stealers_new (worker_bit i) n seed = Some (\<lparr>st_count = n, st_candidates = 1, st_next = i\<rparr>, fst (rng_gen seed))"
proof -
  have b: "bit (worker_bit i) j \<longleftrightarrow> j = i" for j using assms(3) by (auto simp: bit_worker_bit)
  have c: "worker_bit i \<noteq> 0" using b [of i] by auto
  have k: "unat (find_bit (worker_bit i) (\<lambda>count. snd (gen_bounded seed count) + 1)) = i"
    using find_bit_random [OF c, of seed] b by simp
  have "push_bit i 1 - 1 = (mask i :: usize)" by (simp add: mask_eq_exp_minus_1)
  then have "worker_bit i AND (push_bit i 1 - 1) = 0"
    by (simp only:) (auto simp: word_bits bit_and_iff bit_mask_iff b)
  moreover have "drop_bit i (worker_bit i) = 1" using assms(3) by (auto simp: word_bits bit_drop_bit_eq bit_1_iff b)
  ultimately show ?thesis
    unfolding stealers_new_def k Let_def split_def using c assms by simp
qed

lemma two_stealers:
  "stealers_new 1 2 seed = Some (\<lparr>st_count = 2, st_candidates = 1, st_next = 0\<rparr>, fst (rng_gen seed))"
  "stealers_new 2 2 seed = Some (\<lparr>st_count = 2, st_candidates = 1, st_next = 1\<rparr>, fst (rng_gen seed))"
  "stealers_new 0 2 seed = Some (\<lparr>st_count = 2, st_candidates = 0, st_next = 0\<rparr>, seed)"
  using single_stealer [of 0 2 seed] single_stealer [of 1 2 seed]
  by (simp_all add: worker_bit_def stealers_new_def)

lemma trailing_ones_small: "trailing_ones 0 = 0" "trailing_ones 1 = 1"
  by (simp_all add: trailing_ones_def upt_rec)

text \<open>States with two workers.\<close>

definition pair_state where
  "pair_state p q w0 w1 k c m b = \<lparr>x_pool = p, x_injector = q, x_workers = (worker_new list_ops)(0 := w0, 1 := w1),
     x_parker = k, x_msg_count = c, x_abort = False, x_timeout = 0, x_main = m, x_balance = b\<rparr>"

lemma pair_state_simps:
  "x_pool (pair_state p q w0 w1 k c m b) = p" "x_injector (pair_state p q w0 w1 k c m b) = q"
  "x_workers (pair_state p q w0 w1 k c m b) 0 = w0" "x_workers (pair_state p q w0 w1 k c m b) (Suc 0) = w1"
  "x_parker (pair_state p q w0 w1 k c m b) = k" "x_msg_count (pair_state p q w0 w1 k c m b) = c"
  "x_abort (pair_state p q w0 w1 k c m b) = False" "x_timeout (pair_state p q w0 w1 k c m b) = 0"
  "x_main (pair_state p q w0 w1 k c m b) = m" "x_balance (pair_state p q w0 w1 k c m b) = b"
  "(pair_state p q w0 w1 k c m b)\<lparr>x_pool := p'\<rparr> = pair_state p' q w0 w1 k c m b"
  "(pair_state p q w0 w1 k c m b)\<lparr>x_injector := q'\<rparr> = pair_state p q' w0 w1 k c m b"
  "(pair_state p q w0 w1 k c m b)\<lparr>x_parker := k'\<rparr> = pair_state p q w0 w1 k' c m b"
  "(pair_state p q w0 w1 k c m b)\<lparr>x_msg_count := c'\<rparr> = pair_state p q w0 w1 k c' m b"
  "(pair_state p q w0 w1 k c m b)\<lparr>x_timeout := 0\<rparr> = pair_state p q w0 w1 k c m b"
  "(pair_state p q w0 w1 k c m b)\<lparr>x_main := m'\<rparr> = pair_state p q w0 w1 k c m' b"
  "(pair_state p q w0 w1 k c m b)\<lparr>x_balance := b'\<rparr> = pair_state p q w0 w1 k c m b'"
  "put_worker 0 w (pair_state p q w0 w1 k c m b) = pair_state p q w w1 k c m b"
  "put_worker (Suc 0) w (pair_state p q w0 w1 k c m b) = pair_state p q w0 w k c m b"
  by (simp_all add: pair_state_def put_worker_def fun_upd_twist)

lemma list_ops_simps:
  "lq_new list_ops n = (n, [])" "lq_push list_ops r (n, q) = (if length q < n then Inr (n, q @ [r]) else Inl r)"
  "lq_pop list_ops (n, []) = ((n, []), None)" "lq_pop list_ops (n, r # q) = ((n, q), Some r)"
  "lq_spare_capacity list_ops (n, q) = n - length q" "lq_extend list_ops rs (n, q) = (n, q @ rs)"
  "lq_steal_and_pop list_ops f (m, []) (n, q) = None"
  "lq_steal_and_pop list_ops (\<lambda>n. n - n div 2) (m, [r]) (n, q) = Some ((m, []), (n, q), r)"
  "pk_new list_ops = False" "pk_unpark list_ops k = True" "pk_park list_ops False = None" "pk_park list_ops True = Some False"
  by (simp_all add: list_ops_def)

lemma executor_steps_replicate:
  "executor_steps X (replicate (numeral k) a @ as) s
    = Option.bind (executor_step X a s) (executor_steps X (replicate (pred_numeral k) a @ as))"
  "executor_steps X (replicate (numeral k) a) s
    = Option.bind (executor_step X a s) (executor_steps X (replicate (pred_numeral k) a))"
  by (simp_all add: numeral_eq_Suc)

definition race_trace :: "(nat, unit) act list" where
  "race_trace =
     replicate 2 (WorkerAct 1 Proceed) @ replicate 5 (WorkerAct 0 Proceed) @ replicate 2 (MainAct MainProceed)
     @ [MainAct (SpawnTask 1), MainAct (CallRun 0)] @ replicate 6 (MainAct MainProceed)
     @ replicate 7 (WorkerAct 0 Proceed) @ [WorkerAct 0 (Message True), WorkerAct 0 (Wake 2), WorkerAct 0 (Wake 3)]
     @ replicate 6 (WorkerAct 0 Proceed)
     @ replicate 8 (WorkerAct 1 Proceed) @ [WorkerAct 1 (Message False), WorkerAct 1 Proceed]
     @ replicate 10 (WorkerAct 0 Proceed) @ [WorkerAct 0 Refused, WorkerAct 0 Proceed]
     @ replicate 5 (WorkerAct 1 Proceed) @ [WorkerAct 1 Refused] @ replicate 5 (WorkerAct 1 Proceed)
     @ replicate 4 (MainAct MainProceed)"

lemma pair_new: "executor_new list_ops 2 = Some (pair_state
   \<lparr>pool_size = 2, active_workers = 3, searching_workers = 0, worker_panic = None\<rparr> \<lparr>inj_inner = [], inj_is_empty = True\<rparr>
   (worker_new list_ops 0) (worker_new list_ops 1) False 0 NewPark 0)"
proof -
  have "drop_bit 62 (NOT 0) = (3 :: usize)" by (simp add: mask_eq_exp_minus_1)
  then show ?thesis
    by (simp add: executor_new_def pool_new_def set_all_workers_active_def injector_new_def BUCKET_SIZE_def pair_state_def list_ops_simps
        fun_upd_idem)
qed

lemmas run_simps = worker_new_def worker_step_def goto_def unpark_worker_def unpark_main_def update_msg_count_def
  try_set_worker_inactive_def set_all_workers_inactive_def injector_is_empty_def pop_bucket_def insert_task_def
  bucket_push_def bucket_new_def singleton_bucket_def begin_worker_search_def end_worker_search_def
  searching_worker_count_def claim_worker_def worker_bit_def take_panic_def pool_is_idle_def executor_spawn_def
  read_msg_count_def schedule_task_def shuffled_stealers_def stealers_next_def trailing_ones_small two_stealers
  BUCKET_SIZE_def QUEUE_SIZE_def Let_def

text \<open>
  C38. A worker clears its mark before it adds its count of messages to the shared one, so that the pool is idle
  before the count is up to date.  In the execution below worker 0 sends a message that worker 1 receives;
  worker 0 is interrupted before it adds its count, worker 1 becomes the last active worker and adds its own, and
  the main thread finds the pool idle and the count equal to -1: the conversion to an unsigned number
  fails and \<open>run\<close> panics, although no message is lost and no worker has panicked.
\<close>
theorem count_read_too_early:
  "\<exists>s :: (nat, nat \<times> nat list, bool, unit) executor. executor_reach list_ops 2 s \<and> x_main s = MainFailed
    \<and> x_balance s = 0 \<and> \<not> x_abort s \<and> worker_panic (x_pool s) = None"
proof -
  have "map_option (\<lambda>s. (x_main s, x_abort s, x_balance s, worker_panic (x_pool s)))
      (Option.bind (executor_new list_ops 2) (executor_steps list_ops race_trace)) = Some (MainFailed, False, 0, None)"
    unfolding race_trace_def pair_new
    by (simp add: run_simps pair_state_simps list_ops_simps executor_steps_replicate)
  then obtain s0 s where s0: "executor_new list_ops 2 = Some s0" and s: "executor_steps list_ops race_trace s0 = Some s"
    "x_main s = MainFailed" "\<not> x_abort s" "x_balance s = 0" "worker_panic (x_pool s) = None"
    by (auto simp: bind_eq_Some_conv)
  then show ?thesis using executor_steps_reach [OF executor_reach.init [OF s0] s(1)] by blast
qed

end
