(* ===== verification/Spec2Isabelle.thy ===== *)
theory Spec2Isabelle
  imports
    Key_Registry
    Simulation_Properties Task_Properties Mpsc_Properties Bit_Search Services_Properties
    Sync_Cell Slot Mt_Properties
begin

text \<open>
  A verification of NeXosim, a discrete-event simulation framework in Rust (the crate under
  \<open>src/nexosim\<close>; file names below are relative to \<open>src/nexosim/src\<close>).

  \<^bold>\<open>The program.\<close>  A simulation bench is a set of models with mailboxes.  Actions are kept in the
  priority queue of a global scheduler, ordered by time and origin.  A step of the simulation pulls the
  actions of the next time, turns them into asynchronous tasks and runs an executor until no task can
  make progress; models exchange messages through bounded channels, schedule further actions, and may
  write events to sinks.  A server exposes the simulation, the scheduler and the sinks to remote clients.

  \<^bold>\<open>Conventions.\<close>  \<open>Nexo_Prelude\<close> holds the shared vocabulary.  A function that may panic is an
  option, with \<open>None\<close> for the panic; an error is the left side of a sum.  A loop that may not end takes
  fuel and returns \<open>OutOfFuel\<close> when it is used up; termination is then proved as the existence of enough
  fuel.  Concurrent code is cut at its atomic accesses: a handle between two accesses is in a state of a
  datatype of its own, an inductive relation interleaves the steps of all the handles in every order, and
  a \<open>fault\<close> field records a panic.  Atomics are sequentially consistent.  Third-party code (the time type,
  the codecs, the encoders, the work-stealing queues and parkers) and user code (models, clocks) are arguments of the definitions that use them.

  \<^bold>\<open>Priority queues.\<close>  \<open>Pq_Spec\<close> is the reference: a list ordered by key in which equal keys keep the
  order of insertion, and the locale \<open>fifo_pq\<close> with the laws of an implementation.  \<open>Priority_Queue\<close>
  models \<open>util/priority_queue.rs\<close>, \<open>Indexed_Priority_Queue\<close> the binary heap with a slab of
  \<open>util/indexed_priority_queue.rs\<close>; both are interpretations of the locale (the latter in
  \<open>Ipq_Contract\<close>, with the map from insertion keys to live entries that deletion needs).
  \<open>Key_Registry\<close> models \<open>server/key_registry.rs\<close> on top of it: a registered key can be extracted until
  its deadline.

  \<^bold>\<open>Scheduler and simulation.\<close>  \<open>Scheduler\<close> models \<open>simulation/scheduler.rs\<close>: action keys as flags,
  the four kinds of actions, the operations of \<open>GlobalScheduler\<close> and \<open>Deadline\<close> of \<open>time.rs\<close>.
  \<open>Simulation\<close> models the stepping loops of \<open>simulation.rs\<close>; a run of the executor is a function of the
  record \<open>env\<close> that returns the calls the models make to the scheduler.  \<open>Simulation_Steps\<close> follows the
  loops, \<open>Simulation_Safety\<close> has the invariant (nothing pending at or before the current time) and the
  effect of a step, \<open>Simulation_Properties\<close> the properties: the actions of a step and their order, times,
  deadlines, termination with positive periods, errors, and two runs that show where the code departs
  from its documentation.

  \<^bold>\<open>Tasks.\<close>  \<open>Task_Word\<close> reads the 64-bit state word of a task as its fields, \<open>Task\<close> models
  \<open>executor/task.rs\<close> and \<open>executor/task/\<close>, \<open>Task_Safety\<close> proves the invariant of every interleaving
  and \<open>Task_Properties\<close> memory safety, that no wake is lost, that the cell is freed, and what a promise
  answers.  Fewer than \<open>2 ^ 30\<close> references and pending wakes are assumed to be leaked by panics, which is
  what the overflow checks of the code allow.

  \<^bold>\<open>Message queue.\<close>  \<open>Mpsc_Queue\<close> models \<open>channel/queue.rs\<close>; \<open>Mpsc_Layout\<close> relates positions and
  stamps to message numbers, \<open>Mpsc_Safety\<close> and \<open>Mpsc_Steps\<close> prove the invariant step by step,
  \<open>Mpsc_Reach\<close> for all reachable states, and \<open>Mpsc_Properties\<close> concludes: no panic, first in first out,
  what full, closed and empty mean, and the length.  Positions stay below \<open>2 ^ 63\<close>, where the code's
  comparison of stamps is exact.

  \<^bold>\<open>Cells.\<close>  \<open>Sync_Cell\<close> models the sequence lock of \<open>util/sync_cell.rs\<close> with the tearable time of
  \<open>time/monotonic_time.rs\<close> (\<open>Monotonic_Time\<close> is the interface of the time type), and shows that reads are
  neither torn nor outdated.  \<open>Slot\<close> models the one-shot slot of \<open>util/slot.rs\<close>.

  \<^bold>\<open>Bit search.\<close>  \<open>Bit_Search\<close> shows that the branchless search of \<open>util/bit.rs\<close> finds the bit of a
  given rank.

  \<^bold>\<open>Worker pool.\<close>  \<open>Injector\<close> models the queue of buckets of \<open>executor/mt_executor/injector.rs\<close> and its
  type invariant, \<open>Pool_Manager\<close> the bit field of the active workers and the iterator over stealers of
  \<open>executor/mt_executor/pool_manager.rs\<close>, with the random numbers of \<open>util/rng.rs\<close>.  \<open>Mt_Executor\<close> composes
  them into the executor of \<open>executor/mt_executor.rs\<close>: the loop of the workers, \<open>schedule_task\<close>, and the main thread
  in \<open>new\<close>, \<open>run\<close> and \<open>drop\<close>.  \<open>Mt_Safety\<close> states the invariant (a worker is marked as active exactly when one of
  three parties is responsible for it), \<open>Mt_Steps\<close> and \<open>Mt_Reach\<close> prove that the steps keep it, \<open>Mt_Frame\<close> lifts it
  to reachable states and adds the count of messages, and \<open>Mt_Properties\<close> concludes: an idle pool has no task
  left, no thread waits forever, and the count of messages may be read before it is up to date.

  \<^bold>\<open>Sinks and services.\<close>  \<open>Sinks\<close> models \<open>ports/sink/\<close> and their registry, with the locale
  \<open>event_sink\<close> interpreted for each kind of sink.  \<open>Services\<close> models the requests of
  \<open>server/services/\<close>, with the sources of \<open>registry/\<close> and \<open>ports/source.rs\<close>, on top of the models of
  the simulation, the scheduler and the key registry; \<open>Services_Properties\<close> has the translation of
  times, the effect of scheduling, and that a returned key cancels its event.

  \<^bold>\<open>Not modelled.\<close>  The single-threaded executor, the cancellation of the tasks of a
  dropped executor, the channel around the queue and
  the broadcasters, which compose futures of third-party packages; clocks, which wait for the system
  time; the assembly of a bench; the network code of the server, generated message types, tracing and
  macros.
\<close>

end
